(* ===== verification/Shm_Prelude.thy ===== *)
theory Shm_Prelude
  imports Main "HOL-Library.Word" "HOL-Library.Monad_Syntax"
begin

unbundle bit_operations_syntax

text \<open>
  The generic part of the library: the names of the machine integer types, the rule
  collections the components fill, bit fields of a machine word, and singly linked
  chains of addresses (the shape of every free list of the allocator).
\<close>

type_synonym u16 = "16 word"
type_synonym u32 = "32 word"
type_synonym u64 = "64 word"

named_theorems layout_simps "numeric values of the layout constants"
named_theorems state_simps "how an update of one part of the state is read at another"
named_theorems addr_simps "address arithmetic inside a segment"

section \<open>Bit fields of a word\<close>

text \<open>
  A C++ struct packs several small fields into one 8-byte cell. \<open>get_field off n w\<close> reads the
  \<open>n\<close> bits of \<open>w\<close> that start at bit \<open>off\<close>; \<open>set_field off n v w\<close> stores the low \<open>n\<close> bits
  of \<open>v\<close> there and keeps the other bits.
\<close>

definition get_field :: "nat \<Rightarrow> nat \<Rightarrow> u64 \<Rightarrow> u64" where
  "get_field off n w = take_bit n (drop_bit off w)"

definition set_field :: "nat \<Rightarrow> nat \<Rightarrow> u64 \<Rightarrow> u64 \<Rightarrow> u64" where
  "set_field off n v w = (w AND NOT (push_bit off (mask n))) OR push_bit off (take_bit n v)"

lemma get_set_field_same:
  "off + n \<le> 64 \<Longrightarrow> get_field off n (set_field off n v w) = take_bit n v"
  unfolding get_field_def set_field_def
  by (rule bit_eqI) (auto simp: bit_simps)

lemma get_set_field_other:
  "off + n \<le> off' \<or> off' + n' \<le> off \<Longrightarrow>
     get_field off n (set_field off' n' v w) = get_field off n w"
  unfolding get_field_def set_field_def
  by (rule bit_eqI) (auto simp: bit_simps dest: bit_imp_le_length)

lemma get_field_0 [simp]: "get_field off n 0 = 0"
  by (simp add: get_field_def)

section \<open>Chains of addresses\<close>

text \<open>
  \<open>chain nxt a xs\<close>: following \<open>nxt\<close> from the offset \<open>a\<close> visits exactly the addresses \<open>xs\<close> and
  then reaches the null offset 0.
\<close>

primrec chain :: "(u64 \<Rightarrow> u64) \<Rightarrow> u64 \<Rightarrow> u64 list \<Rightarrow> bool" where
  "chain nxt a [] \<longleftrightarrow> a = 0"
| "chain nxt a (x # xs) \<longleftrightarrow> a = x \<and> x \<noteq> 0 \<and> chain nxt (nxt x) xs"

lemma chain_null [simp]: "chain nxt 0 xs \<longleftrightarrow> xs = []"
  by (cases xs) auto

lemma chain_nonnull: "a \<noteq> 0 \<Longrightarrow> chain nxt a xs \<longleftrightarrow> (\<exists>ys. xs = a # ys \<and> chain nxt (nxt a) ys)"
  by (cases xs) auto

lemma chain_zero_iff: "chain nxt a xs \<Longrightarrow> a = 0 \<longleftrightarrow> xs = []"
  by (cases xs) auto

lemma chain_unique: "chain nxt a xs \<Longrightarrow> chain nxt a ys \<Longrightarrow> xs = ys"
  by (induction xs arbitrary: a ys) (auto simp: chain_nonnull)

lemma chain_nonzero: "chain nxt a xs \<Longrightarrow> 0 \<notin> set xs"
  by (induction xs arbitrary: a) auto

lemma chain_cong:
  "\<forall>x \<in> set xs. nxt x = nxt' x \<Longrightarrow> chain nxt a xs = chain nxt' a xs"
  by (induction xs arbitrary: a) auto

lemma chain_update [simp]: "p \<notin> set xs \<Longrightarrow> chain (nxt(p := v)) a xs = chain nxt a xs"
  by (rule chain_cong) auto

lemma chain_suffix: "chain nxt a (xs @ y # ys) \<Longrightarrow> chain nxt y (y # ys)"
  by (induction xs arbitrary: a) auto

lemma chain_distinct: "chain nxt a xs \<Longrightarrow> distinct xs"
proof (induction xs arbitrary: a)
  case Nil
  show ?case by simp
next
  case (Cons x xs)
  have "x \<notin> set xs"
  proof
    assume "x \<in> set xs"
    then obtain us vs where xs: "xs = us @ x # vs"
      by (auto dest: split_list)
    with Cons.prems have "chain nxt x (x # vs)"
      by (auto dest: chain_suffix)
    moreover from Cons.prems have "chain nxt x (x # xs)" by simp
    ultimately have "x # vs = x # xs" by (rule chain_unique)
    with xs show False by simp
  qed
  with Cons show ?case by auto
qed

lemma chain_append:
  "chain nxt a (xs @ ys) \<Longrightarrow> \<exists>b. chain nxt b ys"
  by (induction xs arbitrary: a) auto

lemma chain_map_upt:
  assumes "j \<le> n" "\<forall>i. j \<le> i \<and> i < n \<longrightarrow> nxt (f i) = f (Suc i)" "nxt (f n) = 0"
    "\<forall>i. j \<le> i \<and> i \<le> n \<longrightarrow> f i \<noteq> 0"
  shows "chain nxt (f j) (map f [j..<Suc n])"
  using assms
proof (induction j rule: inc_induct)
  case base
  then show ?case by simp
next
  case (step m)
  have upt: "[m..<Suc n] = m # [Suc m..<Suc n]"
    using step.hyps by (simp add: upt_conv_Cons del: upt_Suc)
  have "chain nxt (f (Suc m)) (map f [Suc m..<Suc n])"
    using step.prems by (intro step.IH) auto
  then show ?case using step.hyps step.prems unfolding upt by simp
qed

section \<open>The option monad\<close>

text \<open>
  An operation that may reach undefined behaviour of the source (a null dereference, a division
  by zero, an index outside an array) or that may not return is a function into \<open>option\<close>, with
  \<open>None\<close> for these outcomes. Error values that the code returns itself (a null pointer, \<open>false\<close>)
  are values below \<open>Some\<close>.
\<close>

lemma bind_SomeE:
  assumes "Option.bind m f = Some y"
  obtains x where "m = Some x" "f x = Some y"
  using assms by (auto simp: bind_eq_Some_conv)

end
