(* ===== verification/Shm_Layout.thy ===== *)
theory Shm_Layout
  imports Shm_Prelude
begin

text \<open>
  The shared memory of \<open>include/cxlmalloc-types.h\<close> and \<open>include/cxlmalloc-internal.h\<close>: the layout
  constants, the structures as records, the packed reference information and the pointer
  arithmetic between blocks, page descriptors and segments.

  All pointers into the shared memory are offsets from its start, as the code stores them
  (\<open>get_offset_for_data\<close> and \<open>get_data_at_addr\<close> convert between the two and are the identity here).
  A C++ pointer that may be \<open>NULL\<close> is an \<open>option\<close>.

  The memory is split by structure type: page descriptors, segment headers, allocation states,
  thread states and the era matrix are maps from their address (or index) to a record. The pages'
  data and the hash table are raw 8-byte cells, because the code reads the same bytes as a
  \<open>cxl_block\<close>, a \<open>CXLObj\<close>, a \<open>RootRef\<close>, a message queue or user data.
\<close>

section \<open>Constants\<close>

definition INTPTR_SHIFT :: nat where "INTPTR_SHIFT = 3"
definition PAGE_SHIFT :: nat where "PAGE_SHIFT = 13 + INTPTR_SHIFT"
definition SEGMENT_SHIFT :: nat where "SEGMENT_SHIFT = 10 + PAGE_SHIFT"
definition PAGE_SIZE :: u64 where "PAGE_SIZE = push_bit PAGE_SHIFT 1"
definition SEGMENT_SIZE :: u64 where "SEGMENT_SIZE = push_bit SEGMENT_SHIFT 1"
definition SEGMENT_MASK :: u64 where "SEGMENT_MASK = SEGMENT_SIZE - 1"
definition PAGES_PER_SEGMENT :: nat where "PAGES_PER_SEGMENT = 1024"
definition ERA_ARRAY_START :: u64 where "ERA_ARRAY_START = push_bit 22 1"
definition THREAD_LOCAL_VEC_START :: u64 where "THREAD_LOCAL_VEC_START = push_bit 23 1"
definition HASH_TABLE_START :: u64 where "HASH_TABLE_START = push_bit 26 1"
definition HASH_TABLE_SIZE :: u64 where "HASH_TABLE_SIZE = push_bit 20 1"
definition SEGMENTS_AREA_START :: u64 where "SEGMENTS_AREA_START = push_bit 27 1"
definition CXL_BIN_SIZE :: nat where "CXL_BIN_SIZE = 66"
definition MESSAGE_BUFFER_SIZE :: u64 where "MESSAGE_BUFFER_SIZE = 16"
definition MAX_THREAD :: nat where "MAX_THREAD = 1024"
definition MAX_SEGMENT_NUM :: nat where "MAX_SEGMENT_NUM = 4096"
definition REDO_CACHELINE_CNT :: nat where "REDO_CACHELINE_CNT = 8"

text \<open>The \<open>sizeof\<close> values of the structures, on the 64-bit ABI the code is compiled for.\<close>

definition sizeof_CXLObj :: u64 where "sizeof_CXLObj = 24"
definition sizeof_RootRef :: u64 where "sizeof_RootRef = 16"
definition sizeof_cxl_page :: u64 where "sizeof_cxl_page = 48"
definition sizeof_msg_queue :: u64 where "sizeof_msg_queue = 192"
definition sizeof_tls :: u64 where "sizeof_tls = 2176"
definition offsetof_meta_page :: u64 where "offsetof_meta_page = 8"

lemma layout_values [layout_simps]:
  "INTPTR_SHIFT = 3" "PAGE_SHIFT = 16" "SEGMENT_SHIFT = 26"
  "PAGE_SIZE = 0x10000" "SEGMENT_SIZE = 0x4000000" "SEGMENT_MASK = 0x3FFFFFF"
  "PAGES_PER_SEGMENT = 1024" "ERA_ARRAY_START = 0x400000"
  "THREAD_LOCAL_VEC_START = 0x800000" "HASH_TABLE_START = 0x4000000"
  "HASH_TABLE_SIZE = 0x100000" "SEGMENTS_AREA_START = 0x8000000"
  "CXL_BIN_SIZE = 66" "MESSAGE_BUFFER_SIZE = 16" "MAX_THREAD = 1024"
  "MAX_SEGMENT_NUM = 4096" "REDO_CACHELINE_CNT = 8"
  "sizeof_CXLObj = 24" "sizeof_RootRef = 16" "sizeof_cxl_page = 48"
  "sizeof_msg_queue = 192" "sizeof_tls = 2176" "offsetof_meta_page = 8"
  by (simp_all add: INTPTR_SHIFT_def PAGE_SHIFT_def SEGMENT_SHIFT_def PAGE_SIZE_def
      SEGMENT_SIZE_def SEGMENT_MASK_def PAGES_PER_SEGMENT_def ERA_ARRAY_START_def
      THREAD_LOCAL_VEC_START_def HASH_TABLE_START_def HASH_TABLE_SIZE_def
      SEGMENTS_AREA_START_def CXL_BIN_SIZE_def MESSAGE_BUFFER_SIZE_def MAX_THREAD_def
      MAX_SEGMENT_NUM_def REDO_CACHELINE_CNT_def sizeof_CXLObj_def sizeof_RootRef_def
      sizeof_cxl_page_def sizeof_msg_queue_def sizeof_tls_def offsetof_meta_page_def)

section \<open>Structures\<close>

record cxl_page =
  pg_free :: u64
  pg_local_free :: u64
  pg_block_size :: u32
  pg_used :: u32
  pg_next :: u64
  pg_prev :: u64
  pg_is_msg_queue :: bool

record cxl_segment =
  sg_thread_id :: u16
  sg_used :: u32

record cxl_page_queue =
  pq_first :: u64
  pq_last :: u64
  pq_block_size :: u64

record redo_log =
  rl_func_id :: u16
  rl_saved_ref_cnt :: u16
  rl_cur_era :: u32
  rl_ref :: u64
  rl_refed :: u64
  rl_old_refed :: u64

definition LINK_REF :: u16 where "LINK_REF = 1"
definition UNLINK_REF :: u16 where "UNLINK_REF = 2"

text \<open>
  A thread state holds \<open>REDO_CACHELINE_CNT\<close> redo slots of one cache line each and
  \<open>CXL_BIN_SIZE\<close> page queues; both arrays are functions from the index.
\<close>

record cxl_tls =
  tls_redo :: "nat \<Rightarrow> redo_log"
  tls_packed_id :: u64
  tls_pages :: "nat \<Rightarrow> cxl_page_queue"
  tls_free_page :: cxl_page_queue
  tls_sender_queue :: u64
  tls_receiver_queue :: u64

record cxl_sas =
  sas_thread_id :: u32
  sas_ver :: u32
  sas_state :: u64
  sas_thread_free :: u64

definition NORMAL :: u64 where "NORMAL = 0"
definition ABANDON :: u64 where "ABANDON = 1"
definition POTENTIAL_LEAKING :: u64 where "POTENTIAL_LEAKING = 2"

text \<open>
  The shared memory, and the fields of \<open>class cxl_shm\<close> that a client keeps outside it. The era
  matrix is indexed by the position relative to \<open>ERA_ARRAY_START\<close>, so a negative index is a cell
  before the array.
\<close>

record shm =
  cell :: "u64 \<Rightarrow> u64"
  page :: "u64 \<Rightarrow> cxl_page"
  segment :: "u64 \<Rightarrow> cxl_segment"
  sas :: "u64 \<Rightarrow> cxl_sas"
  era_tab :: "int \<Rightarrow> u32"
  tls :: "u64 \<Rightarrow> cxl_tls"

record client =
  cl_size :: u64
  cl_tls_offset :: u64
  cl_thread_id :: u32

definition zero_page :: cxl_page where
  "zero_page = \<lparr>pg_free = 0, pg_local_free = 0, pg_block_size = 0, pg_used = 0,
     pg_next = 0, pg_prev = 0, pg_is_msg_queue = False\<rparr>"

definition zero_segment :: cxl_segment where
  "zero_segment = \<lparr>sg_thread_id = 0, sg_used = 0\<rparr>"

definition zero_redo :: redo_log where
  "zero_redo = \<lparr>rl_func_id = 0, rl_saved_ref_cnt = 0, rl_cur_era = 0, rl_ref = 0,
     rl_refed = 0, rl_old_refed = 0\<rparr>"

section \<open>Elementary reads and writes\<close>

definition set_cell :: "u64 \<Rightarrow> u64 \<Rightarrow> shm \<Rightarrow> shm" where
  "set_cell a v s = s\<lparr>cell := (cell s)(a := v)\<rparr>"

definition upd_page :: "u64 \<Rightarrow> (cxl_page \<Rightarrow> cxl_page) \<Rightarrow> shm \<Rightarrow> shm" where
  "upd_page p f s = s\<lparr>page := (page s)(p := f (page s p))\<rparr>"

definition upd_segment :: "u64 \<Rightarrow> (cxl_segment \<Rightarrow> cxl_segment) \<Rightarrow> shm \<Rightarrow> shm" where
  "upd_segment p f s = s\<lparr>segment := (segment s)(p := f (segment s p))\<rparr>"

definition upd_sas :: "u64 \<Rightarrow> (cxl_sas \<Rightarrow> cxl_sas) \<Rightarrow> shm \<Rightarrow> shm" where
  "upd_sas i f s = s\<lparr>sas := (sas s)(i := f (sas s i))\<rparr>"

definition upd_tls :: "u64 \<Rightarrow> (cxl_tls \<Rightarrow> cxl_tls) \<Rightarrow> shm \<Rightarrow> shm" where
  "upd_tls p f s = s\<lparr>tls := (tls s)(p := f (tls s p))\<rparr>"

text \<open>\<open>memset(b, 0, 8 * n)\<close> on cells.\<close>

primrec clear_cells :: "u64 \<Rightarrow> nat \<Rightarrow> shm \<Rightarrow> shm" where
  "clear_cells b 0 s = s"
| "clear_cells b (Suc n) s = clear_cells (b + 8) n (set_cell b 0 s)"

lemma set_cell_sel [state_simps]:
  "cell (set_cell a v s) = (cell s)(a := v)"
  "page (set_cell a v s) = page s" "segment (set_cell a v s) = segment s"
  "sas (set_cell a v s) = sas s" "era_tab (set_cell a v s) = era_tab s"
  "tls (set_cell a v s) = tls s"
  by (simp_all add: set_cell_def)

lemma upd_page_sel [state_simps]:
  "page (upd_page p f s) = (page s)(p := f (page s p))"
  "cell (upd_page p f s) = cell s" "segment (upd_page p f s) = segment s"
  "sas (upd_page p f s) = sas s" "era_tab (upd_page p f s) = era_tab s"
  "tls (upd_page p f s) = tls s"
  by (simp_all add: upd_page_def)

lemma upd_segment_sel [state_simps]:
  "segment (upd_segment p g s) = (segment s)(p := g (segment s p))"
  "cell (upd_segment p g s) = cell s" "page (upd_segment p g s) = page s"
  "sas (upd_segment p g s) = sas s" "era_tab (upd_segment p g s) = era_tab s"
  "tls (upd_segment p g s) = tls s"
  by (simp_all add: upd_segment_def)

lemma upd_sas_sel [state_simps]:
  "sas (upd_sas i h s) = (sas s)(i := h (sas s i))"
  "cell (upd_sas i h s) = cell s" "page (upd_sas i h s) = page s"
  "segment (upd_sas i h s) = segment s" "era_tab (upd_sas i h s) = era_tab s"
  "tls (upd_sas i h s) = tls s"
  by (simp_all add: upd_sas_def)

lemma upd_tls_sel [state_simps]:
  "tls (upd_tls t k s) = (tls s)(t := k (tls s t))"
  "cell (upd_tls t k s) = cell s" "page (upd_tls t k s) = page s"
  "segment (upd_tls t k s) = segment s" "era_tab (upd_tls t k s) = era_tab s"
  "sas (upd_tls t k s) = sas s"
  by (simp_all add: upd_tls_def)

lemma clear_cells_sel [state_simps]:
  "page (clear_cells b n s) = page s" "segment (clear_cells b n s) = segment s"
  "sas (clear_cells b n s) = sas s" "era_tab (clear_cells b n s) = era_tab s"
  "tls (clear_cells b n s) = tls s"
  by (induction n arbitrary: b s) (simp_all add: state_simps)

lemma cell_clear_cells:
  "cell (clear_cells b n s) a = (if \<exists>i<n. a = b + 8 * of_nat i then 0 else cell s a)"
proof (induction n arbitrary: b s)
  case 0
  show ?case by simp
next
  case (Suc n)
  have "(\<exists>i<Suc n. a = b + 8 * of_nat i) \<longleftrightarrow> a = b \<or> (\<exists>i<n. a = (b + 8) + 8 * of_nat i)"
    by (simp add: Ex_less_Suc2 algebra_simps)
  moreover have "cell (clear_cells b (Suc n) s) a =
      (if \<exists>i<n. a = (b + 8) + 8 * of_nat i then 0 else cell (set_cell b 0 s) a)"
    by (simp add: Suc.IH)
  moreover have "cell (set_cell b 0 s) a = (if a = b then 0 else cell s a)"
    by (simp add: state_simps)
  ultimately show ?case by auto
qed

section \<open>Pointers that may be null\<close>

definition get_page_by_offset :: "u64 \<Rightarrow> u64 option" where
  "get_page_by_offset page_offset = (if page_offset = 0 then None else Some page_offset)"

definition get_block_by_offset :: "u64 \<Rightarrow> u64 option" where
  "get_block_by_offset block_offset = (if block_offset = 0 then None else Some block_offset)"

section \<open>Address arithmetic\<close>

text \<open>
  \<open>cxl_ptr_segment\<close>, \<open>cxl_segment_page_of\<close>, \<open>cxl_ptr_page\<close>, \<open>cxl_page_start\<close> and
  \<open>cxl_page_block_at\<close>. A pointer difference \<open>page - segment->meta_page\<close> is in units of descriptors.
\<close>

definition cxl_ptr_segment :: "u64 \<Rightarrow> u64" where
  "cxl_ptr_segment p = p AND NOT SEGMENT_MASK"

definition cxl_segment_page_of :: "u64 \<Rightarrow> u64 \<Rightarrow> u64" where
  "cxl_segment_page_of seg p =
     (let diff = p - seg; idx = drop_bit PAGE_SHIFT diff
      in seg + offsetof_meta_page + idx * sizeof_cxl_page)"

definition cxl_ptr_page :: "u64 \<Rightarrow> u64" where
  "cxl_ptr_page p = cxl_segment_page_of (cxl_ptr_segment p) p"

definition cxl_page_start :: "u64 \<Rightarrow> u64 \<Rightarrow> u64" where
  "cxl_page_start seg pg =
     (let idx = (pg - (seg + offsetof_meta_page)) div sizeof_cxl_page in seg + idx * PAGE_SIZE)"

definition cxl_page_block_at :: "u64 \<Rightarrow> u64 \<Rightarrow> u64 \<Rightarrow> u64" where
  "cxl_page_block_at page_start block_size i = page_start + i * block_size"

text \<open>The index of a segment, as used for its slot of the segment allocation vector.\<close>

definition segment_index :: "u64 \<Rightarrow> u64" where
  "segment_index seg = (seg - SEGMENTS_AREA_START) div SEGMENT_SIZE"

text \<open>The \<open>i\<close>-th segment, and the descriptor and the data area of its \<open>k\<close>-th page.\<close>

definition seg_at :: "nat \<Rightarrow> u64" where
  "seg_at i = SEGMENTS_AREA_START + of_nat i * SEGMENT_SIZE"

definition meta_at :: "u64 \<Rightarrow> nat \<Rightarrow> u64" where
  "meta_at seg k = seg + offsetof_meta_page + of_nat k * sizeof_cxl_page"

definition area_at :: "u64 \<Rightarrow> nat \<Rightarrow> u64" where
  "area_at seg k = seg + of_nat k * PAGE_SIZE"

lemma and_not_mask_eq: "(w :: u64) AND NOT (mask n) = push_bit n (drop_bit n w)"
  by (rule bit_eqI) (auto simp: bit_simps)

lemma unat_and_not_mask: "unat ((w :: u64) AND NOT (mask n)) = unat w div 2 ^ n * 2 ^ n"
proof -
  have "unat w div 2 ^ n * 2 ^ n \<le> unat w" by simp
  also have "unat w < 2 ^ 64" using unsigned_less[of w] by simp
  finally have bound: "unat w div 2 ^ n * 2 ^ n < 2 ^ 64" .
  have "unat (push_bit n (drop_bit n w)) = take_bit 64 (push_bit n (unat (drop_bit n w)))"
    by (simp only: unsigned_push_bit_eq) simp
  also have "unat (drop_bit n w) = unat w div 2 ^ n"
    by (simp add: unat_drop_bit_eq flip: drop_bit_eq_div)
  also have "take_bit 64 (push_bit n (unat w div 2 ^ n)) = unat w div 2 ^ n * 2 ^ n"
    using bound by (simp add: push_bit_eq_mult take_bit_nat_eq_self)
  finally show ?thesis by (simp only: and_not_mask_eq)
qed

lemma unat_ptr_segment: "unat (cxl_ptr_segment p) = unat p div 2 ^ 26 * 2 ^ 26"
proof -
  have mask: "SEGMENT_MASK = mask 26"
    by (simp add: layout_simps mask_eq_exp_minus_1)
  show ?thesis unfolding cxl_ptr_segment_def mask by (rule unat_and_not_mask)
qed

lemma unat_seg_at: "i < MAX_SEGMENT_NUM \<Longrightarrow> unat (seg_at i) = 2 ^ 27 + i * 2 ^ 26"
  by (simp add: seg_at_def layout_simps unat_word_ariths unat_of_nat)

lemma unat_add_small:
  "unat (a :: u64) + k < 2 ^ 64 \<Longrightarrow> unat (a + of_nat k) = unat a + k"
  by (simp add: unat_word_ariths unat_of_nat)

text \<open>\<open>in_segment i a\<close>: the address \<open>a\<close> lies in the \<open>i\<close>-th segment.\<close>

definition in_segment :: "nat \<Rightarrow> u64 \<Rightarrow> bool" where
  "in_segment i a \<longleftrightarrow>
     i < MAX_SEGMENT_NUM \<and> unat (seg_at i) \<le> unat a \<and> unat a < unat (seg_at i) + 2 ^ 26"

lemma in_segment_lt: "in_segment i a \<Longrightarrow> i < MAX_SEGMENT_NUM"
  by (simp add: in_segment_def)

lemma cxl_ptr_segment_in [addr_simps]:
  assumes "in_segment i a"
  shows "cxl_ptr_segment a = seg_at i"
proof -
  from assms have i: "i < MAX_SEGMENT_NUM" and bounds: "2 ^ 27 + i * 2 ^ 26 \<le> unat a"
      "unat a < 2 ^ 27 + i * 2 ^ 26 + 2 ^ 26"
    by (auto simp: in_segment_def unat_seg_at)
  then have "unat a div 2 ^ 26 = 2 + i" by (simp add: div_nat_eqI)
  then have "unat (cxl_ptr_segment a) = unat (seg_at i)"
    using i by (simp add: unat_ptr_segment unat_seg_at)
  then show ?thesis by (simp only: word_unat_eq_iff)
qed

lemma segment_index_seg_at [addr_simps]:
  assumes "i < MAX_SEGMENT_NUM"
  shows "segment_index (seg_at i) = of_nat i"
proof -
  have "unat (of_nat i * SEGMENT_SIZE) = i * 2 ^ 26"
    using assms by (simp add: layout_simps unat_word_ariths unat_of_nat)
  then have "unat (segment_index (seg_at i)) = i"
    by (simp add: segment_index_def seg_at_def unat_div layout_simps)
  moreover have "unat (of_nat i :: u64) = i"
    using assms by (simp add: layout_simps unat_of_nat)
  ultimately show ?thesis by (simp only: word_unat_eq_iff)
qed

lemma unat_meta_at:
  assumes "i < MAX_SEGMENT_NUM" "k < PAGES_PER_SEGMENT"
  shows "unat (meta_at (seg_at i) k) = unat (seg_at i) + 8 + k * 48"
proof -
  have "meta_at (seg_at i) k = seg_at i + of_nat (8 + k * 48)"
    by (simp add: meta_at_def layout_simps)
  moreover have "unat (seg_at i) + (8 + k * 48) < 2 ^ 64"
    using assms by (simp add: unat_seg_at layout_simps)
  ultimately show ?thesis by (simp add: unat_add_small del: of_nat_add of_nat_mult)
qed

lemma unat_area_at:
  assumes "i < MAX_SEGMENT_NUM" "k < PAGES_PER_SEGMENT"
  shows "unat (area_at (seg_at i) k) = unat (seg_at i) + k * 2 ^ 16"
proof -
  have "area_at (seg_at i) k = seg_at i + of_nat (k * 2 ^ 16)"
    by (simp add: area_at_def layout_simps)
  moreover have "unat (seg_at i) + k * 2 ^ 16 < 2 ^ 64"
    using assms by (simp add: unat_seg_at layout_simps)
  ultimately show ?thesis by (simp add: unat_add_small del: of_nat_mult)
qed

lemma in_segment_meta [addr_simps]:
  "i < MAX_SEGMENT_NUM \<Longrightarrow> k < PAGES_PER_SEGMENT \<Longrightarrow> in_segment i (meta_at (seg_at i) k)"
  by (simp add: in_segment_def unat_meta_at layout_simps)

lemma meta_at_inject [simp]:
  assumes "i < MAX_SEGMENT_NUM" "k < PAGES_PER_SEGMENT" "l < PAGES_PER_SEGMENT"
  shows "meta_at (seg_at i) k = meta_at (seg_at i) l \<longleftrightarrow> k = l"
  using assms by (simp add: word_unat_eq_iff unat_meta_at)

lemma seg_at_inject:
  "i < MAX_SEGMENT_NUM \<Longrightarrow> j < MAX_SEGMENT_NUM \<Longrightarrow> seg_at i = seg_at j \<longleftrightarrow> i = j"
  by (simp add: word_unat_eq_iff unat_seg_at)

lemma meta_at_segment_inject:
  assumes "i < MAX_SEGMENT_NUM" "j < MAX_SEGMENT_NUM" "k < PAGES_PER_SEGMENT"
    "l < PAGES_PER_SEGMENT"
  shows "meta_at (seg_at i) k = meta_at (seg_at j) l \<longleftrightarrow> i = j \<and> k = l"
proof -
  have "i = j" if "meta_at (seg_at i) k = meta_at (seg_at j) l"
    using assms that cxl_ptr_segment_in[OF in_segment_meta]
    by (metis seg_at_inject)
  then show ?thesis using assms by auto
qed

lemma meta_at_nonnull [simp]:
  "i < MAX_SEGMENT_NUM \<Longrightarrow> k < PAGES_PER_SEGMENT \<Longrightarrow> meta_at (seg_at i) k \<noteq> 0"
  by (simp add: word_unat_eq_iff unat_meta_at)

lemma cxl_page_start_meta [addr_simps]:
  assumes "k < PAGES_PER_SEGMENT"
  shows "cxl_page_start seg (meta_at seg k) = area_at seg k"
proof -
  have "unat (of_nat k * sizeof_cxl_page) = k * 48"
    using assms by (simp add: layout_simps unat_word_ariths unat_of_nat)
  then have "(of_nat k * sizeof_cxl_page) div sizeof_cxl_page = (of_nat k :: u64)"
    using assms by (simp add: word_unat_eq_iff unat_div layout_simps unat_of_nat)
  then show ?thesis
    by (simp add: cxl_page_start_def meta_at_def area_at_def)
qed

text \<open>\<open>in_page i k a\<close>: the address \<open>a\<close> lies in the data area of page \<open>k\<close> of segment \<open>i\<close>.\<close>

definition in_page :: "nat \<Rightarrow> nat \<Rightarrow> u64 \<Rightarrow> bool" where
  "in_page i k a \<longleftrightarrow> i < MAX_SEGMENT_NUM \<and> k < PAGES_PER_SEGMENT \<and>
     unat (area_at (seg_at i) k) \<le> unat a \<and> unat a < unat (area_at (seg_at i) k) + 2 ^ 16"

lemma in_page_segment: "in_page i k a \<Longrightarrow> in_segment i a"
  by (auto simp: in_page_def in_segment_def unat_area_at layout_simps)

lemma cxl_ptr_page_in [addr_simps]:
  assumes "in_page i k a"
  shows "cxl_ptr_page a = meta_at (seg_at i) k"
proof -
  from assms have i: "i < MAX_SEGMENT_NUM" and k: "k < PAGES_PER_SEGMENT"
    and lo: "unat (seg_at i) + k * 2 ^ 16 \<le> unat a"
    and hi: "unat a < unat (seg_at i) + k * 2 ^ 16 + 2 ^ 16"
    by (auto simp: in_page_def unat_area_at)
  have "unat (a - seg_at i) = unat a - unat (seg_at i)"
    using lo by (simp add: unat_sub word_le_nat_alt)
  then have "unat (drop_bit PAGE_SHIFT (a - seg_at i)) = k"
    using lo hi by (simp add: layout_simps(2) drop_bit_eq_div unat_div div_nat_eqI)
  then have "drop_bit PAGE_SHIFT (a - seg_at i) = of_nat k"
    using k by (simp add: word_unat_eq_iff unat_of_nat layout_simps(7))
  then show ?thesis
    by (simp add: cxl_ptr_page_def cxl_segment_page_of_def meta_at_def
        cxl_ptr_segment_in[OF in_page_segment[OF assms]])
qed

end
