(* ===== verification/Ref_Info.thy ===== *)
theory Ref_Info
  imports Shm_Layout
begin

text \<open>
  The packed words of \<open>include/cxlmalloc-internal.h\<close>: the reference information of an object
  (2 bytes client id, 2 bytes count, 4 bytes era), the machine and process id of a thread, and the
  two fields of a \<open>RootRef\<close> that share its second cell. The packing is by addition, so a count
  that leaves its 16 bits changes the client id; the lemmas say when it does.
\<close>

definition pack_machine_process_id :: "u64 \<Rightarrow> u16 \<Rightarrow> u64" where
  "pack_machine_process_id machine_id process_id = push_bit 16 machine_id + ucast process_id"

definition pack_ref_info :: "u64 \<Rightarrow> u64 \<Rightarrow> u32 \<Rightarrow> u64" where
  "pack_ref_info lcid ref_cnt lenum = push_bit 48 lcid + push_bit 32 ref_cnt + ucast lenum"

definition get_ref_cnt_from_info :: "u64 \<Rightarrow> u64" where
  "get_ref_cnt_from_info ref_info = drop_bit 32 ref_info AND (push_bit 16 1 - 1)"

definition get_lenum_from_info :: "u64 \<Rightarrow> u64" where
  "get_lenum_from_info ref_info = ref_info AND (push_bit 32 1 - 1)"

definition get_lcid_from_info :: "u64 \<Rightarrow> u64" where
  "get_lcid_from_info ref_info = drop_bit 48 ref_info AND (push_bit 16 1 - 1)"

section \<open>Reading the fields\<close>

lemma and_low_bits: "(w :: u64) AND (push_bit n 1 - 1) = take_bit n w"
proof -
  have "(push_bit n 1 - 1 :: u64) = mask n"
    by (simp add: mask_eq_exp_minus_1 push_bit_eq_mult)
  then show ?thesis by (simp add: take_bit_eq_mask)
qed

lemma unat_take_bit: "unat (take_bit n (w :: u64)) = unat w mod 2 ^ n"
  by (simp add: unsigned_take_bit_eq flip: take_bit_eq_mod)

lemma unat_drop: "unat (drop_bit n (w :: u64)) = unat w div 2 ^ n"
  by (simp add: unat_drop_bit_eq flip: drop_bit_eq_div)

lemma unat_ucast_32_64: "unat (ucast (e :: u32) :: u64) = unat e"
  using unsigned_less[of e, where 'a = nat] by (simp add: unsigned_ucast_eq take_bit_nat_eq_self)

lemma ucast_u32_up_down: "ucast (ucast (e :: u32) :: u64) = e"
  by (rule bit_eqI) (auto simp: bit_simps dest: bit_imp_le_length)

lemma unat_get_ref_cnt: "unat (get_ref_cnt_from_info w) = unat w div 2 ^ 32 mod 2 ^ 16"
  by (simp only: get_ref_cnt_from_info_def and_low_bits unat_take_bit unat_drop)

lemma unat_get_lcid: "unat (get_lcid_from_info w) = unat w div 2 ^ 48 mod 2 ^ 16"
  by (simp only: get_lcid_from_info_def and_low_bits unat_take_bit unat_drop)

lemma unat_get_lenum: "unat (get_lenum_from_info w) = unat w mod 2 ^ 32"
  by (simp only: get_lenum_from_info_def and_low_bits unat_take_bit)

lemma get_ref_cnt_bound: "unat (get_ref_cnt_from_info w) < 2 ^ 16"
  by (simp add: unat_get_ref_cnt)

lemma unat_pack_ref_info:
  assumes "unat lcid < 2 ^ 16" "unat ref_cnt < 2 ^ 16"
  shows "unat (pack_ref_info lcid ref_cnt lenum) =
     unat lcid * 2 ^ 48 + unat ref_cnt * 2 ^ 32 + unat lenum"
proof -
  have len: "unat lenum < 2 ^ 32" using unsigned_less[of lenum] by simp
  have l: "unat (push_bit 48 lcid) = unat lcid * 2 ^ 48"
    using assms by (simp add: push_bit_eq_mult unat_word_ariths)
  have c: "unat (push_bit 32 ref_cnt) = unat ref_cnt * 2 ^ 32"
    using assms by (simp add: push_bit_eq_mult unat_word_ariths)
  have e: "unat (ucast lenum :: u64) = unat lenum" by (rule unat_ucast_32_64)
  show ?thesis
    unfolding pack_ref_info_def
    using assms len by (simp add: unat_word_ariths l c e)
qed

lemma pack_ref_info_fields:
  assumes "unat lcid < 2 ^ 16" "unat ref_cnt < 2 ^ 16"
  shows "get_lcid_from_info (pack_ref_info lcid ref_cnt lenum) = lcid"
    and "get_ref_cnt_from_info (pack_ref_info lcid ref_cnt lenum) = ref_cnt"
    and "get_lenum_from_info (pack_ref_info lcid ref_cnt lenum) = ucast lenum"
proof -
  have len: "unat lenum < 2 ^ 32" using unsigned_less[of lenum] by simp
  have split: "(l * 281474976710656 + c * 4294967296 + e) div 4294967296 mod 65536 = c"
    if "c < 65536" "e < 4294967296" for l c e :: nat
  proof -
    have "l * 281474976710656 + c * 4294967296 + e = e + (l * 65536 + c) * 4294967296"
      by simp
    then show ?thesis using that by (simp only: div_mult_self1) simp
  qed
  have modsplit: "(l * 281474976710656 + c * 4294967296 + e) mod 4294967296 = e"
    if "e < 4294967296" for l c e :: nat
  proof -
    have "l * 281474976710656 + c * 4294967296 + e = e + (l * 65536 + c) * 4294967296"
      by simp
    then show ?thesis using that by (simp only: mod_mult_self1) simp
  qed
  note u = unat_pack_ref_info[OF assms, of lenum]
  show "get_lcid_from_info (pack_ref_info lcid ref_cnt lenum) = lcid"
    using assms len by (simp add: word_unat_eq_iff unat_get_lcid u)
  show "get_ref_cnt_from_info (pack_ref_info lcid ref_cnt lenum) = ref_cnt"
    using assms len by (simp add: word_unat_eq_iff unat_get_ref_cnt u split)
  show "get_lenum_from_info (pack_ref_info lcid ref_cnt lenum) = ucast lenum"
    using assms len by (simp add: word_unat_eq_iff unat_get_lenum u modsplit unat_ucast_32_64)
qed

lemma recompose:
  "(x :: nat) div 281474976710656 * 281474976710656 + x div 4294967296 mod 65536 * 4294967296
     + x mod 4294967296 = x"
proof -
  let ?q = "x div 4294967296"
  have "x div 281474976710656 = ?q div 65536" by (simp add: div_mult2_eq[symmetric])
  then have "x div 281474976710656 * 281474976710656 + ?q mod 65536 * 4294967296 =
      (?q div 65536 * 65536 + ?q mod 65536) * 4294967296"
    by (simp only: distrib_right mult.assoc, simp?)
  also have "\<dots> = ?q * 4294967296" by (simp only: div_mult_mod_eq)
  finally show ?thesis by (simp only: div_mult_mod_eq)
qed

text \<open>
  Packing the three fields of a packed word gives back the word.
\<close>

lemma pack_get_ref_info:
  "pack_ref_info (get_lcid_from_info w) (get_ref_cnt_from_info w)
     (ucast (get_lenum_from_info w)) = w"
proof -
  have w: "unat w < 2 ^ 64" using unsigned_less[of w] by simp
  have e: "unat (ucast (get_lenum_from_info w) :: u32) = unat w mod 2 ^ 32"
    by (simp add: unsigned_ucast_eq unat_get_lenum take_bit_eq_mod)
  have "unat w div 2 ^ 48 < 2 ^ 16" using w by (simp add: less_mult_imp_div_less)
  then have small: "unat w div 281474976710656 mod 65536 = unat w div 281474976710656" by simp
  have "unat w div 2 ^ 48 mod 2 ^ 16 * 2 ^ 48 + unat w div 2 ^ 32 mod 2 ^ 16 * 2 ^ 32
      + unat w mod 2 ^ 32 = unat w"
    using recompose[of "unat w"] small by simp
  moreover have "unat (pack_ref_info (get_lcid_from_info w) (get_ref_cnt_from_info w)
       (ucast (get_lenum_from_info w))) =
     unat w div 2 ^ 48 mod 2 ^ 16 * 2 ^ 48 + unat w div 2 ^ 32 mod 2 ^ 16 * 2 ^ 32
      + unat w mod 2 ^ 32"
    by (subst unat_pack_ref_info) (simp_all only: unat_get_lcid unat_get_ref_cnt e, simp_all)
  ultimately show ?thesis by (simp only: word_unat_eq_iff)
qed

text \<open>
  A count outside its 16 bits: incrementing the largest count carries into the client id, and
  decrementing a zero count borrows from it.
\<close>

lemma pack_ref_info_overflow:
  "pack_ref_info lcid 0x10000 lenum = pack_ref_info (lcid + 1) 0 lenum"
  by (simp add: pack_ref_info_def push_bit_eq_mult algebra_simps)

lemma pack_ref_info_underflow:
  "pack_ref_info lcid (- 1) lenum = pack_ref_info (lcid - 1) 0xFFFF lenum"
  by (simp add: pack_ref_info_def push_bit_eq_mult algebra_simps)

section \<open>The second cell of a root reference\<close>

text \<open>\<open>RootRef.in_use\<close> is byte 8 and \<open>RootRef.ref_cnt\<close> bytes 10 and 11 of the structure.\<close>

definition get_in_use :: "u64 \<Rightarrow> u64" where
  "get_in_use w = get_field 0 8 w"

definition set_in_use :: "u64 \<Rightarrow> u64 \<Rightarrow> u64" where
  "set_in_use v w = set_field 0 8 v w"

definition get_tbr_ref_cnt :: "u64 \<Rightarrow> u16" where
  "get_tbr_ref_cnt w = ucast (get_field 16 16 w)"

definition set_tbr_ref_cnt :: "u16 \<Rightarrow> u64 \<Rightarrow> u64" where
  "set_tbr_ref_cnt v w = set_field 16 16 (ucast v) w"

lemma take_bit_ucast_u16: "take_bit 16 (ucast (v :: u16) :: u64) = ucast v"
  by (rule bit_eqI) (auto simp: bit_simps dest: bit_imp_le_length)

lemma ucast_ucast_u16: "ucast (ucast (v :: u16) :: u64) = v"
  by (rule bit_eqI) (auto simp: bit_simps dest: bit_imp_le_length)

lemma tbr_fields [simp]:
  "get_in_use (set_in_use v w) = take_bit 8 v"
  "get_in_use (set_tbr_ref_cnt c w) = get_in_use w"
  "get_tbr_ref_cnt (set_tbr_ref_cnt c w) = c"
  "get_tbr_ref_cnt (set_in_use v w) = get_tbr_ref_cnt w"
  by (simp_all add: get_in_use_def set_in_use_def get_tbr_ref_cnt_def set_tbr_ref_cnt_def
      get_set_field_same get_set_field_other take_bit_ucast_u16 ucast_ucast_u16)

end
