(* ===== verification/Page_Queue.thy ===== *)
theory Page_Queue
  imports Ref_Info
begin

text \<open>
  The intrusive doubly linked page queues of \<open>src/page_queue.cpp\<close>. A queue object lives in a thread
  state: one queue per size class (\<open>pages[i]\<close>) and the queue of free pages (\<open>free_page\<close>). The
  abstract value of a queue is the list of its page descriptors from \<open>first\<close> to \<open>last\<close>;
  \<open>cxl_page_queue_push\<close> conses onto it and \<open>cxl_page_queue_remove\<close> deletes from it.
\<close>

datatype pq_ptr = Bin nat | Free_Page

text \<open>A queue object is named by the offset of its thread state and its place in it.\<close>

type_synonym pq_addr = "u64 \<times> pq_ptr"

fun get_pq :: "pq_addr \<Rightarrow> shm \<Rightarrow> cxl_page_queue" where
  "get_pq (t, Bin i) s = tls_pages (tls s t) i"
| "get_pq (t, Free_Page) s = tls_free_page (tls s t)"

fun upd_pq :: "pq_addr \<Rightarrow> (cxl_page_queue \<Rightarrow> cxl_page_queue) \<Rightarrow> shm \<Rightarrow> shm" where
  "upd_pq (t, Bin i) f s =
     upd_tls t (\<lambda>x. x\<lparr>tls_pages := (tls_pages x)(i := f (tls_pages x i))\<rparr>) s"
| "upd_pq (t, Free_Page) f s =
     upd_tls t (\<lambda>x. x\<lparr>tls_free_page := f (tls_free_page x)\<rparr>) s"

definition cxl_page_queue_push :: "pq_addr \<Rightarrow> u64 \<Rightarrow> shm \<Rightarrow> shm" where
  "cxl_page_queue_push q pg s =
     (let first = pq_first (get_pq q s);
          s = upd_page pg (\<lambda>p. p\<lparr>pg_next := first\<rparr>) s;
          s = upd_page pg (\<lambda>p. p\<lparr>pg_prev := 0\<rparr>) s
      in case get_page_by_offset first of
           Some first_page \<Rightarrow>
             (let s = upd_page first_page (\<lambda>p. p\<lparr>pg_prev := pg\<rparr>) s
              in upd_pq q (\<lambda>x. x\<lparr>pq_first := pg\<rparr>) s)
         | None \<Rightarrow>
             (let s = upd_pq q (\<lambda>x. x\<lparr>pq_first := pg\<rparr>) s
              in upd_pq q (\<lambda>x. x\<lparr>pq_last := pg\<rparr>) s))"

definition cxl_page_queue_remove :: "pq_addr \<Rightarrow> u64 \<Rightarrow> shm \<Rightarrow> shm" where
  "cxl_page_queue_remove q pg s =
     (let prev_page = get_page_by_offset (pg_prev (page s pg));
          next_page = get_page_by_offset (pg_next (page s pg));
          s = (case prev_page of None \<Rightarrow> s
               | Some pp \<Rightarrow> upd_page pp (\<lambda>p. p\<lparr>pg_next := pg_next (page s pg)\<rparr>) s);
          s = (case next_page of None \<Rightarrow> s
               | Some np \<Rightarrow> upd_page np (\<lambda>p. p\<lparr>pg_prev := pg_prev (page s pg)\<rparr>) s);
          s = (if pg = pq_last (get_pq q s)
               then upd_pq q (\<lambda>x. x\<lparr>pq_last := pg_prev (page s pg)\<rparr>) s else s);
          s = (if pg = pq_first (get_pq q s)
               then upd_pq q (\<lambda>x. x\<lparr>pq_first := pg_next (page s pg)\<rparr>) s else s);
          s = upd_page pg (\<lambda>p. p\<lparr>pg_next := 0\<rparr>) s
      in upd_page pg (\<lambda>p. p\<lparr>pg_prev := 0\<rparr>) s)"

section \<open>The abstract value\<close>

abbreviation next_of :: "shm \<Rightarrow> u64 \<Rightarrow> u64" where
  "next_of s \<equiv> \<lambda>p. pg_next (page s p)"

abbreviation prev_of :: "shm \<Rightarrow> u64 \<Rightarrow> u64" where
  "prev_of s \<equiv> \<lambda>p. pg_prev (page s p)"

text \<open>
  \<open>pq_list q ps s\<close>: the forward links from \<open>first\<close> visit \<open>ps\<close> and the backward links from \<open>last\<close>
  visit \<open>ps\<close> reversed.
\<close>

definition pq_list :: "pq_addr \<Rightarrow> u64 list \<Rightarrow> shm \<Rightarrow> bool" where
  "pq_list q ps s \<longleftrightarrow> chain (next_of s) (pq_first (get_pq q s)) ps \<and>
     chain (prev_of s) (pq_last (get_pq q s)) (rev ps)"

section \<open>State lemmas\<close>

lemma get_upd_pq_same [state_simps]: "get_pq q (upd_pq q f s) = f (get_pq q s)"
  by (cases "(q, s)" rule: get_pq.cases) (simp_all add: state_simps)

lemma get_upd_pq_other [state_simps]: "q \<noteq> q' \<Longrightarrow> get_pq q (upd_pq q' f s) = get_pq q s"
  by (cases "(q, s)" rule: get_pq.cases; cases "(q', f, s)" rule: upd_pq.cases)
     (auto simp: state_simps)

lemma upd_pq_sel [state_simps]:
  "page (upd_pq q f s) = page s" "cell (upd_pq q f s) = cell s"
  "segment (upd_pq q f s) = segment s" "sas (upd_pq q f s) = sas s"
  "era_tab (upd_pq q f s) = era_tab s"
  by (cases "(q, f, s)" rule: upd_pq.cases; simp add: state_simps)+

lemma get_pq_upd_page [state_simps]:
  "get_pq q (upd_page p f s) = get_pq q s" "get_pq q (upd_segment p g s) = get_pq q s"
  "get_pq q (upd_sas j h s) = get_pq q s" "get_pq q (set_cell a v s) = get_pq q s"
  "get_pq q (clear_cells a n s) = get_pq q s"
  by (cases "(q, s)" rule: get_pq.cases; simp add: state_simps)+

lemma get_page_by_offset_simps [simp]:
  "get_page_by_offset 0 = None" "p \<noteq> 0 \<Longrightarrow> get_page_by_offset p = Some p"
  "get_page_by_offset p = None \<longleftrightarrow> p = 0" "get_page_by_offset p = Some r \<longleftrightarrow> p = r \<and> r \<noteq> 0"
  by (auto simp: get_page_by_offset_def)

section \<open>Chains under a push or a removal\<close>

lemma chain_snoc_link:
  assumes "chain nxt a (xs @ [x])" "p \<notin> set (xs @ [x])" "p \<noteq> 0"
  shows "chain (nxt(x := p, p := 0)) a (xs @ [x, p])"
  using assms
proof (induction xs arbitrary: a)
  case Nil
  then show ?case by auto
next
  case (Cons y xs)
  from Cons.prems(1) have "y \<noteq> x" using chain_distinct[OF Cons.prems(1)] by auto
  with Cons show ?case by auto
qed

lemma chain_at: "chain nxt a (us @ p # vs) \<Longrightarrow> chain nxt (nxt p) vs \<and> p \<noteq> 0"
  by (induction us arbitrary: a) auto

lemma chain_first: "chain nxt a xs \<Longrightarrow> a = (if xs = [] then 0 else hd xs)"
  by (cases xs) auto

lemma chain_next_eq:
  "chain nxt a (us @ p # vs) \<Longrightarrow> nxt p = (if vs = [] then 0 else hd vs)"
  by (drule chain_at) (auto dest: chain_first)

text \<open>Linking past \<open>p\<close>: the predecessor of \<open>p\<close>, if any, takes over the successor of \<open>p\<close>.\<close>

lemma chain_unlink:
  assumes "chain nxt a (us @ p # vs)" and "\<forall>x \<in> set (us @ vs). us = [] \<or> x \<noteq> last us \<longrightarrow> nxt' x = nxt x"
    and "us \<noteq> [] \<Longrightarrow> nxt' (last us) = nxt p"
  shows "chain nxt' (if us = [] then nxt p else a) (us @ vs)"
  using assms
proof (induction us arbitrary: a)
  case Nil
  then have "chain nxt (nxt p) vs" "\<forall>x \<in> set vs. nxt x = nxt' x" by auto
  then have "chain nxt' (nxt p) vs" using chain_cong by blast
  then show ?case by simp
next
  case (Cons u us)
  have dist: "distinct (u # us @ p # vs)" using chain_distinct[OF Cons.prems(1)] by simp
  show ?case
  proof (cases "us = []")
    case True
    from Cons.prems(1) True have "chain nxt (nxt p) vs" and u: "a = u" "u \<noteq> 0" by auto
    moreover have "\<forall>x \<in> set vs. nxt' x = nxt x" using Cons.prems(2) True dist by auto
    ultimately have "chain nxt' (nxt p) vs" using chain_cong by blast
    with Cons.prems(3) True u show ?thesis by simp
  next
    case False
    then have "u \<noteq> last us" using dist last_in_set by force
    with Cons.prems False have "nxt' u = nxt u" by auto
    with Cons.IH[of "nxt u"] Cons.prems False show ?thesis by auto
  qed
qed

section \<open>The operations on the abstract value\<close>

lemma push_next:
  "next_of (cxl_page_queue_push q p s) = (next_of s)(p := pq_first (get_pq q s))"
  by (auto simp: cxl_page_queue_push_def Let_def state_simps split: option.split)

lemma push_prev:
  "prev_of (cxl_page_queue_push q p s) =
     (if pq_first (get_pq q s) = 0 then (prev_of s)(p := 0)
      else (prev_of s)(p := 0, pq_first (get_pq q s) := p))"
  by (auto simp: cxl_page_queue_push_def Let_def state_simps split: option.split)

lemma push_queue:
  "get_pq q (cxl_page_queue_push q p s) =
     (if pq_first (get_pq q s) = 0 then (get_pq q s)\<lparr>pq_first := p, pq_last := p\<rparr>
      else (get_pq q s)\<lparr>pq_first := p\<rparr>)"
  by (auto simp: cxl_page_queue_push_def Let_def state_simps split: option.split)

lemma push_frame [state_simps]:
  "q' \<noteq> q \<Longrightarrow> get_pq q' (cxl_page_queue_push q p s) = get_pq q' s"
  "cell (cxl_page_queue_push q p s) = cell s" "segment (cxl_page_queue_push q p s) = segment s"
  "sas (cxl_page_queue_push q p s) = sas s" "era_tab (cxl_page_queue_push q p s) = era_tab s"
  by (auto simp: cxl_page_queue_push_def Let_def state_simps split: option.split)

lemma push_page_other:
  "x \<noteq> p \<Longrightarrow> x \<noteq> pq_first (get_pq q s) \<Longrightarrow> page (cxl_page_queue_push q p s) x = page s x"
  by (auto simp: cxl_page_queue_push_def Let_def state_simps split: option.split)

text \<open>Only the two links of a descriptor ever change.\<close>

definition page_body :: "cxl_page \<Rightarrow> cxl_page" where
  "page_body p = p\<lparr>pg_next := 0, pg_prev := 0\<rparr>"

lemma page_body_upd [simp]:
  "page_body (p\<lparr>pg_next := a\<rparr>) = page_body p" "page_body (p\<lparr>pg_prev := a\<rparr>) = page_body p"
  by (simp_all add: page_body_def)

lemma page_body_eq_iff:
  "page_body p = page_body p' \<longleftrightarrow> pg_free p = pg_free p' \<and> pg_local_free p = pg_local_free p' \<and>
     pg_block_size p = pg_block_size p' \<and> pg_used p = pg_used p' \<and>
     pg_is_msg_queue p = pg_is_msg_queue p'"
  by (cases p; cases p') (auto simp: page_body_def)

lemma push_body [state_simps]:
  "page_body (page (cxl_page_queue_push q p s) x) = page_body (page s x)"
  by (auto simp: cxl_page_queue_push_def Let_def state_simps split: option.split)

lemma remove_body [state_simps]:
  "page_body (page (cxl_page_queue_remove q p s) x) = page_body (page s x)"
  by (auto simp: cxl_page_queue_remove_def Let_def state_simps split: option.split)

lemma remove_frame [state_simps]:
  "q' \<noteq> q \<Longrightarrow> get_pq q' (cxl_page_queue_remove q p s) = get_pq q' s"
  "cell (cxl_page_queue_remove q p s) = cell s" "segment (cxl_page_queue_remove q p s) = segment s"
  "sas (cxl_page_queue_remove q p s) = sas s" "era_tab (cxl_page_queue_remove q p s) = era_tab s"
  by (auto simp: cxl_page_queue_remove_def Let_def state_simps split: option.split)

lemma remove_page_other:
  "x \<noteq> p \<Longrightarrow> x \<noteq> pg_next (page s p) \<Longrightarrow> x \<noteq> pg_prev (page s p) \<Longrightarrow>
     page (cxl_page_queue_remove q p s) x = page s x"
  by (auto simp: cxl_page_queue_remove_def Let_def state_simps split: option.split)

lemma pq_list_unique: "pq_list q ps s \<Longrightarrow> pq_list q qs s \<Longrightarrow> ps = qs"
  by (auto simp: pq_list_def dest: chain_unique)

lemma pq_list_distinct: "pq_list q ps s \<Longrightarrow> distinct ps"
  by (auto simp: pq_list_def dest: chain_distinct)

lemma pq_list_nonnull: "pq_list q ps s \<Longrightarrow> 0 \<notin> set ps"
  by (auto simp: pq_list_def dest: chain_nonzero)

lemma pq_list_first: "pq_list q ps s \<Longrightarrow> pq_first (get_pq q s) = (if ps = [] then 0 else hd ps)"
  by (auto simp: pq_list_def dest: chain_first)

lemma pq_list_cong:
  assumes "get_pq q s' = get_pq q s" "\<forall>x \<in> set ps. page s' x = page s x"
  shows "pq_list q ps s' = pq_list q ps s"
proof -
  have "chain (next_of s') a ps = chain (next_of s) a ps"
    "chain (prev_of s') a (rev ps) = chain (prev_of s) a (rev ps)" for a
    using assms(2) by (auto intro!: chain_cong)
  with assms(1) show ?thesis by (simp add: pq_list_def)
qed

lemma pq_list_push:
  assumes "pq_list q ps s" "p \<notin> set ps" "p \<noteq> 0"
  shows "pq_list q (p # ps) (cxl_page_queue_push q p s)"
proof -
  let ?s = "cxl_page_queue_push q p s"
  have first: "pq_first (get_pq q s) = (if ps = [] then 0 else hd ps)"
    using assms(1) by (rule pq_list_first)
  have fwd: "chain (next_of s) (pq_first (get_pq q s)) ps"
    and bwd: "chain (prev_of s) (pq_last (get_pq q s)) (rev ps)"
    using assms(1) by (auto simp: pq_list_def)
  have "chain (next_of ?s) p (p # ps)"
    using fwd assms(2,3) by (simp only: push_next) simp
  moreover have "pq_first (get_pq q ?s) = p" by (simp add: push_queue)
  moreover have "chain (prev_of ?s) (pq_last (get_pq q ?s)) (rev ps @ [p])"
  proof (cases ps)
    case Nil
    with first assms(3) show ?thesis by (simp only: push_prev push_queue) simp
  next
    case (Cons x xs)
    then have "x \<noteq> 0" using pq_list_nonnull[OF assms(1)] by auto
    with Cons first have "prev_of ?s = (prev_of s)(x := p, p := 0)"
      and last: "pq_last (get_pq q ?s) = pq_last (get_pq q s)"
      using assms(2) by (simp_all only: push_prev push_queue) (auto simp: fun_upd_twist)
    moreover have "chain ((prev_of s)(x := p, p := 0)) (pq_last (get_pq q s)) (rev xs @ [x, p])"
      using bwd assms(2,3) Cons by (intro chain_snoc_link) auto
    ultimately show ?thesis using Cons by (simp only: last) simp
  qed
  ultimately show ?thesis by (simp add: pq_list_def)
qed

lemma remove_next:
  assumes "pg_prev (page s p) \<noteq> p" "pg_next (page s p) \<noteq> p"
  shows "next_of (cxl_page_queue_remove q p s) =
     (if pg_prev (page s p) = 0 then (next_of s)(p := 0)
      else (next_of s)(pg_prev (page s p) := pg_next (page s p), p := 0))"
  using assms
  by (auto simp: cxl_page_queue_remove_def Let_def state_simps split: option.split)

lemma remove_prev:
  assumes "pg_prev (page s p) \<noteq> p" "pg_next (page s p) \<noteq> p"
  shows "prev_of (cxl_page_queue_remove q p s) =
     (if pg_next (page s p) = 0 then (prev_of s)(p := 0)
      else (prev_of s)(pg_next (page s p) := pg_prev (page s p), p := 0))"
  using assms
  by (auto simp: cxl_page_queue_remove_def Let_def state_simps split: option.split)

lemma remove_queue:
  assumes "pg_prev (page s p) \<noteq> p" "pg_next (page s p) \<noteq> p"
  shows "get_pq q (cxl_page_queue_remove q p s) = (get_pq q s)
     \<lparr>pq_last := (if p = pq_last (get_pq q s) then pg_prev (page s p) else pq_last (get_pq q s)),
      pq_first := (if p = pq_first (get_pq q s) then pg_next (page s p) else pq_first (get_pq q s))\<rparr>"
  using assms
  by (cases "p = pq_last (get_pq q s)"; cases "p = pq_first (get_pq q s)"; cases "pg_prev (page s p) = 0";
      cases "pg_next (page s p) = 0"; simp add: cxl_page_queue_remove_def state_simps)

text \<open>The neighbours of a member are its neighbours in the list.\<close>

lemma pq_list_links:
  assumes "pq_list q (us @ p # vs) s"
  shows "pg_next (page s p) = (if vs = [] then 0 else hd vs)"
    and "pg_prev (page s p) = (if us = [] then 0 else last us)"
proof -
  from assms have "chain (next_of s) (pq_first (get_pq q s)) (us @ p # vs)"
    and "chain (prev_of s) (pq_last (get_pq q s)) (rev vs @ p # rev us)"
    by (auto simp: pq_list_def)
  then show "pg_next (page s p) = (if vs = [] then 0 else hd vs)"
    and "pg_prev (page s p) = (if us = [] then 0 else last us)"
    by (auto dest!: chain_next_eq simp: hd_rev)
qed

lemma pq_list_remove_at:
  assumes "pq_list q (us @ p # vs) s"
  shows "pq_list q (us @ vs) (cxl_page_queue_remove q p s)"
proof -
  let ?s = "cxl_page_queue_remove q p s"
  have dist: "distinct (us @ p # vs)" using assms by (rule pq_list_distinct)
  have nz: "0 \<notin> set (us @ p # vs)" using assms by (rule pq_list_nonnull)
  note links = pq_list_links[OF assms]
  have neq: "pg_prev (page s p) \<noteq> p" "pg_next (page s p) \<noteq> p"
    using links dist nz by (auto simp: hd_in_set dest: last_in_set hd_in_set)
  have fwd: "chain (next_of s) (pq_first (get_pq q s)) (us @ p # vs)"
    and bwd: "chain (prev_of s) (pq_last (get_pq q s)) (rev vs @ p # rev us)"
    using assms by (auto simp: pq_list_def)
  have us0: "us \<noteq> [] \<Longrightarrow> last us \<noteq> 0" and vs0: "vs \<noteq> [] \<Longrightarrow> hd vs \<noteq> 0"
    using nz by (auto dest: last_in_set hd_in_set)
  have firstp: "p = pq_first (get_pq q s) \<longleftrightarrow> us = []"
    using chain_first[OF fwd] dist by (cases us) auto
  have lastp: "p = pq_last (get_pq q s) \<longleftrightarrow> vs = []"
    using chain_first[OF bwd] dist by (cases vs rule: rev_cases) auto
  have nx: "next_of ?s x = (if x = p then 0 else if pg_prev (page s p) \<noteq> 0 \<and> x = pg_prev (page s p)
      then pg_next (page s p) else next_of s x)" for x
    using fun_cong[OF remove_next[OF neq, of q], of x] by (simp split: if_splits)
  have pv: "prev_of ?s x = (if x = p then 0 else if pg_next (page s p) \<noteq> 0 \<and> x = pg_next (page s p)
      then pg_prev (page s p) else prev_of s x)" for x
    using fun_cong[OF remove_prev[OF neq, of q], of x] by (simp split: if_splits)
  have "\<forall>x \<in> set (us @ vs). us = [] \<or> x \<noteq> last us \<longrightarrow> next_of ?s x = next_of s x"
    and "us \<noteq> [] \<Longrightarrow> next_of ?s (last us) = next_of s p"
    using dist us0 links by (auto simp: nx dest: last_in_set)
  from chain_unlink[OF fwd this]
  have "chain (next_of ?s) (if us = [] then pg_next (page s p) else pq_first (get_pq q s)) (us @ vs)"
    by simp
  moreover have "\<forall>x \<in> set (rev vs @ rev us). rev vs = [] \<or> x \<noteq> last (rev vs) \<longrightarrow>
      prev_of ?s x = prev_of s x"
    and "rev vs \<noteq> [] \<Longrightarrow> prev_of ?s (last (rev vs)) = prev_of s p"
    using dist vs0 links by (auto simp: pv last_rev dest: hd_in_set)
  from chain_unlink[OF bwd this]
  have "chain (prev_of ?s)
      (if rev vs = [] then pg_prev (page s p) else pq_last (get_pq q s)) (rev vs @ rev us)"
    by simp
  ultimately show ?thesis
    using firstp lastp by (auto simp: pq_list_def remove_queue[OF neq])
qed

lemma pq_list_remove:
  assumes "pq_list q ps s" "p \<in> set ps"
  shows "pq_list q (remove1 p ps) (cxl_page_queue_remove q p s)"
proof -
  from assms(2) obtain us vs where ps: "ps = us @ p # vs" "p \<notin> set us"
    by (auto dest: split_list_first)
  then have "remove1 p ps = us @ vs" by (simp add: remove1_append)
  with pq_list_remove_at[of q us p vs s] assms(1) ps show ?thesis by simp
qed

text \<open>A removal changes descriptors of its own queue only.\<close>

lemma pq_list_remove_page:
  assumes "pq_list q ps s" "p \<in> set ps" "x \<notin> set ps"
  shows "page (cxl_page_queue_remove q p s) x = page s x"
proof (cases "x = 0")
  case False
  from assms(2) obtain us vs where ps: "ps = us @ p # vs" by (auto dest: split_list)
  have "x \<noteq> p" "x \<noteq> pg_next (page s p)" "x \<noteq> pg_prev (page s p)"
    using pq_list_links[of q us p vs s] assms False ps
    by (auto split: if_splits dest: hd_in_set last_in_set)
  then show ?thesis by (rule remove_page_other)
next
  case True
  moreover have "p \<noteq> 0" using pq_list_nonnull[OF assms(1)] assms(2) by auto
  ultimately show ?thesis
    by (auto simp: cxl_page_queue_remove_def Let_def state_simps split: option.split)
qed

lemma pq_list_push_page:
  assumes "pq_list q ps s" "x \<notin> set ps" "x \<noteq> p"
  shows "page (cxl_page_queue_push q p s) x = page s x"
proof (cases "ps = []")
  case True
  with assms show ?thesis
    by (auto simp: cxl_page_queue_push_def Let_def state_simps dest: pq_list_first)
next
  case False
  with assms have "x \<noteq> pq_first (get_pq q s)" by (auto dest: pq_list_first)
  with assms(3) show ?thesis by (rule push_page_other)
qed

lemma pq_list_push_other:
  assumes "pq_list q ps s" "pq_list q' qs s" "q \<noteq> q'" "set ps \<inter> set qs = {}" "p \<notin> set qs"
  shows "pq_list q' qs (cxl_page_queue_push q p s)"
proof -
  have "page (cxl_page_queue_push q p s) x = page s x" if "x \<in> set qs" for x
    using assms that by (intro pq_list_push_page[OF assms(1)]) auto
  with assms show ?thesis by (subst pq_list_cong) (auto simp: state_simps)
qed

lemma pq_list_remove_other:
  assumes "pq_list q ps s" "pq_list q' qs s" "q \<noteq> q'" "set ps \<inter> set qs = {}" "p \<in> set ps"
  shows "pq_list q' qs (cxl_page_queue_remove q p s)"
proof -
  have "page (cxl_page_queue_remove q p s) x = page s x" if "x \<in> set qs" for x
    using assms that by (intro pq_list_remove_page[OF assms(1,5)]) auto
  with assms show ?thesis by (subst pq_list_cong) (auto simp: state_simps)
qed

section \<open>The interface the allocator uses\<close>

text \<open>
  What a client of the queues relies on: each queue has one list, pushing conses, removing deletes,
  and neither touches another queue. The client's facts about loops of pushes and removals are
  proved here once.
\<close>

locale linked_queues =
  fixes lst :: "'q \<Rightarrow> 'p list \<Rightarrow> 's \<Rightarrow> bool"
    and push :: "'q \<Rightarrow> 'p \<Rightarrow> 's \<Rightarrow> 's"
    and remove :: "'q \<Rightarrow> 'p \<Rightarrow> 's \<Rightarrow> 's"
    and null :: "'p"
  assumes lst_distinct: "lst q ps s \<Longrightarrow> distinct ps"
    and lst_unique: "lst q ps s \<Longrightarrow> lst q qs s \<Longrightarrow> ps = qs"
    and lst_push: "lst q ps s \<Longrightarrow> p \<notin> set ps \<Longrightarrow> p \<noteq> null \<Longrightarrow> lst q (p # ps) (push q p s)"
    and lst_remove: "lst q ps s \<Longrightarrow> p \<in> set ps \<Longrightarrow> lst q (remove1 p ps) (remove q p s)"
    and lst_push_other: "lst q ps s \<Longrightarrow> lst q' qs s \<Longrightarrow> q \<noteq> q' \<Longrightarrow> set ps \<inter> set qs = {} \<Longrightarrow>
      p \<notin> set qs \<Longrightarrow> lst q' qs (push q p s)"
    and lst_remove_other: "lst q ps s \<Longrightarrow> lst q' qs s \<Longrightarrow> q \<noteq> q' \<Longrightarrow> set ps \<inter> set qs = {} \<Longrightarrow>
      p \<in> set ps \<Longrightarrow> lst q' qs (remove q p s)"
begin

lemma push_all:
  "lst q ps s \<Longrightarrow> distinct xs \<Longrightarrow> set xs \<inter> set ps = {} \<Longrightarrow> null \<notin> set xs \<Longrightarrow>
     lst q (rev xs @ ps) (fold (push q) xs s)"
proof (induction xs arbitrary: ps s)
  case Nil
  then show ?case by simp
next
  case (Cons x xs)
  then have "lst q (x # ps) (push q x s)" by (intro lst_push) auto
  with Cons.IH[of "x # ps" "push q x s"] Cons.prems show ?case by auto
qed

lemma push_all_other:
  "lst q ps s \<Longrightarrow> lst q' qs s \<Longrightarrow> q \<noteq> q' \<Longrightarrow> distinct xs \<Longrightarrow> set xs \<inter> set ps = {} \<Longrightarrow>
     null \<notin> set xs \<Longrightarrow> (set xs \<union> set ps) \<inter> set qs = {} \<Longrightarrow> lst q' qs (fold (push q) xs s)"
proof (induction xs arbitrary: ps s)
  case Nil
  then show ?case by simp
next
  case (Cons x xs)
  have "lst q (x # ps) (push q x s)" using Cons.prems by (intro lst_push) auto
  moreover have "lst q' qs (push q x s)"
    using Cons.prems by (intro lst_push_other[OF Cons.prems(1,2)]) auto
  ultimately show ?case using Cons.IH[of "x # ps" "push q x s"] Cons.prems by auto
qed

lemma remove_all:
  "lst q ps s \<Longrightarrow> distinct xs \<Longrightarrow> set xs \<subseteq> set ps \<Longrightarrow>
     lst q (filter (\<lambda>p. p \<notin> set xs) ps) (fold (remove q) xs s)"
proof (induction xs arbitrary: ps s)
  case Nil
  then show ?case by simp
next
  case (Cons x xs)
  have "lst q (remove1 x ps) (remove q x s)" using Cons.prems by (intro lst_remove) auto
  moreover have "remove1 x ps = filter (\<lambda>p. p \<noteq> x) ps"
    using lst_distinct[OF Cons.prems(1)] by (simp add: distinct_remove1_removeAll removeAll_filter_not_eq
      eq_commute[of x])
  ultimately have "lst q (filter (\<lambda>p. p \<notin> set xs) (filter (\<lambda>p. p \<noteq> x) ps))
      (fold (remove q) xs (remove q x s))"
    using Cons.prems by (intro Cons.IH) auto
  then show ?case by (simp add: conj_commute)
qed

lemma push_remove:
  assumes "lst q ps s" "p \<notin> set ps" "p \<noteq> null"
  shows "lst q ps (remove q p (push q p s))"
  using lst_remove[OF lst_push[OF assms], of p] by simp

end

interpretation pql: linked_queues pq_list cxl_page_queue_push cxl_page_queue_remove "0 :: u64"
  by unfold_locales
    (fact pq_list_distinct pq_list_unique pq_list_push pq_list_remove pq_list_push_other
      pq_list_remove_other)+

text \<open>
  C26: Push and remove on the doubly linked page queue are cons and deletion on the list it represents,
  in both directions of the links. After a push any member of the queue may be removed, at the front, in
  the middle or at the end; queues that share no page with it are not touched by either.
\<close>

lemma queue_push_then_remove:
  assumes "pq_list q ps s" "p \<notin> set ps" "p \<noteq> 0" "x \<in> set (p # ps)"
  shows "pq_list q (p # ps) (cxl_page_queue_push q p s) \<and>
    pq_list q (remove1 x (p # ps)) (cxl_page_queue_remove q x (cxl_page_queue_push q p s)) \<and>
    (\<forall>q' qs. pq_list q' qs s \<and> q' \<noteq> q \<and> set (p # ps) \<inter> set qs = {} \<longrightarrow>
       pq_list q' qs (cxl_page_queue_push q p s) \<and>
       pq_list q' qs (cxl_page_queue_remove q x (cxl_page_queue_push q p s)))"
proof -
  have push: "pq_list q (p # ps) (cxl_page_queue_push q p s)" by (rule pql.lst_push[OF assms(1-3)])
  moreover have "pq_list q (remove1 x (p # ps)) (cxl_page_queue_remove q x (cxl_page_queue_push q p s))"
    by (rule pql.lst_remove[OF push assms(4)])
  moreover have "pq_list q' qs (cxl_page_queue_push q p s) \<and>
      pq_list q' qs (cxl_page_queue_remove q x (cxl_page_queue_push q p s))"
    if other: "pq_list q' qs s" "q' \<noteq> q" "set (p # ps) \<inter> set qs = {}" for q' qs
  proof -
    have kept: "pq_list q' qs (cxl_page_queue_push q p s)"
      using other by (intro pql.lst_push_other[OF assms(1) other(1)]) auto
    then show ?thesis
      using other pql.lst_remove_other[OF push kept _ _ assms(4)] by auto
  qed
  ultimately show ?thesis by blast
qed

end
