(* ===== verification/Segment.thy ===== *)
theory Segment
  imports Page_Queue
begin

text \<open>
  Segments (\<open>src/segment.cpp\<close>): claiming a free slot of the segment allocation vector, filling the
  claiming thread's queue of free pages with the 1023 data pages of the segment, taking a page from
  it, and giving a segment back. The loops over the allocation vector run on the machine's word
  counter; the size of the shared memory bounds them.
\<close>

section \<open>Operations\<close>

text \<open>
  The scan of \<open>cxl_segment_alloc\<close>: \<open>count\<close> is the loop counter before the iteration. \<open>Some None\<close> is
  the \<open>return NULL\<close> for an exhausted memory. The compare-and-swap succeeds when the slot's
  \<open>thread_id\<close> is 0.
\<close>

partial_function (option) segment_alloc_scan :: "client \<Rightarrow> u64 \<Rightarrow> shm \<Rightarrow> u64 option option" where
  "segment_alloc_scan c count s =
     (let count = count + 1
      in if SEGMENTS_AREA_START + count * SEGMENT_SIZE > cl_size c then Some None
         else if sas_thread_id (sas s (count - 1)) = 0 then Some (Some count)
         else segment_alloc_scan c count s)"

text \<open>The loop that pushes \<open>meta_page[n], \<dots>, meta_page[1]\<close>.\<close>

primrec push_pages_down :: "pq_addr \<Rightarrow> u64 \<Rightarrow> nat \<Rightarrow> shm \<Rightarrow> shm" where
  "push_pages_down q seg 0 s = s"
| "push_pages_down q seg (Suc n) s =
     push_pages_down q seg n (cxl_page_queue_push q (meta_at seg (Suc n)) s)"

definition cxl_segment_alloc :: "client \<Rightarrow> shm \<Rightarrow> (u64 option \<times> shm) option" where
  "cxl_segment_alloc c s =
     do {
       r \<leftarrow> segment_alloc_scan c 0 s;
       case r of
         None \<Rightarrow> Some (None, s)
       | Some count \<Rightarrow>
           (let i = count - 1;
                s = upd_sas i (\<lambda>x. x\<lparr>sas_thread_id := cl_thread_id c\<rparr>) s;
                s = upd_sas i (\<lambda>x. x\<lparr>sas_ver := ucast NORMAL\<rparr>) s;
                s = upd_sas i (\<lambda>x. x\<lparr>sas_state := 0, sas_thread_free := 0\<rparr>) s;
                seg = SEGMENTS_AREA_START + (count - 1) * SEGMENT_SIZE;
                s = upd_segment seg (\<lambda>x. x\<lparr>sg_thread_id := ucast (cl_thread_id c)\<rparr>) s;
                s = upd_segment seg (\<lambda>x. x\<lparr>sg_used := 0\<rparr>) s;
                s = push_pages_down (cl_tls_offset c, Free_Page) seg (PAGES_PER_SEGMENT - 1) s
            in Some (Some seg, s))
     }"

partial_function (option) cxl_segment_page_alloc ::
    "client \<Rightarrow> u64 \<Rightarrow> shm \<Rightarrow> (u64 option \<times> shm) option" where
  "cxl_segment_page_alloc c block_size s =
     (let q = (cl_tls_offset c, Free_Page)
      in case get_page_by_offset (pq_first (get_pq q s)) of
           None \<Rightarrow>
             do {
               (r, s) \<leftarrow> cxl_segment_alloc c s;
               case r of
                 None \<Rightarrow> Some (None, s)
               | Some _ \<Rightarrow> cxl_segment_page_alloc c block_size s
             }
         | Some pg \<Rightarrow>
             (let s = cxl_page_queue_remove q pg s;
                  seg = cxl_ptr_segment pg;
                  s = upd_segment seg (\<lambda>x. x\<lparr>sg_used := sg_used x + 1\<rparr>) s
              in Some (Some pg, s)))"

text \<open>The loop that removes \<open>meta_page[i], \<dots>, meta_page[i + n - 1]\<close>.\<close>

primrec remove_pages_up :: "pq_addr \<Rightarrow> u64 \<Rightarrow> nat \<Rightarrow> nat \<Rightarrow> shm \<Rightarrow> shm" where
  "remove_pages_up q seg i 0 s = s"
| "remove_pages_up q seg i (Suc n) s =
     remove_pages_up q seg (Suc i) n (cxl_page_queue_remove q (meta_at seg i) s)"

text \<open>\<open>memset(segment, 0, sizeof(cxl_segment_t))\<close>: the header and the 1024 descriptors.\<close>

definition clear_segment :: "u64 \<Rightarrow> shm \<Rightarrow> shm" where
  "clear_segment seg s =
     fold (\<lambda>k. upd_page (meta_at seg k) (\<lambda>_. zero_page)) [0..<PAGES_PER_SEGMENT]
       (upd_segment seg (\<lambda>_. zero_segment) s)"

text \<open>
  The final loop waits for the slot to hold this thread's id; when it holds another one the loop
  does not end (\<open>None\<close>).
\<close>

definition cxl_segment_free :: "client \<Rightarrow> u64 \<Rightarrow> shm \<Rightarrow> shm option" where
  "cxl_segment_free c seg s =
     (let s = remove_pages_up (cl_tls_offset c, Free_Page) seg 1 (PAGES_PER_SEGMENT - 1) s;
          s = clear_segment seg s;
          idx = segment_index seg
      in if sas_thread_id (sas s idx) = cl_thread_id c
         then Some (upd_sas idx (\<lambda>x. x\<lparr>sas_thread_id := 0\<rparr>) s) else None)"

section \<open>The scan\<close>

lemma segment_area_end:
  assumes "n < MAX_SEGMENT_NUM"
  shows "SEGMENTS_AREA_START + (of_nat n + 1) * SEGMENT_SIZE = of_nat (2 ^ 27 + (n + 1) * 2 ^ 26)"
  by (simp add: layout_simps algebra_simps)

definition segment_fits :: "client \<Rightarrow> nat \<Rightarrow> bool" where
  "segment_fits c n \<longleftrightarrow> n < MAX_SEGMENT_NUM \<and> 2 ^ 27 + (n + 1) * 2 ^ 26 \<le> unat (cl_size c)"

lemma segment_fits_iff:
  assumes "n < MAX_SEGMENT_NUM"
  shows "SEGMENTS_AREA_START + (of_nat n + 1) * SEGMENT_SIZE > cl_size c \<longleftrightarrow> \<not> segment_fits c n"
proof -
  have "unat (of_nat (2 ^ 27 + (n + 1) * 2 ^ 26) :: u64) = 2 ^ 27 + (n + 1) * 2 ^ 26"
    using assms by (subst unat_of_nat) (simp add: layout_simps)
  then show ?thesis
    using assms by (simp only: segment_area_end[OF assms] word_less_nat_alt segment_fits_def) auto
qed

lemma segment_alloc_scan_step:
  assumes "n < MAX_SEGMENT_NUM"
  shows "segment_alloc_scan c (of_nat n) s =
     (if \<not> segment_fits c n then Some None
      else if sas_thread_id (sas s (of_nat n)) = 0 then Some (Some (of_nat n + 1))
      else segment_alloc_scan c (of_nat (Suc n)) s)"
  by (subst segment_alloc_scan.simps)
     (simp add: Let_def segment_fits_iff[OF assms, unfolded add.commute[of _ 1]] add.commute[of _ 1])

lemma segment_alloc_scan_from:
  assumes "i \<le> n" "segment_fits c n" "\<forall>j. i \<le> j \<and> j < n \<longrightarrow> sas_thread_id (sas s (of_nat j)) \<noteq> 0"
    "sas_thread_id (sas s (of_nat n)) = 0"
  shows "segment_alloc_scan c (of_nat i) s = Some (Some (of_nat n + 1))"
  using assms
proof (induction i rule: inc_induct)
  case base
  then show ?case by (simp add: segment_alloc_scan_step segment_fits_def)
next
  case (step m)
  then have "segment_fits c m" by (auto simp: segment_fits_def)
  with step show ?case by (simp add: segment_alloc_scan_step segment_fits_def)
qed

lemma segment_alloc_scan_full:
  assumes "i \<le> n" "n < MAX_SEGMENT_NUM" "\<not> segment_fits c n"
    "\<forall>j. i \<le> j \<and> j < n \<longrightarrow> sas_thread_id (sas s (of_nat j)) \<noteq> 0"
  shows "segment_alloc_scan c (of_nat i) s = Some None"
  using assms
proof (induction i rule: inc_induct)
  case base
  then show ?case by (simp add: segment_alloc_scan_step)
next
  case (step m)
  then show ?case by (simp add: segment_alloc_scan_step)
qed

section \<open>The loops over the pages of a segment\<close>

definition seg_pages :: "nat \<Rightarrow> u64 list" where
  "seg_pages i = map (meta_at (seg_at i)) [1..<PAGES_PER_SEGMENT]"

lemma push_pages_down_fold:
  "push_pages_down q seg n s = fold (cxl_page_queue_push q) (map (meta_at seg) (rev [1..<Suc n])) s"
  by (induction n arbitrary: s) simp_all

lemma remove_pages_up_fold:
  "remove_pages_up q seg i n s = fold (cxl_page_queue_remove q) (map (meta_at seg) [i..<i + n]) s"
proof (induction n arbitrary: i s)
  case (Suc n)
  have "[i..<i + Suc n] = i # [Suc i..<Suc i + n]" by (simp add: upt_conv_Cons del: upt_Suc)
  then show ?case by (simp add: Suc.IH)
qed simp

lemma push_pages_down_all:
  "push_pages_down q (seg_at i) (PAGES_PER_SEGMENT - 1) s =
     fold (cxl_page_queue_push q) (rev (seg_pages i)) s"
  by (simp only: push_pages_down_fold seg_pages_def rev_map layout_simps) simp

lemma remove_pages_up_all:
  "remove_pages_up q (seg_at i) 1 (PAGES_PER_SEGMENT - 1) s =
     fold (cxl_page_queue_remove q) (seg_pages i) s"
  by (simp only: remove_pages_up_fold seg_pages_def layout_simps) simp

lemma set_seg_pages:
  "set (seg_pages i) = {meta_at (seg_at i) k | k. 1 \<le> k \<and> k < PAGES_PER_SEGMENT}"
  by (auto simp: seg_pages_def)

lemma seg_pages_distinct: "i < MAX_SEGMENT_NUM \<Longrightarrow> distinct (seg_pages i)"
  by (auto simp: seg_pages_def distinct_map inj_on_def)

lemma seg_pages_nonnull: "i < MAX_SEGMENT_NUM \<Longrightarrow> 0 \<notin> set (seg_pages i)"
  by (auto simp: set_seg_pages)

lemma seg_pages_disjoint:
  "i < MAX_SEGMENT_NUM \<Longrightarrow> j < MAX_SEGMENT_NUM \<Longrightarrow> i \<noteq> j \<Longrightarrow>
     set (seg_pages i) \<inter> set (seg_pages j) = {}"
  by (auto simp: set_seg_pages meta_at_segment_inject)

lemma fold_push_frame:
  "cell (fold (cxl_page_queue_push q) xs s) = cell s"
  "segment (fold (cxl_page_queue_push q) xs s) = segment s"
  "sas (fold (cxl_page_queue_push q) xs s) = sas s"
  "era_tab (fold (cxl_page_queue_push q) xs s) = era_tab s"
  "page_body (page (fold (cxl_page_queue_push q) xs s) x) = page_body (page s x)"
  "q' \<noteq> q \<Longrightarrow> get_pq q' (fold (cxl_page_queue_push q) xs s) = get_pq q' s"
  by (induction xs arbitrary: s) (simp_all add: state_simps)

lemma fold_remove_frame:
  "cell (fold (cxl_page_queue_remove q) xs s) = cell s"
  "segment (fold (cxl_page_queue_remove q) xs s) = segment s"
  "sas (fold (cxl_page_queue_remove q) xs s) = sas s"
  "era_tab (fold (cxl_page_queue_remove q) xs s) = era_tab s"
  "page_body (page (fold (cxl_page_queue_remove q) xs s) x) = page_body (page s x)"
  "q' \<noteq> q \<Longrightarrow> get_pq q' (fold (cxl_page_queue_remove q) xs s) = get_pq q' s"
  by (induction xs arbitrary: s) (simp_all add: state_simps)

section \<open>Claiming a segment\<close>

text \<open>The slot that a claimed segment has, and its header.\<close>

definition claimed_sas :: "client \<Rightarrow> cxl_sas" where
  "claimed_sas c = \<lparr>sas_thread_id = cl_thread_id c, sas_ver = ucast NORMAL, sas_state = NORMAL,
     sas_thread_free = 0\<rparr>"

definition first_free_slot :: "nat \<Rightarrow> shm \<Rightarrow> bool" where
  "first_free_slot n s \<longleftrightarrow> sas_thread_id (sas s (of_nat n)) = 0 \<and>
     (\<forall>j<n. sas_thread_id (sas s (of_nat j)) \<noteq> 0)"

lemma record_overwrite:
  "(x :: cxl_sas)\<lparr>sas_thread_id := a, sas_ver := b, sas_state := d, sas_thread_free := e\<rparr> =
     \<lparr>sas_thread_id = a, sas_ver = b, sas_state = d, sas_thread_free = e\<rparr>"
  "(y :: cxl_segment)\<lparr>sg_thread_id := f, sg_used := g\<rparr> = \<lparr>sg_thread_id = f, sg_used = g\<rparr>"
  by simp_all

lemma cxl_segment_alloc_eq:
  assumes "segment_fits c n" "first_free_slot n s"
  shows "cxl_segment_alloc c s = Some (Some (seg_at n),
     fold (cxl_page_queue_push (cl_tls_offset c, Free_Page)) (rev (seg_pages n))
       (s\<lparr>sas := (sas s)(of_nat n := claimed_sas c),
          segment := (segment s)(seg_at n :=
            \<lparr>sg_thread_id = ucast (cl_thread_id c), sg_used = 0\<rparr>)\<rparr>))"
proof -
  have scan: "segment_alloc_scan c 0 s = Some (Some (of_nat n + 1))"
    using segment_alloc_scan_from[of 0 n c s] assms by (simp add: first_free_slot_def)
  have cnt: "(of_nat n + 1 :: u64) - 1 = of_nat n" by simp
  have seg: "SEGMENTS_AREA_START + of_nat n * SEGMENT_SIZE = seg_at n"
    by (simp add: seg_at_def)
  show ?thesis
    unfolding cxl_segment_alloc_def scan Option.bind.simps option.case Let_def cnt seg
      push_pages_down_all
    by (simp add: upd_sas_def upd_segment_def claimed_sas_def NORMAL_def record_overwrite)
qed

lemma cxl_segment_alloc_oom:
  assumes "\<not> segment_fits c n" "n < MAX_SEGMENT_NUM" "\<forall>j<n. sas_thread_id (sas s (of_nat j)) \<noteq> 0"
  shows "cxl_segment_alloc c s = Some (None, s)"
proof -
  have "segment_alloc_scan c 0 s = Some None"
    using segment_alloc_scan_full[of 0 n c s] assms by simp
  then show ?thesis by (simp add: cxl_segment_alloc_def)
qed

lemma cxl_segment_alloc_spec:
  assumes fits: "segment_fits c n" and free: "first_free_slot n s"
    and lst: "pq_list (cl_tls_offset c, Free_Page) ps s" and disj: "set (seg_pages n) \<inter> set ps = {}"
  obtains s' where "cxl_segment_alloc c s = Some (Some (seg_at n), s')"
    "pq_list (cl_tls_offset c, Free_Page) (seg_pages n @ ps) s'"
    "sas s' = (sas s)(of_nat n := claimed_sas c)"
    "segment s' = (segment s)(seg_at n := \<lparr>sg_thread_id = ucast (cl_thread_id c), sg_used = 0\<rparr>)"
    "cell s' = cell s" "era_tab s' = era_tab s"
    "\<forall>x. page_body (page s' x) = page_body (page s x)"
    "\<forall>q. q \<noteq> (cl_tls_offset c, Free_Page) \<longrightarrow> get_pq q s' = get_pq q s"
proof -
  let ?q = "(cl_tls_offset c, Free_Page)"
  let ?t = "s\<lparr>sas := (sas s)(of_nat n := claimed_sas c), segment := (segment s)(seg_at n :=
      \<lparr>sg_thread_id = ucast (cl_thread_id c), sg_used = 0\<rparr>)\<rparr>"
  let ?s = "fold (cxl_page_queue_push ?q) (rev (seg_pages n)) ?t"
  have n: "n < MAX_SEGMENT_NUM" using fits by (simp add: segment_fits_def)
  have get: "get_pq q ?t = get_pq q s" for q
    by (cases "(q, s)" rule: get_pq.cases) simp_all
  have "pq_list ?q ps ?t" using lst by (subst pq_list_cong) (simp_all add: get)
  then have "pq_list ?q (rev (rev (seg_pages n)) @ ps) ?s"
    using seg_pages_distinct[OF n] seg_pages_nonnull[OF n] disj by (intro pql.push_all) auto
  then have "pq_list ?q (seg_pages n @ ps) ?s" by simp
  then show thesis
    by (intro that[OF cxl_segment_alloc_eq[OF fits free]]) (simp_all add: fold_push_frame get)
qed

section \<open>Taking a page\<close>

lemma pq_list_upd_segment [simp]: "pq_list q ps (upd_segment a f s) = pq_list q ps s"
  by (rule pq_list_cong) (simp_all add: state_simps)

lemma cxl_segment_page_alloc_hit:
  assumes "pq_list (cl_tls_offset c, Free_Page) (p # ps) s"
  shows "cxl_segment_page_alloc c bs s = Some (Some p,
     upd_segment (cxl_ptr_segment p) (\<lambda>x. x\<lparr>sg_used := sg_used x + 1\<rparr>)
       (cxl_page_queue_remove (cl_tls_offset c, Free_Page) p s))"
proof -
  have "pq_first (get_pq (cl_tls_offset c, Free_Page) s) = p" "p \<noteq> 0"
    using pq_list_first[OF assms] pq_list_nonnull[OF assms] by auto
  then show ?thesis by (subst cxl_segment_page_alloc.simps) (simp add: Let_def)
qed

lemma cxl_segment_page_alloc_oom:
  assumes "pq_list (cl_tls_offset c, Free_Page) [] s" "\<not> segment_fits c n" "n < MAX_SEGMENT_NUM"
    "\<forall>j<n. sas_thread_id (sas s (of_nat j)) \<noteq> 0"
  shows "cxl_segment_page_alloc c bs s = Some (None, s)"
  using pq_list_first[OF assms(1)] cxl_segment_alloc_oom[OF assms(2-)]
  by (subst cxl_segment_page_alloc.simps) (simp add: Let_def)

text \<open>An empty queue is refilled from the first free slot, and the segment's page 1 is returned.\<close>

lemma cxl_segment_page_alloc_refill:
  assumes "pq_list (cl_tls_offset c, Free_Page) [] s" "segment_fits c n" "first_free_slot n s"
  obtains s' where "cxl_segment_page_alloc c bs s = Some (Some (meta_at (seg_at n) 1), s')"
    "pq_list (cl_tls_offset c, Free_Page) (tl (seg_pages n)) s'"
    "sas s' = (sas s)(of_nat n := claimed_sas c)"
    "segment s' = (segment s)(seg_at n := \<lparr>sg_thread_id = ucast (cl_thread_id c), sg_used = 1\<rparr>)"
    "cell s' = cell s" "era_tab s' = era_tab s"
    "\<forall>x. page_body (page s' x) = page_body (page s x)"
    "\<forall>q. q \<noteq> (cl_tls_offset c, Free_Page) \<longrightarrow> get_pq q s' = get_pq q s"
proof -
  let ?q = "(cl_tls_offset c, Free_Page)"
  let ?p = "meta_at (seg_at n) 1"
  have n: "n < MAX_SEGMENT_NUM" using assms(2) by (simp add: segment_fits_def)
  obtain s1 where s1: "cxl_segment_alloc c s = Some (Some (seg_at n), s1)"
    "pq_list ?q (seg_pages n @ []) s1" "sas s1 = (sas s)(of_nat n := claimed_sas c)"
    "segment s1 = (segment s)(seg_at n := \<lparr>sg_thread_id = ucast (cl_thread_id c), sg_used = 0\<rparr>)"
    "cell s1 = cell s" "era_tab s1 = era_tab s" "\<forall>x. page_body (page s1 x) = page_body (page s x)"
    "\<forall>q. q \<noteq> ?q \<longrightarrow> get_pq q s1 = get_pq q s"
    using cxl_segment_alloc_spec[OF assms(2,3,1)] by auto
  have "[1..<PAGES_PER_SEGMENT] = 1 # [Suc 1..<PAGES_PER_SEGMENT]"
    by (rule upt_conv_Cons) (simp add: layout_simps)
  then have pages: "seg_pages n = ?p # tl (seg_pages n)"
    by (simp only: seg_pages_def list.map list.sel)
  with s1(2) have lst: "pq_list ?q (?p # tl (seg_pages n)) s1" by simp
  have seg: "cxl_ptr_segment ?p = seg_at n"
    using n by (intro cxl_ptr_segment_in in_segment_meta) (simp_all add: layout_simps)
  let ?s = "upd_segment (seg_at n) (\<lambda>x. x\<lparr>sg_used := sg_used x + 1\<rparr>)
      (cxl_page_queue_remove ?q ?p s1)"
  have "cxl_segment_page_alloc c bs s = cxl_segment_page_alloc c bs s1"
    using pq_list_first[OF assms(1)] s1(1)
    by (subst cxl_segment_page_alloc.simps) (simp add: Let_def)
  then have "cxl_segment_page_alloc c bs s = Some (Some ?p, ?s)"
    unfolding cxl_segment_page_alloc_hit[OF lst] seg .
  moreover have "pq_list ?q (tl (seg_pages n)) (cxl_page_queue_remove ?q ?p s1)"
    using pql.lst_remove[OF lst, of ?p] by simp
  ultimately show thesis
    using s1(3-) by (intro that[of ?s]) (simp_all add: state_simps)
qed

section \<open>Giving a segment back\<close>

lemma fold_clear_pages:
  "page (fold (\<lambda>k. upd_page (f k) (\<lambda>_. zero_page)) ks s) x =
     (if x \<in> f ` set ks then zero_page else page s x)"
  "cell (fold (\<lambda>k. upd_page (f k) (\<lambda>_. zero_page)) ks s) = cell s"
  "segment (fold (\<lambda>k. upd_page (f k) (\<lambda>_. zero_page)) ks s) = segment s"
  "sas (fold (\<lambda>k. upd_page (f k) (\<lambda>_. zero_page)) ks s) = sas s"
  "era_tab (fold (\<lambda>k. upd_page (f k) (\<lambda>_. zero_page)) ks s) = era_tab s"
  "get_pq q (fold (\<lambda>k. upd_page (f k) (\<lambda>_. zero_page)) ks s) = get_pq q s"
  "tls (fold (\<lambda>k. upd_page (f k) (\<lambda>_. zero_page)) ks s) = tls s"
  by (induction ks arbitrary: s) (auto simp: state_simps)

lemma clear_segment_sel [state_simps]:
  "page (clear_segment seg s) x =
     (if \<exists>k<PAGES_PER_SEGMENT. x = meta_at seg k then zero_page else page s x)"
  "segment (clear_segment seg s) = (segment s)(seg := zero_segment)"
  "cell (clear_segment seg s) = cell s" "sas (clear_segment seg s) = sas s"
  "era_tab (clear_segment seg s) = era_tab s" "get_pq q (clear_segment seg s) = get_pq q s"
  "tls (clear_segment seg s) = tls s"
  by (auto simp: clear_segment_def fold_clear_pages state_simps image_iff)

lemma cxl_segment_free_spec:
  assumes lst: "pq_list (cl_tls_offset c, Free_Page) ps s" and n: "n < MAX_SEGMENT_NUM"
    and all_free: "set (seg_pages n) \<subseteq> set ps" and head: "meta_at (seg_at n) 0 \<notin> set ps"
    and own: "sas_thread_id (sas s (of_nat n)) = cl_thread_id c"
  obtains s' where "cxl_segment_free c (seg_at n) s = Some s'"
    "pq_list (cl_tls_offset c, Free_Page) (filter (\<lambda>p. p \<notin> set (seg_pages n)) ps) s'"
    "sas s' = (sas s)(of_nat n := (sas s (of_nat n))\<lparr>sas_thread_id := 0\<rparr>)"
    "segment s' = (segment s)(seg_at n := zero_segment)"
    "\<forall>k<PAGES_PER_SEGMENT. page s' (meta_at (seg_at n) k) = zero_page"
    "cell s' = cell s" "era_tab s' = era_tab s"
proof -
  let ?q = "(cl_tls_offset c, Free_Page)"
  let ?r = "fold (cxl_page_queue_remove ?q) (seg_pages n) s"
  let ?s = "upd_sas (of_nat n) (\<lambda>x. x\<lparr>sas_thread_id := 0\<rparr>) (clear_segment (seg_at n) ?r)"
  have "pq_list ?q (filter (\<lambda>p. p \<notin> set (seg_pages n)) ps) ?r"
    by (rule pql.remove_all[OF lst seg_pages_distinct[OF n] all_free])
  moreover have "page ?s x = page ?r x" if "x \<in> set ps" "x \<notin> set (seg_pages n)" for x
  proof -
    have "x \<noteq> meta_at (seg_at n) k" if "k < PAGES_PER_SEGMENT" for k
      using that \<open>x \<in> set ps\<close> \<open>x \<notin> set (seg_pages n)\<close> head
      by (cases k) (auto simp: set_seg_pages)
    then show ?thesis by (auto simp: state_simps)
  qed
  ultimately have "pq_list ?q (filter (\<lambda>p. p \<notin> set (seg_pages n)) ps) ?s"
    by (subst pq_list_cong[where s = ?r]) (auto simp: state_simps)
  moreover have "cxl_segment_free c (seg_at n) s = Some ?s"
    using own n by (simp add: cxl_segment_free_def Let_def remove_pages_up_all[unfolded One_nat_def]
      state_simps segment_index_seg_at fold_remove_frame)
  ultimately show thesis
    by (intro that[of ?s]) (auto simp: state_simps fold_remove_frame)
qed

section \<open>Taking and giving back a whole segment\<close>

text \<open>
  C24: With no free page left, the first unclaimed segment that fits is claimed and its pages are
  put on the list of free pages.
\<close>

lemma segment_refill:
  assumes "pq_list (cl_tls_offset c, Free_Page) [] s" "segment_fits c n" "first_free_slot n s"
  shows "\<exists>s'. cxl_segment_page_alloc c bs s = Some (Some (meta_at (seg_at n) 1), s') \<and>
    pq_list (cl_tls_offset c, Free_Page) (tl (seg_pages n)) s' \<and> sas s' = (sas s)(of_nat n := claimed_sas c) \<and>
    segment s' = (segment s)(seg_at n := \<lparr>sg_thread_id = ucast (cl_thread_id c), sg_used = 1\<rparr>) \<and>
    cell s' = cell s \<and> era_tab s' = era_tab s"
  by (rule cxl_segment_page_alloc_refill[OF assms, of bs]) blast

text \<open>
  C25: Giving back a segment takes its pages off the list of free pages, clears it and releases its
  slot.
\<close>

lemma segment_given_back:
  assumes "pq_list (cl_tls_offset c, Free_Page) ps s" "n < MAX_SEGMENT_NUM"
    and "set (seg_pages n) \<subseteq> set ps" "meta_at (seg_at n) 0 \<notin> set ps"
    and "sas_thread_id (sas s (of_nat n)) = cl_thread_id c"
  shows "\<exists>s'. cxl_segment_free c (seg_at n) s = Some s' \<and>
    pq_list (cl_tls_offset c, Free_Page) (filter (\<lambda>p. p \<notin> set (seg_pages n)) ps) s' \<and>
    sas s' = (sas s)(of_nat n := (sas s (of_nat n))\<lparr>sas_thread_id := 0\<rparr>) \<and>
    segment s' = (segment s)(seg_at n := zero_segment) \<and>
    (\<forall>k<PAGES_PER_SEGMENT. page s' (meta_at (seg_at n) k) = zero_page) \<and> cell s' = cell s"
  by (rule cxl_segment_free_spec[OF assms]) blast

end
