(* ===== verification/Page.thy ===== *)
theory Page
  imports Segment
begin

text \<open>
  Pages (\<open>src/page.cpp\<close>): threading the free list through a fresh page, collecting the blocks that
  other threads freed (\<open>thread_free\<close>) and the blocks this thread freed (\<open>local_free\<close>), searching a
  page queue for a page with a free block, and giving a page back.

  \<open>None\<close> marks a null dereference, the division by a zero block size, or a loop over a cyclic list
  that does not end. The compare-and-swap loops are those of an undisturbed run.
\<close>

section \<open>Initialising a page\<close>

text \<open>
  The loop of \<open>cxl_page_init\<close>. For a special page the code clears \<open>sizeof(block_size)\<close> bytes, the
  size of the parameter (8), and for an object page \<open>sizeof(CXLObj)\<close> bytes.
\<close>

partial_function (option) page_init_loop :: "bool \<Rightarrow> u64 \<Rightarrow> u64 \<Rightarrow> u64 \<Rightarrow> shm \<Rightarrow> shm option" where
  "page_init_loop special block_size last_block block s =
     (if block < last_block
      then (let s = (if special then clear_cells block 1 s else clear_cells block 3 s);
                nxt = block + block_size;
                s = set_cell block nxt s
            in page_init_loop special block_size last_block nxt s)
      else Some s)"

definition cxl_page_init :: "bool \<Rightarrow> u64 \<Rightarrow> u64 \<Rightarrow> shm \<Rightarrow> shm option" where
  "cxl_page_init special pg block_size s =
     (let s = upd_page pg (\<lambda>p. p\<lparr>pg_local_free := 0\<rparr>) s;
          s = upd_page pg (\<lambda>p. p\<lparr>pg_block_size := ucast block_size\<rparr>) s;
          s = upd_page pg (\<lambda>p. p\<lparr>pg_used := 0\<rparr>) s;
          s = upd_page pg (\<lambda>p. p\<lparr>pg_next := 0\<rparr>) s;
          s = upd_page pg (\<lambda>p. p\<lparr>pg_prev := 0\<rparr>) s;
          s = upd_page pg (\<lambda>p. p\<lparr>pg_is_msg_queue := False\<rparr>) s;
          page_area = cxl_page_start (cxl_ptr_segment pg) pg;
          start_block = cxl_page_block_at page_area block_size 0
      in if block_size = 0 then None
         else (let last_block = cxl_page_block_at page_area block_size (PAGE_SIZE div block_size - 1)
               in do {
                    s \<leftarrow> page_init_loop special block_size last_block start_block s;
                    (let s = set_cell last_block (pg_free (page s pg)) s
                     in Some (upd_page pg (\<lambda>p. p\<lparr>pg_free := start_block\<rparr>) s))
                  }))"

section \<open>Collecting freed blocks\<close>

text \<open>The loop of \<open>cxl_thread_free_collect\<close> over the detached list.\<close>

partial_function (option) thread_free_loop :: "u64 option \<Rightarrow> shm \<Rightarrow> shm option" where
  "thread_free_loop tail s =
     (case tail of
        None \<Rightarrow> Some s
      | Some b \<Rightarrow>
          (let nxt = get_block_by_offset (cell s b);
               p = cxl_ptr_page b;
               s = set_cell b (pg_local_free (page s p)) s;
               s = upd_page p (\<lambda>x. x\<lparr>pg_local_free := b\<rparr>) s;
               s = upd_page p (\<lambda>x. x\<lparr>pg_used := pg_used x - 1\<rparr>) s
           in thread_free_loop nxt s))"

definition cxl_thread_free_collect :: "u64 \<Rightarrow> shm \<Rightarrow> shm option" where
  "cxl_thread_free_collect pg s =
     (let seg = cxl_ptr_segment pg;
          idx = segment_index seg;
          head_offset = sas_thread_free (sas s idx)
      in if head_offset = 0 then Some s
         else (let s = upd_sas idx (\<lambda>x. x\<lparr>sas_thread_free := 0\<rparr>) s
               in thread_free_loop (get_block_by_offset head_offset) s))"

definition cxl_page_free_collect :: "u64 \<Rightarrow> shm \<Rightarrow> shm option" where
  "cxl_page_free_collect pg s =
     do {
       s \<leftarrow> cxl_thread_free_collect pg s;
       if pg_local_free (page s pg) \<noteq> 0 \<and> pg_free (page s pg) = 0
       then (let s = upd_page pg (\<lambda>p. p\<lparr>pg_free := pg_local_free p\<rparr>) s
             in Some (upd_page pg (\<lambda>p. p\<lparr>pg_local_free := 0\<rparr>) s))
       else Some s
     }"

section \<open>Finding a page with a free block\<close>

text \<open>
  \<open>cxl_page_fresh\<close> hands the result of \<open>cxl_segment_page_alloc\<close> to \<open>cxl_page_init\<close> unchecked: a
  \<open>NULL\<close> page is dereferenced there.
\<close>

definition cxl_page_fresh :: "client \<Rightarrow> pq_addr \<Rightarrow> shm \<Rightarrow> (u64 \<times> shm) option" where
  "cxl_page_fresh c q s =
     (let t = cl_tls_offset c;
          special = (q = (t, Bin 0) \<or> q = (t, Bin 1))
      in do {
           (r, s) \<leftarrow> cxl_segment_page_alloc c (pq_block_size (get_pq q s)) s;
           case r of
             None \<Rightarrow> None
           | Some pg \<Rightarrow>
               do {
                 s \<leftarrow> cxl_page_init special pg (pq_block_size (get_pq q s)) s;
                 (let s = (if q = (t, Bin 1)
                           then upd_page pg (\<lambda>p. p\<lparr>pg_is_msg_queue := True\<rparr>) s else s)
                  in Some (pg, cxl_page_queue_push q pg s))
               }
         })"

partial_function (option) find_free_loop ::
    "u64 option \<Rightarrow> shm \<Rightarrow> (u64 option \<times> shm) option" where
  "find_free_loop pg s =
     (case pg of
        None \<Rightarrow> Some (None, s)
      | Some p \<Rightarrow>
          (let nxt = get_page_by_offset (pg_next (page s p))
           in do {
                s \<leftarrow> cxl_page_free_collect p s;
                if pg_free (page s p) \<noteq> 0 then Some (Some p, s)
                else find_free_loop nxt s
              }))"

definition cxl_page_queue_find_free_ex :: "client \<Rightarrow> pq_addr \<Rightarrow> shm \<Rightarrow> (u64 \<times> shm) option" where
  "cxl_page_queue_find_free_ex c q s =
     do {
       (r, s) \<leftarrow> find_free_loop (get_page_by_offset (pq_first (get_pq q s))) s;
       case r of
         Some pg \<Rightarrow> Some (pg, s)
       | None \<Rightarrow> cxl_page_fresh c q s
     }"

text \<open>
  \<open>cxl_malloc_generic\<close> returns a block and the page it is on (the reference parameter). After the
  search the page is not \<open>NULL\<close>, so its call of \<open>cxl_page_malloc\<close> reads the head of the free list.
\<close>

definition cxl_malloc_generic ::
    "client \<Rightarrow> pq_addr \<Rightarrow> shm \<Rightarrow> ((u64 option \<times> u64) \<times> shm) option" where
  "cxl_malloc_generic c q s =
     (let s = upd_tls (cl_tls_offset c) (\<lambda>t. t\<lparr>tls_redo := (\<lambda>_. zero_redo)\<rparr>) s
      in do {
           (pg, s) \<leftarrow> cxl_page_queue_find_free_ex c q s;
           Some ((get_block_by_offset (pg_free (page s pg)), pg), s)
         })"

section \<open>Giving a page back\<close>

definition cxl_page_free :: "client \<Rightarrow> u64 \<Rightarrow> pq_addr \<Rightarrow> shm \<Rightarrow> shm option" where
  "cxl_page_free c pg q s =
     (let s = cxl_page_queue_remove q pg s;
          seg = cxl_ptr_segment pg;
          s = upd_page pg (\<lambda>_. zero_page) s;
          s = cxl_page_queue_push (cl_tls_offset c, Free_Page) pg s;
          s = upd_segment seg (\<lambda>x. x\<lparr>sg_used := sg_used x - 1\<rparr>) s
      in if sg_used (segment s seg) = 0 then cxl_segment_free c seg s else Some s)"

section \<open>The free list of a fresh page\<close>

text \<open>The blocks of a page area, and how many there are.\<close>

definition block_cnt :: "u64 \<Rightarrow> nat" where
  "block_cnt bs = 2 ^ 16 div unat bs"

definition blk :: "u64 \<Rightarrow> u64 \<Rightarrow> nat \<Rightarrow> u64" where
  "blk area bs j = area + of_nat j * bs"

definition page_blocks :: "u64 \<Rightarrow> u64 \<Rightarrow> u64 list" where
  "page_blocks area bs = map (blk area bs) [0..<block_cnt bs]"

text \<open>A block size and an area for which no block address wraps.\<close>

definition area_ok :: "u64 \<Rightarrow> u64 \<Rightarrow> bool" where
  "area_ok area bs \<longleftrightarrow> 0 < unat area \<and> unat area + 2 ^ 16 < 2 ^ 63 \<and> 16 \<le> unat bs \<and> unat bs \<le> 2 ^ 16"

lemma area_ok_area_at:
  "i < MAX_SEGMENT_NUM \<Longrightarrow> k < PAGES_PER_SEGMENT \<Longrightarrow> 16 \<le> unat bs \<Longrightarrow> unat bs \<le> 2 ^ 16 \<Longrightarrow>
     area_ok (area_at (seg_at i) k) bs"
  by (simp add: area_ok_def unat_area_at unat_seg_at layout_simps)

lemma block_cnt_mult: "block_cnt bs * unat bs \<le> 2 ^ 16"
  by (simp add: block_cnt_def)

lemma unat_blk:
  assumes "area_ok area bs" "j \<le> block_cnt bs"
  shows "unat (blk area bs j) = unat area + j * unat bs"
proof -
  have "j * unat bs \<le> 2 ^ 16"
    using assms(2) block_cnt_mult[of bs] by (meson le_trans mult_le_mono1)
  moreover have "blk area bs j = area + of_nat (j * unat bs)"
    by (simp add: blk_def)
  moreover have "unat area + j * unat bs < 2 ^ 64"
    using assms(1) calculation(1) by (simp add: area_ok_def)
  ultimately show ?thesis by (simp add: unat_add_small del: of_nat_mult)
qed

lemma blk_Suc: "blk area bs j + bs = blk area bs (Suc j)"
  by (simp add: blk_def algebra_simps)

lemma block_cnt_pos: "area_ok area bs \<Longrightarrow> 0 < block_cnt bs"
  by (simp add: area_ok_def block_cnt_def div_greater_zero_iff)

text \<open>What one iteration and then the whole loop do, block by block.\<close>

lemma page_init_loop_spec:
  assumes ok: "area_ok area bs" and hdr: "special \<or> 24 \<le> unat bs" and "j \<le> n" "n < block_cnt bs"
  shows "\<exists>s'. page_init_loop special bs (blk area bs n) (blk area bs j) s = Some s' \<and>
     (\<forall>i. j \<le> i \<and> i < n \<longrightarrow> cell s' (blk area bs i) = blk area bs (Suc i)) \<and>
     (\<forall>i. \<not> special \<and> j \<le> i \<and> i < n \<longrightarrow>
        cell s' (blk area bs i + 8) = 0 \<and> cell s' (blk area bs i + 16) = 0) \<and>
     (\<forall>x. unat x < unat (blk area bs j) \<or> unat (blk area bs n) \<le> unat x \<longrightarrow> cell s' x = cell s x) \<and>
     page s' = page s \<and> segment s' = segment s \<and> sas s' = sas s \<and> era_tab s' = era_tab s \<and>
     tls s' = tls s"
  using assms(3)
proof (induction j arbitrary: s rule: inc_induct)
  case base
  show ?case by (subst page_init_loop.simps) auto
next
  case (step m)
  let ?b = "blk area bs m" and ?n = "blk area bs (Suc m)" and ?l = "blk area bs n"
  let ?s0 = "if special then clear_cells ?b 1 s else clear_cells ?b 3 s"
  let ?s = "set_cell ?b ?n ?s0"
  have ub: "unat ?b = unat area + m * unat bs" "unat ?n = unat area + Suc m * unat bs"
    "unat ?l = unat area + n * unat bs"
    using step assms(4) by (simp_all add: unat_blk[OF ok])
  have mn: "Suc m * unat bs \<le> n * unat bs" using step by (intro mult_le_mono1) simp
  have bs: "16 \<le> unat bs" "unat area + 2 ^ 16 < 2 ^ 63" using ok by (auto simp: area_ok_def)
  have le16: "n * unat bs \<le> 2 ^ 16"
    using assms(4) block_cnt_mult[of bs] by (meson le_trans less_imp_le mult_le_mono1)
  have off: "unat (?b + 8) = unat ?b + 8" "unat (?b + 16) = unat ?b + 16"
    using unat_add_small[of ?b 8] unat_add_small[of ?b 16] ub mn le16 bs by simp_all
  have ne: "?b + 8 \<noteq> ?b" "?b + 16 \<noteq> ?b" "?b + 16 \<noteq> ?b + 8"
    using off by (simp_all add: word_unat_eq_iff)
  have lt: "?b < ?l" using ub bs step.hyps by (simp add: word_less_nat_alt)
  have unfold: "page_init_loop special bs ?l ?b s = page_init_loop special bs ?l ?n ?s"
    using lt by (subst page_init_loop.simps) (simp add: Let_def blk_Suc)
  obtain s' where s': "page_init_loop special bs ?l ?n ?s = Some s'"
    "\<forall>i. Suc m \<le> i \<and> i < n \<longrightarrow> cell s' (blk area bs i) = blk area bs (Suc i)"
    "\<forall>i. \<not> special \<and> Suc m \<le> i \<and> i < n \<longrightarrow>
        cell s' (blk area bs i + 8) = 0 \<and> cell s' (blk area bs i + 16) = 0"
    "\<forall>x. unat x < unat ?n \<or> unat ?l \<le> unat x \<longrightarrow> cell s' x = cell ?s x"
    "page s' = page ?s" "segment s' = segment ?s" "sas s' = sas ?s" "era_tab s' = era_tab ?s"
    "tls s' = tls ?s"
    using step.IH[of ?s] by auto
  have here: "cell s' ?b = ?n" using s'(4) ub bs by (simp add: state_simps)
  have hdr0: "cell s' (?b + 8) = 0 \<and> cell s' (?b + 16) = 0" if "\<not> special"
  proof -
    from hdr that have b24: "24 \<le> unat bs" by simp
    then have "cell s' (?b + 8) = cell ?s (?b + 8)" "cell s' (?b + 16) = cell ?s (?b + 16)"
      using s'(4) ub off by auto
    moreover have "cell ?s (?b + 8) = 0" "cell ?s (?b + 16) = 0"
      using that ne by (auto simp: state_simps numeral_3_eq_3)
    ultimately show ?thesis by simp
  qed
  have frame: "cell s' x = cell s x" if x: "unat x < unat ?b \<or> unat ?l \<le> unat x" for x
  proof -
    have "cell s' x = cell ?s x" using s'(4) x ub by auto
    moreover have "x \<noteq> ?b" using x ub mn bs by auto
    moreover have "x \<noteq> ?b + 8 \<and> x \<noteq> ?b + 16" if "\<not> special"
      using x ub mn bs off hdr that by auto
    ultimately show ?thesis by (auto simp: state_simps numeral_3_eq_3)
  qed
  have all_next: "\<forall>i. m \<le> i \<and> i < n \<longrightarrow> cell s' (blk area bs i) = blk area bs (Suc i)"
    using here s'(2) by (metis Suc_leI le_neq_implies_less)
  have all_hdr: "\<forall>i. \<not> special \<and> m \<le> i \<and> i < n \<longrightarrow>
      cell s' (blk area bs i + 8) = 0 \<and> cell s' (blk area bs i + 16) = 0"
    using hdr0 s'(3) by (metis Suc_leI le_neq_implies_less)
  show ?case
    unfolding unfold using s'(1,5-) all_next all_hdr frame
    by (intro exI[of _ s']) (auto simp: state_simps)
qed

lemma last_block_eq:
  assumes "area_ok area bs"
  shows "cxl_page_block_at area bs (PAGE_SIZE div bs - 1) = blk area bs (block_cnt bs - 1)"
proof -
  have "unat (PAGE_SIZE div bs) = block_cnt bs"
    by (simp add: unat_div layout_simps block_cnt_def)
  moreover have "block_cnt bs \<le> 65536"
    unfolding block_cnt_def using div_le_dividend[of "2 ^ 16" "unat bs"] by simp
  then have "block_cnt bs mod 2 ^ 64 = block_cnt bs" by simp
  ultimately have "PAGE_SIZE div bs = of_nat (block_cnt bs)"
    by (simp add: word_unat_eq_iff unat_of_nat)
  then have "PAGE_SIZE div bs - 1 = of_nat (block_cnt bs - 1)"
    using block_cnt_pos[OF assms] by simp
  then show ?thesis by (simp add: cxl_page_block_at_def blk_def)
qed

definition fresh_page :: "u64 \<Rightarrow> u64 \<Rightarrow> cxl_page" where
  "fresh_page area bs = \<lparr>pg_free = area, pg_local_free = 0, pg_block_size = ucast bs, pg_used = 0,
     pg_next = 0, pg_prev = 0, pg_is_msg_queue = False\<rparr>"

lemma cxl_page_init_spec:
  assumes i: "i < MAX_SEGMENT_NUM" and k: "k < PAGES_PER_SEGMENT"
    and ok: "area_ok (area_at (seg_at i) k) bs" and hdr: "special \<or> 24 \<le> unat bs"
    and free0: "pg_free (page s (meta_at (seg_at i) k)) = 0"
  obtains s' where "cxl_page_init special (meta_at (seg_at i) k) bs s = Some s'"
    "page s' = (page s)(meta_at (seg_at i) k := fresh_page (area_at (seg_at i) k) bs)"
    "chain (cell s') (area_at (seg_at i) k) (page_blocks (area_at (seg_at i) k) bs)"
    "\<forall>x. \<not> in_page i k x \<longrightarrow> cell s' x = cell s x"
    "segment s' = segment s" "sas s' = sas s" "era_tab s' = era_tab s" "tls s' = tls s"
proof -
  let ?p = "meta_at (seg_at i) k" and ?a = "area_at (seg_at i) k"
  define n where "n = block_cnt bs - 1"
  have cnt: "block_cnt bs = Suc n" using block_cnt_pos[OF ok] by (simp add: n_def)
  let ?s0 = "s\<lparr>page := (page s)(?p := (fresh_page ?a bs)\<lparr>pg_free := 0\<rparr>)\<rparr>"
  have area: "cxl_page_start (cxl_ptr_segment ?p) ?p = ?a"
    using i k by (simp add: cxl_ptr_segment_in[OF in_segment_meta] cxl_page_start_meta)
  have start: "cxl_page_block_at ?a bs 0 = blk ?a bs 0"
    by (simp add: cxl_page_block_at_def blk_def)
  have bs0: "bs \<noteq> 0" using ok by (auto simp: area_ok_def)
  obtain s1 where s1: "page_init_loop special bs (blk ?a bs n) (blk ?a bs 0) ?s0 = Some s1"
    "\<forall>j. 0 \<le> j \<and> j < n \<longrightarrow> cell s1 (blk ?a bs j) = blk ?a bs (Suc j)"
    "\<forall>x. unat x < unat (blk ?a bs 0) \<or> unat (blk ?a bs n) \<le> unat x \<longrightarrow> cell s1 x = cell s x"
    "page s1 = page ?s0" "segment s1 = segment s" "sas s1 = sas s" "era_tab s1 = era_tab s"
    "tls s1 = tls s"
    using page_init_loop_spec[OF ok hdr le0, of n ?s0] cnt by auto
  let ?s = "upd_page ?p (\<lambda>p. p\<lparr>pg_free := ?a\<rparr>) (set_cell (blk ?a bs n) 0 s1)"
  have blk0: "blk ?a bs 0 = ?a" by (simp add: blk_def)
  have overwrite: "page s ?p\<lparr>pg_local_free := 0, pg_block_size := ucast bs, pg_used := 0,
      pg_next := 0, pg_prev := 0, pg_is_msg_queue := False\<rparr> = (fresh_page ?a bs)\<lparr>pg_free := 0\<rparr>"
    using free0 by (cases "page s ?p") (simp add: fresh_page_def)
  have run: "cxl_page_init special ?p bs s = Some ?s"
    unfolding cxl_page_init_def Let_def area last_block_eq[OF ok] start n_def[symmetric]
    using bs0 s1(1,4) overwrite
    by (simp add: upd_page_def blk0 fresh_page_def set_cell_def)
  have ub: "unat (blk ?a bs j) = unat ?a + j * unat bs" if "j \<le> n" for j
    using that cnt by (intro unat_blk[OF ok]) simp
  have pos: "0 < unat ?a" "16 \<le> unat bs" using ok by (auto simp: area_ok_def)
  have nz: "blk ?a bs j \<noteq> 0" if "j \<le> n" for j
    using ub[OF that] pos by (auto simp: word_unat_eq_iff)
  have ne: "blk ?a bs j \<noteq> blk ?a bs n" if "j < n" for j
    using ub[of j] ub[of n] that pos by (auto simp: word_unat_eq_iff)
  have "chain (cell ?s) (blk ?a bs 0) (map (blk ?a bs) [0..<Suc n])"
    using s1(2) nz ne by (intro chain_map_upt) (auto simp: state_simps)
  then have ch: "chain (cell ?s) ?a (page_blocks ?a bs)"
    by (simp add: page_blocks_def cnt blk0)
  have "n * unat bs + unat bs \<le> 2 ^ 16" using block_cnt_mult[of bs] cnt by simp
  then have in_n: "in_page i k (blk ?a bs n)"
    using i k ub[of n] pos by (auto simp: in_page_def)
  have frame: "cell ?s x = cell s x" if "\<not> in_page i k x" for x
  proof -
    have "unat x < unat ?a \<or> unat ?a + 2 ^ 16 \<le> unat x"
      using that i k by (auto simp: in_page_def)
    then have "unat x < unat (blk ?a bs 0) \<or> unat (blk ?a bs n) \<le> unat x"
      using in_n by (auto simp: blk0 in_page_def)
    moreover have "x \<noteq> blk ?a bs n" using in_n that by auto
    ultimately show ?thesis using s1(3) by (auto simp: state_simps)
  qed
  have pg: "page ?s = (page s)(?p := fresh_page ?a bs)"
    using s1(4) by (auto simp: state_simps fresh_page_def)
  show thesis
    using s1(5-) frame by (intro that[OF run pg ch]) (auto simp: state_simps)
qed

section \<open>Collecting moves every remote free to the list of its page\<close>

text \<open>
  Each block \<open>b\<close> of the detached list goes to the \<open>local_free\<close> list of its own page, in reverse
  order, and the page's \<open>used\<close> count drops by the number of its blocks.
\<close>

lemma thread_free_loop_spec:
  assumes "chain (cell s) a xs"
  shows "\<exists>s'. thread_free_loop (get_block_by_offset a) s = Some s' \<and>
     (\<forall>p ls. chain (cell s) (pg_local_free (page s p)) ls \<and> set ls \<inter> set xs = {} \<longrightarrow>
        chain (cell s') (pg_local_free (page s' p)) (rev (filter (\<lambda>b. cxl_ptr_page b = p) xs) @ ls)) \<and>
     (\<forall>p. page s' p = (page s p)\<lparr>pg_local_free := pg_local_free (page s' p),
        pg_used := pg_used (page s p) - of_nat (length (filter (\<lambda>b. cxl_ptr_page b = p) xs))\<rparr>) \<and>
     (\<forall>b. b \<notin> set xs \<longrightarrow> cell s' b = cell s b) \<and>
     segment s' = segment s \<and> sas s' = sas s \<and> era_tab s' = era_tab s \<and> tls s' = tls s"
  using assms
proof (induction xs arbitrary: a s)
  case Nil
  then show ?case
    by (subst thread_free_loop.simps) (auto simp: get_block_by_offset_def)
next
  case (Cons x xs)
  let ?p = "cxl_ptr_page x" and ?n = "cell s x"
  let ?l = "pg_local_free (page s ?p)"
  let ?s = "upd_page ?p (\<lambda>q. q\<lparr>pg_used := pg_used q - 1\<rparr>)
      (upd_page ?p (\<lambda>q. q\<lparr>pg_local_free := x\<rparr>) (set_cell x ?l s))"
  from Cons.prems have x: "a = x" "x \<noteq> 0" and tl: "chain (cell s) ?n xs"
    and notin: "x \<notin> set xs"
    using chain_distinct[OF Cons.prems] by auto
  have unfold: "thread_free_loop (get_block_by_offset a) s =
      thread_free_loop (get_block_by_offset ?n) ?s"
    using x by (subst thread_free_loop.simps)
      (simp add: get_block_by_offset_def[of x] Let_def state_simps)
  have new: "chain (cell ?s) (pg_local_free (page ?s p)) (if p = ?p then x # ls else ls)"
    if "chain (cell s) (pg_local_free (page s p)) ls" "set ls \<inter> set (x # xs) = {}" for p ls
    using that x(2) by (auto simp: state_simps)
  have c1: "chain (cell ?s) ?n xs" using tl notin by (simp add: state_simps)
  from Cons.IH[OF c1] obtain s'
    where s': "thread_free_loop (get_block_by_offset ?n) ?s = Some s'"
    "\<forall>p ls. chain (cell ?s) (pg_local_free (page ?s p)) ls \<and> set ls \<inter> set xs = {} \<longrightarrow>
        chain (cell s') (pg_local_free (page s' p)) (rev (filter (\<lambda>b. cxl_ptr_page b = p) xs) @ ls)"
    "\<forall>p. page s' p = (page ?s p)\<lparr>pg_local_free := pg_local_free (page s' p),
        pg_used := pg_used (page ?s p) - of_nat (length (filter (\<lambda>b. cxl_ptr_page b = p) xs))\<rparr>"
    "\<forall>b. b \<notin> set xs \<longrightarrow> cell s' b = cell ?s b"
    "segment s' = segment ?s" "sas s' = sas ?s" "era_tab s' = era_tab ?s" "tls s' = tls ?s"
    by blast
  have "chain (cell s') (pg_local_free (page s' p))
      (rev (filter (\<lambda>b. cxl_ptr_page b = p) (x # xs)) @ ls)"
    if "chain (cell s) (pg_local_free (page s p)) ls" "set ls \<inter> set (x # xs) = {}" for p ls
    using s'(2)[rule_format, of p "if p = ?p then x # ls else ls"] new[OF that] that notin by auto
  moreover have "page s' p = (page s p)\<lparr>pg_local_free := pg_local_free (page s' p), pg_used :=
      pg_used (page s p) - of_nat (length (filter (\<lambda>b. cxl_ptr_page b = p) (x # xs)))\<rparr>" for p
    using s'(3)[rule_format, of p] by (cases "p = ?p") (auto simp: state_simps algebra_simps)
  moreover have "cell s' b = cell s b" if "b \<notin> set (x # xs)" for b
    using s'(4) that by (auto simp: state_simps)
  moreover have "segment s' = segment s" "sas s' = sas s" "era_tab s' = era_tab s" "tls s' = tls s"
    using s'(5-) by (simp_all add: state_simps)
  ultimately show ?case
    unfolding unfold using s'(1) by (intro exI[of _ s']) blast
qed

end
