(* ===== verification/Alloc.thy ===== *)
theory Alloc
  imports Page
begin

text \<open>
  Allocation and release of blocks (\<open>src/alloc.cpp\<close> and the block constructors of
  \<open>src/cxl_shm.cpp\<close>): choosing the size class, taking the head of a page's free list, turning a
  block into a root reference, an object or a message queue, and returning a block to the page
  (same thread) or to the segment's \<open>thread_free\<close> list (another thread).
\<close>

section \<open>The era matrix\<close>

text \<open>
  \<open>era(x, y)\<close> is the cell of thread \<open>x\<close> about thread \<open>y\<close>; ids count from 1. The address computation
  is on \<open>int\<close>s and unchecked, so \<open>era(0, y)\<close> lies before the array.
\<close>

definition era_idx :: "int \<Rightarrow> int \<Rightarrow> int" where
  "era_idx x y = (x - 1) * int MAX_THREAD + (y - 1)"

definition era :: "int \<Rightarrow> int \<Rightarrow> shm \<Rightarrow> u32" where
  "era x y s = era_tab s (era_idx x y)"

definition set_era :: "int \<Rightarrow> int \<Rightarrow> u32 \<Rightarrow> shm \<Rightarrow> shm" where
  "set_era x y v s = s\<lparr>era_tab := (era_tab s)(era_idx x y := v)\<rparr>"

text \<open>The client's own cell \<open>era(thread_id, thread_id)\<close>, and its increment.\<close>

definition own_era :: "client \<Rightarrow> shm \<Rightarrow> u32" where
  "own_era c s = era (uint (cl_thread_id c)) (uint (cl_thread_id c)) s"

definition bump_era :: "client \<Rightarrow> shm \<Rightarrow> shm" where
  "bump_era c s = set_era (uint (cl_thread_id c)) (uint (cl_thread_id c)) (own_era c s + 1) s"

section \<open>Structures in the data area\<close>

text \<open>The cells of a \<open>CXLObj\<close>, and of a \<open>cxl_message_queue_t\<close>.\<close>

definition obj_info :: "u64 \<Rightarrow> u64" where "obj_info b = b + 8"
definition obj_emb :: "u64 \<Rightarrow> u64" where "obj_emb b = b + 16"

definition mq_start :: "u64 \<Rightarrow> u64" where "mq_start q = q"
definition mq_end :: "u64 \<Rightarrow> u64" where "mq_end q = q + 8"
definition mq_ids :: "u64 \<Rightarrow> u64" where "mq_ids q = q + 16"
definition mq_sender_next :: "u64 \<Rightarrow> u64" where "mq_sender_next q = q + 24"
definition mq_receiver_next :: "u64 \<Rightarrow> u64" where "mq_receiver_next q = q + 32"
definition mq_slot :: "u64 \<Rightarrow> u64 \<Rightarrow> u64" where "mq_slot q i = q + 40 + i * 8"

definition get_sender_id :: "u64 \<Rightarrow> u16" where "get_sender_id w = ucast (get_field 0 16 w)"
definition get_receiver_id :: "u64 \<Rightarrow> u16" where "get_receiver_id w = ucast (get_field 16 16 w)"
definition set_sender_id :: "u16 \<Rightarrow> u64 \<Rightarrow> u64" where
  "set_sender_id v w = set_field 0 16 (ucast v) w"
definition set_receiver_id :: "u16 \<Rightarrow> u64 \<Rightarrow> u64" where
  "set_receiver_id v w = set_field 16 16 (ucast v) w"

lemma mq_id_fields [simp]:
  "get_sender_id (set_sender_id v w) = v" "get_receiver_id (set_receiver_id v w) = v"
  "get_sender_id (set_receiver_id v w) = get_sender_id w"
  "get_receiver_id (set_sender_id v w) = get_receiver_id w"
  by (simp_all add: get_sender_id_def set_sender_id_def get_receiver_id_def set_receiver_id_def
      get_set_field_same get_set_field_other take_bit_ucast_u16 ucast_ucast_u16)

section \<open>Choosing a page\<close>

text \<open>
  \<open>cxl_thread_local_state_s::cxl_page_queue\<close>. \<open>None\<close> is an index outside \<open>pages[CXL_BIN_SIZE]\<close>,
  which the code does not check.
\<close>

definition cxl_page_queue :: "bool \<Rightarrow> u64 \<Rightarrow> pq_ptr option" where
  "cxl_page_queue special sz =
     (if special \<and> sz = 16 then Some (Bin 0)
      else if special \<and> sz = sizeof_msg_queue then Some (Bin 1)
      else (let i = drop_bit 4 (sz - 1) + 2
            in if unat i < CXL_BIN_SIZE then Some (Bin (unat i)) else None))"

definition cxl_find_page :: "pq_addr \<Rightarrow> shm \<Rightarrow> u64 option" where
  "cxl_find_page q s =
     (case get_page_by_offset (pq_first (get_pq q s)) of
        Some pg \<Rightarrow>
          (case get_block_by_offset (pg_free (page s pg)) of Some _ \<Rightarrow> Some pg | None \<Rightarrow> None)
      | None \<Rightarrow> None)"

definition cxl_page_malloc ::
    "client \<Rightarrow> pq_addr \<Rightarrow> u64 option \<Rightarrow> shm \<Rightarrow> ((u64 option \<times> u64) \<times> shm) option" where
  "cxl_page_malloc c q pg s =
     (case pg of
        None \<Rightarrow> cxl_malloc_generic c q s
      | Some p \<Rightarrow> Some ((get_block_by_offset (pg_free (page s p)), p), s))"

section \<open>Turning a block into a structure\<close>

definition take_block :: "u64 \<Rightarrow> u64 \<Rightarrow> shm \<Rightarrow> shm" where
  "take_block b pg s =
     (let s = upd_page pg (\<lambda>p. p\<lparr>pg_used := pg_used p + 1\<rparr>) s
      in upd_page pg (\<lambda>p. p\<lparr>pg_free := cell s b\<rparr>) s)"

definition block_to_tbr :: "u64 \<Rightarrow> u64 \<Rightarrow> shm \<Rightarrow> shm" where
  "block_to_tbr b pg s =
     (let s = take_block b pg s;
          s = set_cell b 0 s;
          s = set_cell (b + 8) (set_in_use 1 (cell s (b + 8))) s
      in set_cell (b + 8) (set_tbr_ref_cnt 0 (cell s (b + 8))) s)"

definition block_to_cxlobj :: "client \<Rightarrow> u64 \<Rightarrow> u64 \<Rightarrow> u64 \<Rightarrow> shm \<Rightarrow> shm" where
  "block_to_cxlobj c b pg embedded_ref_cnt s =
     (let s = take_block b pg s;
          info = pack_ref_info (ucast (cl_thread_id c)) 1 (own_era c s);
          s = bump_era c s;
          s = set_cell (obj_info b) info s
      in set_cell (obj_emb b) embedded_ref_cnt s)"

definition block_to_msg_queue :: "u64 \<Rightarrow> u16 \<Rightarrow> u16 \<Rightarrow> shm \<Rightarrow> shm" where
  "block_to_msg_queue b sender_id receiver_id s =
     (let pg = cxl_ptr_page b;
          s = take_block b pg s;
          s = set_cell (mq_ids b) (set_sender_id sender_id (cell s (mq_ids b))) s;
          s = set_cell (mq_ids b) (set_receiver_id 0 (cell s (mq_ids b))) s;
          s = set_cell (mq_start b) 0 s;
          s = set_cell (mq_end b) 0 s;
          s = set_cell (mq_sender_next b) 0 s;
          s = set_cell (mq_receiver_next b) 0 s
      in clear_cells (mq_slot b 0) (unat MESSAGE_BUFFER_SIZE) s)"

definition link_block_to_tbr :: "u64 \<Rightarrow> u64 \<Rightarrow> shm \<Rightarrow> shm" where
  "link_block_to_tbr b tbr s =
     (let s = set_cell tbr b s
      in set_cell (tbr + 8) (set_tbr_ref_cnt (get_tbr_ref_cnt (cell s (tbr + 8)) + 1)
           (cell s (tbr + 8))) s)"

section \<open>Allocation\<close>

text \<open>A handle \<open>CXLRef\<close>: the offsets of its root reference and of the object's data.\<close>

record cxl_ref =
  ref_tbr :: u64
  ref_data :: u64

definition thread_base_ref_alloc :: "client \<Rightarrow> shm \<Rightarrow> (u64 option \<times> shm) option" where
  "thread_base_ref_alloc c s =
     do {
       bin \<leftarrow> cxl_page_queue True 16;
       let q = (cl_tls_offset c, bin);
       ((block, pg), s) \<leftarrow> cxl_page_malloc c q (cxl_find_page q s) s;
       case block of
         None \<Rightarrow> Some (None, s)
       | Some b \<Rightarrow> Some (Some b, block_to_tbr b pg s)
     }"

definition cxl_ref_alloc :: "client \<Rightarrow> u64 option \<Rightarrow> u64 \<Rightarrow> u64 \<Rightarrow> shm \<Rightarrow> (cxl_ref \<times> shm) option" where
  "cxl_ref_alloc c ref block_size embedded_ref_cnt s =
     do {
       bin \<leftarrow> cxl_page_queue False block_size;
       let q = (cl_tls_offset c, bin);
       ((block, pg), s) \<leftarrow> cxl_page_malloc c q (cxl_find_page q s) s;
       tbr \<leftarrow> ref;
       b \<leftarrow> block;
       let s = link_block_to_tbr b tbr s;
       let s = block_to_cxlobj c b pg embedded_ref_cnt s;
       Some (\<lparr>ref_tbr = tbr, ref_data = b + sizeof_CXLObj\<rparr>, s)
     }"

definition cxl_malloc :: "client \<Rightarrow> u64 \<Rightarrow> u32 \<Rightarrow> shm \<Rightarrow> (cxl_ref \<times> shm) option" where
  "cxl_malloc c data_size embedded_ref_cnt s =
     do {
       (tbr, s) \<leftarrow> thread_base_ref_alloc c s;
       cxl_ref_alloc c tbr (data_size + sizeof_CXLObj) (ucast embedded_ref_cnt) s
     }"

definition msg_queue_alloc :: "client \<Rightarrow> u16 \<Rightarrow> u16 \<Rightarrow> shm \<Rightarrow> (u64 option \<times> shm) option" where
  "msg_queue_alloc c sender_id receiver_id s =
     do {
       bin \<leftarrow> cxl_page_queue True sizeof_msg_queue;
       let q = (cl_tls_offset c, bin);
       ((block, pg), s) \<leftarrow> cxl_page_malloc c q (cxl_find_page q s) s;
       case block of
         None \<Rightarrow> Some (None, s)
       | Some b \<Rightarrow> Some (Some b, block_to_msg_queue b sender_id receiver_id s)
     }"

section \<open>Release\<close>

text \<open>The \<open>memset\<close> at the start of \<open>cxl_free\<close>.\<close>

definition clear_block :: "bool \<Rightarrow> u64 \<Rightarrow> shm \<Rightarrow> shm" where
  "clear_block special b s =
     (if \<not> special then clear_cells b 3 s
      else if pg_block_size (page s (cxl_ptr_page b)) = 16 then clear_cells b 2 s
      else clear_cells b 24 s)"

text \<open>
  The push of another thread's block onto its segment's \<open>thread_free\<close> list. The segment state
  \<open>POTENTIAL_LEAKING\<close> leaves the loop before the push.
\<close>

definition remote_free :: "u64 \<Rightarrow> u64 \<Rightarrow> shm \<Rightarrow> shm" where
  "remote_free i b s =
     (if sas_state (sas s i) = POTENTIAL_LEAKING then s
      else (let s = set_cell b (sas_thread_free (sas s i)) s
            in upd_sas i (\<lambda>x. x\<lparr>sas_thread_free := b\<rparr>) s))"

definition cxl_free :: "client \<Rightarrow> bool \<Rightarrow> u64 \<Rightarrow> shm \<Rightarrow> shm option" where
  "cxl_free c special b s =
     (let pg = cxl_ptr_page b;
          seg = cxl_ptr_segment b;
          s = clear_block special b s
      in if ucast (sg_thread_id (segment s seg)) = cl_thread_id c
         then (let s = set_cell b (pg_local_free (page s pg)) s;
                   s = upd_page pg (\<lambda>p. p\<lparr>pg_local_free := b\<rparr>) s;
                   s = upd_page pg (\<lambda>p. p\<lparr>pg_used := pg_used p - 1\<rparr>) s
               in if pg_used (page s pg) = 0
                  then do {
                         bin \<leftarrow> cxl_page_queue special (ucast (pg_block_size (page s pg)));
                         cxl_page_free c pg (cl_tls_offset c, bin) s
                       }
                  else Some s)
         else Some (remote_free (segment_index seg) b s))"

end
