(* ===== verification/Page_Inv.thy ===== *)
theory Page_Inv
  imports Alloc
begin

text \<open>
  The well-formedness of a page in use and what allocation and release do to it. A page has a list
  \<open>fs\<close> of blocks on \<open>free\<close>, a list \<open>ls\<close> on \<open>local_free\<close>, and every other block of its area is in
  use: held by a client, or freed by another thread and not collected yet. The invariant says that
  the two lists are disjoint lists of blocks of the area and that \<open>used\<close> counts the rest.
\<close>

section \<open>The invariant\<close>

definition page_inv :: "nat \<Rightarrow> nat \<Rightarrow> u64 \<Rightarrow> u64 list \<Rightarrow> u64 list \<Rightarrow> shm \<Rightarrow> bool" where
  "page_inv i k bs fs ls s \<longleftrightarrow>
     i < MAX_SEGMENT_NUM \<and> k < PAGES_PER_SEGMENT \<and> area_ok (area_at (seg_at i) k) bs \<and>
     pg_block_size (page s (meta_at (seg_at i) k)) = ucast bs \<and>
     chain (cell s) (pg_free (page s (meta_at (seg_at i) k))) fs \<and>
     chain (cell s) (pg_local_free (page s (meta_at (seg_at i) k))) ls \<and>
     distinct (fs @ ls) \<and> set (fs @ ls) \<subseteq> set (page_blocks (area_at (seg_at i) k) bs) \<and>
     pg_used (page s (meta_at (seg_at i) k)) = of_nat (block_cnt bs - length fs - length ls)"

definition live_blocks :: "nat \<Rightarrow> nat \<Rightarrow> u64 \<Rightarrow> u64 list \<Rightarrow> u64 list \<Rightarrow> u64 set" where
  "live_blocks i k bs fs ls = set (page_blocks (area_at (seg_at i) k) bs) - set fs - set ls"

section \<open>Block geometry\<close>

lemma length_page_blocks [simp]: "length (page_blocks a bs) = block_cnt bs"
  by (simp add: page_blocks_def)

lemma blk_inject:
  "area_ok a bs \<Longrightarrow> j \<le> block_cnt bs \<Longrightarrow> l \<le> block_cnt bs \<Longrightarrow> blk a bs j = blk a bs l \<longleftrightarrow> j = l"
  by (auto simp: word_unat_eq_iff unat_blk area_ok_def)

lemma page_blocks_distinct: "area_ok a bs \<Longrightarrow> distinct (page_blocks a bs)"
  by (auto simp: page_blocks_def distinct_map inj_on_def blk_inject)

lemma page_blocksE:
  assumes "b \<in> set (page_blocks a bs)" "area_ok a bs"
  obtains j where "j < block_cnt bs" "b = blk a bs j" "unat b = unat a + j * unat bs"
    "unat b + unat bs \<le> unat a + 2 ^ 16"
proof -
  from assms(1) obtain j where j: "j < block_cnt bs" "b = blk a bs j"
    by (auto simp: page_blocks_def)
  have "Suc j * unat bs \<le> 2 ^ 16"
    using j(1) block_cnt_mult[of bs] by (meson Suc_leI le_trans mult_le_mono1)
  then show thesis
    using that[OF j] unat_blk[OF assms(2), of j] j by simp
qed

text \<open>A cell inside a block is not the start of another block.\<close>

lemma block_offset_ne:
  assumes "b \<in> set (page_blocks a bs)" "x \<in> set (page_blocks a bs)" "area_ok a bs"
    "0 < d" "d < unat bs"
  shows "b + of_nat d \<noteq> x"
proof
  assume eq: "b + of_nat d = x"
  obtain j where j: "unat b = unat a + j * unat bs" "unat b + unat bs \<le> unat a + 2 ^ 16"
    by (rule page_blocksE[OF assms(1,3)])
  obtain l where l: "unat x = unat a + l * unat bs"
    by (rule page_blocksE[OF assms(2,3)])
  have "unat b + d < 2 ^ 64" using j assms by (simp add: area_ok_def)
  then have "unat x = unat b + d" using eq unat_add_small by metis
  then have "l * unat bs = j * unat bs + d" using j l by simp
  then have "(l * unat bs) mod unat bs = d" using assms(5) by simp
  then show False using assms(4) by simp
qed

lemma block_in_page:
  assumes "b \<in> set (page_blocks (area_at (seg_at i) k) bs)" "area_ok (area_at (seg_at i) k) bs"
    "i < MAX_SEGMENT_NUM" "k < PAGES_PER_SEGMENT" "d < unat bs"
  shows "in_page i k (b + of_nat d)"
proof -
  obtain j where j: "unat b = unat (area_at (seg_at i) k) + j * unat bs"
    "unat b + unat bs \<le> unat (area_at (seg_at i) k) + 2 ^ 16"
    by (rule page_blocksE[OF assms(1,2)])
  moreover have "unat (b + of_nat d) = unat b + d"
    using j assms(2,5) by (intro unat_add_small) (simp add: area_ok_def)
  ultimately show ?thesis using assms(3-) by (simp add: in_page_def)
qed

lemma block_in_page0:
  assumes "b \<in> set (page_blocks (area_at (seg_at i) k) bs)" "area_ok (area_at (seg_at i) k) bs"
    "i < MAX_SEGMENT_NUM" "k < PAGES_PER_SEGMENT"
  shows "in_page i k b"
  using block_in_page[OF assms, of 0] assms(2) by (simp add: area_ok_def)

text \<open>
  C40: From any address inside a block the segment, the page descriptor and the page area are
  recovered.
\<close>

lemma block_address_roundtrip:
  assumes "i < MAX_SEGMENT_NUM" "k < PAGES_PER_SEGMENT" "16 \<le> unat bs" "unat bs \<le> 2 ^ 16"
    and "b \<in> set (page_blocks (area_at (seg_at i) k) bs)" "d < unat bs"
  shows "cxl_ptr_segment (b + of_nat d) = seg_at i \<and> cxl_ptr_page (b + of_nat d) = meta_at (seg_at i) k \<and>
    cxl_page_start (cxl_ptr_segment (cxl_ptr_page (b + of_nat d))) (cxl_ptr_page (b + of_nat d)) = area_at (seg_at i) k"
proof -
  have "in_page i k (b + of_nat d)"
    by (rule block_in_page[OF assms(5) area_ok_area_at[OF assms(1-4)] assms(1,2,6)])
  then show ?thesis
    using assms(1,2) by (simp add: cxl_ptr_page_in cxl_ptr_segment_in[OF in_page_segment]
        cxl_ptr_segment_in[OF in_segment_meta] cxl_page_start_meta)
qed

lemma in_page_unique:
  assumes "in_page i k x" "in_page i' k' x"
  shows "i = i' \<and> k = k'"
proof -
  have "meta_at (seg_at i) k = meta_at (seg_at i') k'"
    using assms by (simp add: cxl_ptr_page_in[symmetric])
  then show ?thesis
    using assms by (auto simp: in_page_def meta_at_segment_inject)
qed

section \<open>Frame rules\<close>

lemma page_inv_cong:
  assumes "\<forall>x \<in> set (fs @ ls). cell s' x = cell s x"
    "page_body (page s' (meta_at (seg_at i) k)) = page_body (page s (meta_at (seg_at i) k))"
  shows "page_inv i k bs fs ls s' = page_inv i k bs fs ls s"
proof -
  have "chain (cell s') a fs = chain (cell s) a fs" "chain (cell s') a ls = chain (cell s) a ls" for a
    using assms(1) by (auto intro!: chain_cong)
  then show ?thesis using assms(2) by (simp add: page_inv_def page_body_eq_iff)
qed

lemma page_inv_facts:
  assumes "page_inv i k bs fs ls s"
  shows "i < MAX_SEGMENT_NUM" "k < PAGES_PER_SEGMENT" "area_ok (area_at (seg_at i) k) bs"
    "set (fs @ ls) \<subseteq> set (page_blocks (area_at (seg_at i) k) bs)" "distinct (fs @ ls)"
  using assms by (auto simp: page_inv_def)

text \<open>A change inside one page's area leaves the other pages well formed.\<close>

lemma page_inv_frame:
  assumes inv: "page_inv i k bs fs ls s"
    and "\<forall>x. in_page i k x \<longrightarrow> cell s' x = cell s x"
    and "page_body (page s' (meta_at (seg_at i) k)) = page_body (page s (meta_at (seg_at i) k))"
  shows "page_inv i k bs fs ls s'"
proof -
  note f = page_inv_facts[OF inv]
  have "\<forall>x \<in> set (fs @ ls). cell s' x = cell s x"
    using assms(2) f(4) block_in_page0[OF _ f(3,1,2)] by blast
  then show ?thesis using page_inv_cong assms(1,3) by blast
qed

lemma page_inv_lengths: "page_inv i k bs fs ls s \<Longrightarrow> length fs + length ls \<le> block_cnt bs"
proof -
  assume inv: "page_inv i k bs fs ls s"
  have "length (fs @ ls) = card (set (fs @ ls))"
    using page_inv_facts(5)[OF inv] by (simp add: distinct_card del: set_append)
  also have "\<dots> \<le> card (set (page_blocks (area_at (seg_at i) k) bs))"
    by (rule card_mono) (use page_inv_facts(4)[OF inv] in auto)
  also have "\<dots> \<le> block_cnt bs" using card_length[of "page_blocks (area_at (seg_at i) k) bs"] by simp
  finally show ?thesis by simp
qed

section \<open>Taking and returning a block\<close>

lemma take_block_sel [state_simps]:
  "cell (take_block b pg s) = cell s" "segment (take_block b pg s) = segment s"
  "sas (take_block b pg s) = sas s" "era_tab (take_block b pg s) = era_tab s"
  "tls (take_block b pg s) = tls s" "get_pq q (take_block b pg s) = get_pq q s"
  "page (take_block b pg s) = (page s)(pg := (page s pg)
     \<lparr>pg_used := pg_used (page s pg) + 1, pg_free := cell s b\<rparr>)"
  by (simp_all add: take_block_def Let_def state_simps)

lemma page_inv_take:
  assumes inv: "page_inv i k bs (b # fs) ls s"
  shows "page_inv i k bs fs ls (take_block b (meta_at (seg_at i) k) s)"
    and "b \<in> live_blocks i k bs fs ls" "b \<noteq> 0"
    and "pg_free (page s (meta_at (seg_at i) k)) = b"
proof -
  have "block_cnt bs - length fs - length ls = Suc (block_cnt bs - Suc (length fs) - length ls)"
    using page_inv_lengths[OF inv] by simp
  then have "(of_nat (block_cnt bs - Suc (length fs) - length ls) :: u32) + 1 =
      of_nat (block_cnt bs - length fs - length ls)"
    by (simp add: add.commute)
  with inv show "page_inv i k bs fs ls (take_block b (meta_at (seg_at i) k) s)"
    by (auto simp: page_inv_def state_simps)
  show "b \<in> live_blocks i k bs fs ls" "b \<noteq> 0" "pg_free (page s (meta_at (seg_at i) k)) = b"
    using inv by (auto simp: page_inv_def live_blocks_def)
qed

text \<open>Returning a live block to \<open>local_free\<close>.\<close>

definition give_block :: "u64 \<Rightarrow> u64 \<Rightarrow> shm \<Rightarrow> shm" where
  "give_block b pg s =
     (let s = set_cell b (pg_local_free (page s pg)) s;
          s = upd_page pg (\<lambda>p. p\<lparr>pg_local_free := b\<rparr>) s
      in upd_page pg (\<lambda>p. p\<lparr>pg_used := pg_used p - 1\<rparr>) s)"

lemma give_block_sel [state_simps]:
  "cell (give_block b pg s) = (cell s)(b := pg_local_free (page s pg))"
  "segment (give_block b pg s) = segment s"
  "sas (give_block b pg s) = sas s" "era_tab (give_block b pg s) = era_tab s"
  "tls (give_block b pg s) = tls s" "get_pq q (give_block b pg s) = get_pq q s"
  "page (give_block b pg s) = (page s)(pg := (page s pg)
     \<lparr>pg_local_free := b, pg_used := pg_used (page s pg) - 1\<rparr>)"
  by (simp_all add: give_block_def Let_def state_simps)

lemma page_inv_give:
  assumes inv: "page_inv i k bs fs ls s" and b: "b \<in> live_blocks i k bs fs ls"
  shows "page_inv i k bs fs (b # ls) (give_block b (meta_at (seg_at i) k) s)"
proof -
  note f = page_inv_facts[OF inv]
  have blk: "b \<in> set (page_blocks (area_at (seg_at i) k) bs)" "b \<notin> set fs" "b \<notin> set ls"
    using b by (auto simp: live_blocks_def)
  obtain j where "unat b = unat (area_at (seg_at i) k) + j * unat bs"
    by (rule page_blocksE[OF blk(1) f(3)])
  then have b0: "b \<noteq> 0" using f(3) by (auto simp: area_ok_def)
  have "length (b # fs @ ls) = card (set (b # fs @ ls))"
    using f(5) blk by (subst distinct_card) auto
  also have "\<dots> \<le> card (set (page_blocks (area_at (seg_at i) k) bs))"
    by (rule card_mono) (use f(4) blk in auto)
  also have "\<dots> \<le> block_cnt bs" using card_length[of "page_blocks (area_at (seg_at i) k) bs"] by simp
  finally have "block_cnt bs - length fs - length ls =
      Suc (block_cnt bs - length fs - length (b # ls))" by simp
  then have "(of_nat (block_cnt bs - length fs - length ls) :: u32) - 1 =
      of_nat (block_cnt bs - length fs - length (b # ls))"
    by simp
  with inv blk b0 show ?thesis by (auto simp: page_inv_def state_simps)
qed

text \<open>Writes inside a live block touch neither list.\<close>

lemma page_inv_live_write:
  assumes inv: "page_inv i k bs fs ls s" and b: "b \<in> live_blocks i k bs fs ls" and "d < unat bs"
  shows "page_inv i k bs fs ls (set_cell (b + of_nat d) v s)"
proof -
  note f = page_inv_facts[OF inv]
  have "b + of_nat d \<noteq> x" if "x \<in> set (fs @ ls)" for x
  proof (cases "d = 0")
    case True
    with b that show ?thesis by (auto simp: live_blocks_def)
  next
    case False
    have "b \<in> set (page_blocks (area_at (seg_at i) k) bs)" using b by (simp add: live_blocks_def)
    from block_offset_ne[OF this _ f(3), of x d] False that f(4) assms(3) show ?thesis by auto
  qed
  then show ?thesis
    using inv by (subst page_inv_cong) (auto simp: state_simps)
qed

section \<open>Constructing an object or a root reference in a block\<close>

lemma set_era_sel [state_simps]:
  "cell (set_era x y v s) = cell s" "page (set_era x y v s) = page s"
  "segment (set_era x y v s) = segment s" "sas (set_era x y v s) = sas s"
  "tls (set_era x y v s) = tls s" "get_pq q (set_era x y v s) = get_pq q s"
  "era_tab (set_era x y v s) = (era_tab s)(era_idx x y := v)"
  by (cases "(q, s)" rule: get_pq.cases; simp add: set_era_def)+

lemma bump_era_sel [state_simps]:
  "cell (bump_era c s) = cell s" "page (bump_era c s) = page s"
  "segment (bump_era c s) = segment s" "sas (bump_era c s) = sas s"
  "tls (bump_era c s) = tls s" "get_pq q (bump_era c s) = get_pq q s"
  "own_era c (bump_era c s) = own_era c s + 1"
  by (simp_all add: bump_era_def state_simps own_era_def era_def)

lemma own_era_frame [state_simps]:
  "own_era c (set_cell a v s) = own_era c s" "own_era c (upd_page p f s) = own_era c s"
  "own_era c (take_block b pg s) = own_era c s" "own_era c (upd_segment a g s) = own_era c s"
  "own_era c (clear_cells a n s) = own_era c s" "own_era c (give_block b pg s) = own_era c s"
  "own_era c (upd_tls a h s) = own_era c s" "own_era c (upd_sas j k s) = own_era c s"
  by (simp_all add: own_era_def era_def state_simps)

text \<open>
  The cells a constructor writes, and what it leaves alone: everything but the block's own cells,
  the page's counters and the client's era.
\<close>

lemma block_to_cxlobj_sel:
  "cell (block_to_cxlobj c b pg e s) = (cell s)
     (b + 8 := pack_ref_info (ucast (cl_thread_id c)) 1 (own_era c s), b + 16 := e)"
  "page (block_to_cxlobj c b pg e s) = page (take_block b pg s)"
  "segment (block_to_cxlobj c b pg e s) = segment s" "sas (block_to_cxlobj c b pg e s) = sas s"
  "tls (block_to_cxlobj c b pg e s) = tls s"
  "get_pq q (block_to_cxlobj c b pg e s) = get_pq q s"
  "own_era c (block_to_cxlobj c b pg e s) = own_era c s + 1"
  by (simp_all add: block_to_cxlobj_def Let_def state_simps obj_info_def obj_emb_def)

lemma block_to_cxlobj_inv:
  assumes inv: "page_inv i k bs (b # fs) ls s" and bs: "24 \<le> unat bs"
  shows "page_inv i k bs fs ls (block_to_cxlobj c b (meta_at (seg_at i) k) e s)"
proof -
  note t = page_inv_take[OF inv]
  let ?t = "take_block b (meta_at (seg_at i) k) s"
  have "page_inv i k bs fs ls (bump_era c ?t)"
    using t(1) by (subst page_inv_cong) (auto simp: state_simps)
  then have "page_inv i k bs fs ls (set_cell (b + of_nat 8) v (bump_era c ?t))" for v
    by (rule page_inv_live_write[OF _ t(2)]) (use bs in simp)
  then have "page_inv i k bs fs ls (set_cell (b + of_nat 16) e (set_cell (b + of_nat 8) v (bump_era c ?t)))" for v
    by (rule page_inv_live_write[OF _ t(2)]) (use bs in simp)
  then show ?thesis
    by (simp add: block_to_cxlobj_def Let_def obj_info_def obj_emb_def)
qed

text \<open>The second cell of a fresh root reference: in use, no handle.\<close>

definition fresh_tbr_word :: "u64 \<Rightarrow> u64" where
  "fresh_tbr_word w = set_tbr_ref_cnt 0 (set_in_use 1 w)"

lemma block_to_tbr_sel:
  "b + 8 \<noteq> b \<Longrightarrow> cell (block_to_tbr b pg s) = (cell s)(b := 0, b + 8 := fresh_tbr_word (cell s (b + 8)))"
  "page (block_to_tbr b pg s) = page (take_block b pg s)"
  "segment (block_to_tbr b pg s) = segment s" "sas (block_to_tbr b pg s) = sas s"
  "tls (block_to_tbr b pg s) = tls s" "era_tab (block_to_tbr b pg s) = era_tab s"
  "get_pq q (block_to_tbr b pg s) = get_pq q s"
  by (simp_all add: block_to_tbr_def Let_def state_simps fresh_tbr_word_def fun_eq_iff)

lemma block_to_tbr_inv:
  assumes inv: "page_inv i k bs (b # fs) ls s"
  shows "page_inv i k bs fs ls (block_to_tbr b (meta_at (seg_at i) k) s)"
proof -
  note t = page_inv_take[OF inv]
  let ?t = "take_block b (meta_at (seg_at i) k) s"
  have bs: "16 \<le> unat bs" using page_inv_facts(3)[OF inv] by (simp add: area_ok_def)
  have "page_inv i k bs fs ls (set_cell (b + of_nat 0) 0 ?t)"
    by (rule page_inv_live_write[OF t(1,2)]) (use bs in simp)
  then have base: "page_inv i k bs fs ls (set_cell b 0 ?t)" by simp
  have "page_inv i k bs fs ls (set_cell (b + of_nat 8) v (set_cell b 0 ?t))" for v
    by (rule page_inv_live_write[OF base t(2)]) (use bs in simp)
  then have "page_inv i k bs fs ls
      (set_cell (b + of_nat 8) w (set_cell (b + of_nat 8) v (set_cell b 0 ?t)))" for v w
    by (rule page_inv_live_write[OF _ t(2)]) (use bs in simp)
  then show ?thesis by (simp add: block_to_tbr_def Let_def)
qed

lemma link_block_to_tbr_sel:
  "cell (link_block_to_tbr b t s) =
     (cell s)(t := b, t + 8 := set_tbr_ref_cnt (get_tbr_ref_cnt (cell s (t + 8)) + 1) (cell s (t + 8)))"
  "page (link_block_to_tbr b t s) = page s" "segment (link_block_to_tbr b t s) = segment s"
  "sas (link_block_to_tbr b t s) = sas s" "era_tab (link_block_to_tbr b t s) = era_tab s"
  "tls (link_block_to_tbr b t s) = tls s" "get_pq q (link_block_to_tbr b t s) = get_pq q s"
  "own_era c (link_block_to_tbr b t s) = own_era c s"
  by (simp_all add: link_block_to_tbr_def Let_def state_simps)

section \<open>The allocation fast path\<close>

text \<open>The first page of a queue has a free block \<open>b\<close>.\<close>

definition queue_front :: "pq_addr \<Rightarrow> nat \<Rightarrow> nat \<Rightarrow> shm \<Rightarrow> bool" where
  "queue_front q i k s \<longleftrightarrow> pq_first (get_pq q s) = meta_at (seg_at i) k"

lemma page_malloc_hit:
  assumes inv: "page_inv i k bs (b # fs) ls s" and front: "queue_front q i k s"
  shows "cxl_page_malloc c q (cxl_find_page q s) s = Some ((Some b, meta_at (seg_at i) k), s)"
proof -
  note t = page_inv_take[OF inv] page_inv_facts[OF inv]
  then have "meta_at (seg_at i) k \<noteq> 0" by simp
  then show ?thesis
    using front t by (simp add: cxl_find_page_def cxl_page_malloc_def queue_front_def
      get_block_by_offset_def)
qed

lemma thread_base_ref_alloc_hit:
  assumes inv: "page_inv i k bs (t # ts) ls s" and front: "queue_front (cl_tls_offset c, Bin 0) i k s"
  shows "thread_base_ref_alloc c s = Some (Some t, block_to_tbr t (meta_at (seg_at i) k) s)"
  using page_malloc_hit[OF inv front]
  by (simp add: thread_base_ref_alloc_def cxl_page_queue_def)

lemma cxl_ref_alloc_hit:
  assumes inv: "page_inv i k bs (b # fs) ls s" and bin: "cxl_page_queue False bsz = Some j"
    and front: "queue_front (cl_tls_offset c, j) i k s"
  shows "cxl_ref_alloc c (Some t) bsz e s = Some (\<lparr>ref_tbr = t, ref_data = b + sizeof_CXLObj\<rparr>,
     block_to_cxlobj c b (meta_at (seg_at i) k) e (link_block_to_tbr b t s))"
  using page_malloc_hit[OF inv front] by (simp add: cxl_ref_alloc_def bin)

lemma cxl_malloc_hit:
  assumes tinv: "page_inv i k 16 (t # ts) lt s" and oinv: "page_inv i' k' bs (b # fs) lb s"
    and bs: "24 \<le> unat bs" and diff: "(i, k) \<noteq> (i', k')"
    and tfront: "queue_front (cl_tls_offset c, Bin 0) i k s"
    and bin: "cxl_page_queue False (n + sizeof_CXLObj) = Some j"
    and ofront: "queue_front (cl_tls_offset c, j) i' k' s"
  shows "\<exists>s'. cxl_malloc c n e s = Some (\<lparr>ref_tbr = t, ref_data = b + sizeof_CXLObj\<rparr>, s') \<and>
     page_inv i k 16 ts lt s' \<and> page_inv i' k' bs fs lb s' \<and>
     cell s' t = b \<and> get_in_use (cell s' (t + 8)) = 1 \<and> get_tbr_ref_cnt (cell s' (t + 8)) = 1 \<and>
     cell s' (b + 8) = pack_ref_info (ucast (cl_thread_id c)) 1 (own_era c s) \<and>
     cell s' (b + 16) = ucast e \<and> own_era c s' = own_era c s + 1 \<and>
     (\<forall>x. x \<notin> {t, t + 8, b + 8, b + 16} \<longrightarrow> cell s' x = cell s x) \<and>
     segment s' = segment s \<and> sas s' = sas s"
proof -
  let ?p = "meta_at (seg_at i) k" and ?p' = "meta_at (seg_at i') k'"
  note ft = page_inv_facts[OF tinv] and fo = page_inv_facts[OF oinv]
  have tpage: "t \<in> set (page_blocks (area_at (seg_at i) k) 16)" using ft(4) by auto
  have bpage: "b \<in> set (page_blocks (area_at (seg_at i') k') bs)" using fo(4) by auto
  have tin: "in_page i k (t + of_nat d)" if "d < 16" for d
    using block_in_page[OF tpage ft(3,1,2)] that by simp
  have bin': "in_page i' k' (b + of_nat d)" if "d < 24" for d
    using block_in_page[OF bpage fo(3,1,2)] that bs by simp
  have tcells: "in_page i k t" "in_page i k (t + 8)" using tin[of 0] tin[of 8] by simp_all
  have bcells: "in_page i' k' b" "in_page i' k' (b + 8)" "in_page i' k' (b + 16)"
    using bin'[of 0] bin'[of 8] bin'[of 16] by simp_all
  have apart: "\<not> (in_page i k x \<and> in_page i' k' x)" for x using in_page_unique diff by blast
  have pp: "?p \<noteq> ?p'" using diff ft(1,2) fo(1,2) by (simp add: meta_at_segment_inject)
  have t8: "t + 8 \<noteq> t" "b + 8 \<noteq> b + 16" by simp_all
  let ?s1 = "block_to_tbr t ?p s"
  let ?s2 = "link_block_to_tbr b t ?s1"
  let ?s3 = "block_to_cxlobj c b ?p' (ucast e) ?s2"
  have t1: "page_inv i k 16 ts lt ?s1" by (rule block_to_tbr_inv[OF tinv])
  have live: "t \<in> live_blocks i k 16 ts lt" by (rule page_inv_take(2)[OF tinv])
  have o1: "page_inv i' k' bs (b # fs) lb ?s1"
    by (rule page_inv_frame[OF oinv])
       (use tcells apart pp in \<open>auto simp: block_to_tbr_sel take_block_sel\<close>)
  have o2: "page_inv i' k' bs (b # fs) lb ?s2"
    by (rule page_inv_frame[OF o1]) (use tcells apart in \<open>auto simp: link_block_to_tbr_sel\<close>)
  have "page_inv i k 16 ts lt (set_cell (t + of_nat 0) b ?s1)"
    by (rule page_inv_live_write[OF t1 live]) simp
  then have "page_inv i k 16 ts lt (set_cell (t + of_nat 8) v (set_cell (t + of_nat 0) b ?s1))" for v
    by (rule page_inv_live_write[OF _ live]) simp
  then have t2: "page_inv i k 16 ts lt ?s2" by (simp add: link_block_to_tbr_def Let_def)
  have o3: "page_inv i' k' bs fs lb ?s3" by (rule block_to_cxlobj_inv[OF o2 bs])
  have t3: "page_inv i k 16 ts lt ?s3"
    by (rule page_inv_frame[OF t2])
       (use bcells apart pp in \<open>auto simp: block_to_cxlobj_sel take_block_sel\<close>)
  have front2: "queue_front (cl_tls_offset c, j) i' k' ?s1"
    using ofront by (simp add: queue_front_def block_to_tbr_sel)
  have era1: "own_era c ?s2 = own_era c s"
    by (simp add: link_block_to_tbr_sel own_era_def era_def block_to_tbr_sel)
  have run: "cxl_malloc c n e s = Some (\<lparr>ref_tbr = t, ref_data = b + sizeof_CXLObj\<rparr>, ?s3)"
    by (simp add: cxl_malloc_def thread_base_ref_alloc_hit[OF tinv tfront]
        cxl_ref_alloc_hit[OF o1 bin front2])
  have ne: "t \<noteq> b + 8" "t \<noteq> b + 16" "t + 8 \<noteq> b + 8" "t + 8 \<noteq> b + 16"
    using tcells bcells apart by metis+
  have word: "cell ?s3 (t + 8) = set_tbr_ref_cnt 1 (fresh_tbr_word (cell s (t + 8)))"
    using ne by (simp add: block_to_cxlobj_sel link_block_to_tbr_sel block_to_tbr_sel fresh_tbr_word_def)
  show ?thesis
    using run t3 o3 ne era1
    by (intro exI[of _ ?s3])
       (auto simp: word fresh_tbr_word_def block_to_cxlobj_sel link_block_to_tbr_sel block_to_tbr_sel)
qed

section \<open>Releasing a block\<close>

text \<open>How many cells \<open>clear_block\<close> clears, and that they lie inside the block.\<close>

definition clear_cnt :: "bool \<Rightarrow> u64 \<Rightarrow> nat" where
  "clear_cnt special bs = (if \<not> special then 3 else if bs = 16 then 2 else 24)"

definition clear_fits :: "bool \<Rightarrow> u64 \<Rightarrow> bool" where
  "clear_fits special bs \<longleftrightarrow> 8 * clear_cnt special bs \<le> unat bs"

lemma ucast_u32_16: "unat bs \<le> 2 ^ 16 \<Longrightarrow> (ucast (bs :: u64) :: u32) = 16 \<longleftrightarrow> bs = 16"
proof -
  assume le: "unat bs \<le> 2 ^ 16"
  have "unat (ucast bs :: u32) = unat bs"
    using le by (simp add: unsigned_ucast_eq take_bit_nat_eq_self)
  then show ?thesis by (simp add: word_unat_eq_iff)
qed

lemma clear_block_eq:
  assumes inv: "page_inv i k bs fs ls s" and b: "b \<in> live_blocks i k bs fs ls"
  shows "clear_block special b s = clear_cells b (clear_cnt special bs) s"
proof -
  note f = page_inv_facts[OF inv]
  have "in_page i k b" using b f by (intro block_in_page0) (auto simp: live_blocks_def)
  then have "pg_block_size (page s (cxl_ptr_page b)) = ucast bs"
    using inv by (simp add: cxl_ptr_page_in page_inv_def)
  then show ?thesis
    using f(3) by (simp add: clear_block_def clear_cnt_def ucast_u32_16 area_ok_def)
qed

lemma clear_block_inv:
  assumes inv: "page_inv i k bs fs ls s" and b: "b \<in> live_blocks i k bs fs ls"
    and fits: "8 * n \<le> unat bs"
  shows "page_inv i k bs fs ls (clear_cells b n s)"
proof -
  note f = page_inv_facts[OF inv]
  have blk: "b \<in> set (page_blocks (area_at (seg_at i) k) bs)" "b \<notin> set (fs @ ls)"
    using b by (auto simp: live_blocks_def)
  have "b + 8 * of_nat j \<noteq> x" if "x \<in> set (fs @ ls)" "j < n" for x j
  proof (cases "j = 0")
    case True
    with blk that show ?thesis by auto
  next
    case False
    have "b + of_nat (8 * j) \<noteq> x"
      by (rule block_offset_ne[OF blk(1) _ f(3)]) (use that False f(4) fits in auto)
    then show ?thesis by simp
  qed
  then show ?thesis
    using inv by (subst page_inv_cong) (auto simp: cell_clear_cells state_simps)
qed

text \<open>The owner frees a block: it goes to \<open>local_free\<close>.\<close>

definition owned_by :: "client \<Rightarrow> nat \<Rightarrow> shm \<Rightarrow> bool" where
  "owned_by c i s \<longleftrightarrow> (ucast (sg_thread_id (segment s (seg_at i))) :: u32) = cl_thread_id c"

lemma cxl_free_unfold_local:
  assumes inv: "page_inv i k bs fs ls s" and b: "b \<in> live_blocks i k bs fs ls"
    and own: "owned_by c i s"
  shows "cxl_free c special b s =
    (let s' = give_block b (meta_at (seg_at i) k) (clear_cells b (clear_cnt special bs) s)
     in if pg_used (page s (meta_at (seg_at i) k)) = 1
        then do {
               bin \<leftarrow> cxl_page_queue special (ucast (ucast bs :: u32));
               cxl_page_free c (meta_at (seg_at i) k) (cl_tls_offset c, bin) s'
             }
        else Some s')"
proof -
  note f = page_inv_facts[OF inv]
  have "in_page i k b" using b f by (intro block_in_page0) (auto simp: live_blocks_def)
  then have p: "cxl_ptr_page b = meta_at (seg_at i) k" "cxl_ptr_segment b = seg_at i"
    by (simp_all add: cxl_ptr_page_in cxl_ptr_segment_in[OF in_page_segment])
  have bs: "pg_block_size (page s (meta_at (seg_at i) k)) = ucast bs"
    using inv by (simp add: page_inv_def)
  show ?thesis
    using own unfolding cxl_free_def p Let_def clear_block_eq[OF inv b] give_block_def
    by (simp add: state_simps owned_by_def bs)
qed

lemma cxl_free_local:
  assumes inv: "page_inv i k bs fs ls s" and b: "b \<in> live_blocks i k bs fs ls"
    and own: "owned_by c i s" and fits: "clear_fits special bs"
    and used: "pg_used (page s (meta_at (seg_at i) k)) \<noteq> 1"
  shows "\<exists>s'. cxl_free c special b s = Some s' \<and> page_inv i k bs fs (b # ls) s' \<and>
     (\<forall>x. (\<forall>j < clear_cnt special bs. x \<noteq> b + 8 * of_nat j) \<longrightarrow> cell s' x = cell s x) \<and>
     (\<forall>j < clear_cnt special bs. 0 < j \<longrightarrow> cell s' (b + 8 * of_nat j) = 0) \<and>
     (\<forall>p. p \<noteq> meta_at (seg_at i) k \<longrightarrow> page s' p = page s p) \<and>
     segment s' = segment s \<and> sas s' = sas s \<and> era_tab s' = era_tab s \<and> tls s' = tls s"
proof -
  let ?c = "clear_cells b (clear_cnt special bs) s"
  let ?s = "give_block b (meta_at (seg_at i) k) ?c"
  have "page_inv i k bs fs ls ?c"
    using fits by (intro clear_block_inv[OF inv b]) (simp add: clear_fits_def)
  then have "page_inv i k bs fs (b # ls) ?s" by (rule page_inv_give[OF _ b])
  moreover have "cell ?s x = cell s x" if "\<forall>j < clear_cnt special bs. x \<noteq> b + 8 * of_nat j" for x
    using that[rule_format, of 0] that
    by (auto simp: state_simps cell_clear_cells clear_cnt_def split: if_splits)
  moreover have "cell ?s (b + 8 * of_nat j) = 0" if "j < clear_cnt special bs" "0 < j" for j
  proof -
    have "j < 24" using that(1) by (simp add: clear_cnt_def split: if_splits)
    then have "(8 * of_nat j :: u64) \<noteq> 0"
      using that(2) by (simp add: word_unat_eq_iff unat_word_ariths unat_of_nat)
    then show ?thesis using that by (auto simp: state_simps cell_clear_cells)
  qed
  moreover have "cxl_free c special b s = Some ?s"
    using used by (simp add: cxl_free_unfold_local[OF inv b own])
  ultimately show ?thesis by (intro exI[of _ ?s]) (auto simp: state_simps)
qed


section \<open>Collecting\<close>

definition mine :: "nat \<Rightarrow> nat \<Rightarrow> u64 list \<Rightarrow> u64 list" where
  "mine i k rs = filter (\<lambda>b. cxl_ptr_page b = meta_at (seg_at i) k) rs"

lemma cxl_thread_free_collect_inv:
  assumes inv: "page_inv i k bs fs ls s"
    and rs: "chain (cell s) (sas_thread_free (sas s (of_nat i))) rs"
    and mine: "set (mine i k rs) \<subseteq> set (page_blocks (area_at (seg_at i) k) bs)"
    and apart: "set rs \<inter> set (fs @ ls) = {}"
  shows "\<exists>s'. cxl_thread_free_collect (meta_at (seg_at i) k) s = Some s' \<and>
     page_inv i k bs fs (rev (mine i k rs) @ ls) s' \<and> sas_thread_free (sas s' (of_nat i)) = 0 \<and>
     (\<forall>b. b \<notin> set rs \<longrightarrow> cell s' b = cell s b) \<and> segment s' = segment s \<and> era_tab s' = era_tab s \<and>
     tls s' = tls s \<and> (\<forall>p. pg_next (page s' p) = pg_next (page s p))"
proof -
  note f = page_inv_facts[OF inv]
  let ?p = "meta_at (seg_at i) k" and ?i = "of_nat i :: u64"
  have seg: "segment_index (cxl_ptr_segment ?p) = ?i"
    using f(1,2) by (simp add: cxl_ptr_segment_in[OF in_segment_meta] segment_index_seg_at)
  show ?thesis
  proof (cases "sas_thread_free (sas s ?i) = 0")
    case True
    then have "rs = []" using rs by simp
    then show ?thesis
      using True inv by (intro exI[of _ s]) (simp add: cxl_thread_free_collect_def seg mine_def)
  next
    case False
    let ?s = "upd_sas ?i (\<lambda>x. x\<lparr>sas_thread_free := 0\<rparr>) s"
    have "chain (cell ?s) (sas_thread_free (sas s ?i)) rs" using rs by (simp add: state_simps)
    from thread_free_loop_spec[OF this] obtain s' where s':
      "thread_free_loop (get_block_by_offset (sas_thread_free (sas s ?i))) ?s = Some s'"
      "\<forall>p ls. chain (cell ?s) (pg_local_free (page ?s p)) ls \<and> set ls \<inter> set rs = {} \<longrightarrow>
        chain (cell s') (pg_local_free (page s' p)) (rev (filter (\<lambda>b. cxl_ptr_page b = p) rs) @ ls)"
      "\<forall>p. page s' p = (page ?s p)\<lparr>pg_local_free := pg_local_free (page s' p),
        pg_used := pg_used (page ?s p) - of_nat (length (filter (\<lambda>b. cxl_ptr_page b = p) rs))\<rparr>"
      "\<forall>b. b \<notin> set rs \<longrightarrow> cell s' b = cell ?s b"
      "segment s' = segment ?s" "sas s' = sas ?s" "era_tab s' = era_tab ?s" "tls s' = tls ?s"
      by blast
    have same: "pg_free (page s' p) = pg_free (page s p)" "pg_next (page s' p) = pg_next (page s p)"
      "pg_block_size (page s' p) = pg_block_size (page s p)"
      "pg_used (page s' p) =
         pg_used (page s p) - of_nat (length (filter (\<lambda>b. cxl_ptr_page b = p) rs))" for p
      using arg_cong[OF s'(3)[rule_format, of p], of pg_free]
        arg_cong[OF s'(3)[rule_format, of p], of pg_next]
        arg_cong[OF s'(3)[rule_format, of p], of pg_block_size]
        arg_cong[OF s'(3)[rule_format, of p], of pg_used] by (simp_all add: state_simps)
    have fch: "chain (cell s') (pg_free (page s' ?p)) fs"
      using inv apart s'(4) unfolding same
      by (subst chain_cong[where nxt' = "cell s"]) (auto simp: page_inv_def state_simps)
    have lch: "chain (cell s') (pg_local_free (page s' ?p)) (rev (mine i k rs) @ ls)"
      using s'(2)[rule_format, of ?p ls] inv apart by (auto simp: page_inv_def state_simps mine_def)
    have dist: "distinct (fs @ rev (mine i k rs) @ ls)"
      using f(5) apart chain_distinct[OF rs] by (auto simp: mine_def)
    have "length (fs @ rev (mine i k rs) @ ls) = card (set (fs @ rev (mine i k rs) @ ls))"
      using dist by (simp only: distinct_card)
    also have "\<dots> \<le> card (set (page_blocks (area_at (seg_at i) k) bs))"
      by (rule card_mono) (use f(4) mine in auto)
    also have "\<dots> \<le> block_cnt bs" using card_length[of "page_blocks (area_at (seg_at i) k) bs"] by simp
    finally have "block_cnt bs - length fs - length ls =
        (block_cnt bs - length fs - length (rev (mine i k rs) @ ls)) + length (mine i k rs)" by simp
    then have "(of_nat (block_cnt bs - length fs - length ls) :: u32) - of_nat (length (mine i k rs)) =
        of_nat (block_cnt bs - length fs - length (rev (mine i k rs) @ ls))"
      by (simp only: of_nat_add add_diff_cancel_right')
    then have "page_inv i k bs fs (rev (mine i k rs) @ ls) s'"
      using inv fch lch dist f(4) mine by (auto simp: page_inv_def same mine_def)
    moreover have "cxl_thread_free_collect ?p s = Some s'"
      using False s'(1) by (simp add: cxl_thread_free_collect_def seg Let_def)
    ultimately show ?thesis
      using s'(4-) same(2) by (intro exI[of _ s']) (auto simp: state_simps)
  qed
qed

text \<open>
  C22: \<open>cxl_page_free_collect\<close> on a page whose \<open>free\<close> list is empty moves
  everything that was freed, here or elsewhere, to \<open>free\<close>.
\<close>

lemma cxl_page_free_collect_inv:
  assumes inv: "page_inv i k bs fs ls s"
    and rs: "chain (cell s) (sas_thread_free (sas s (of_nat i))) rs"
    and mine: "set (mine i k rs) \<subseteq> set (page_blocks (area_at (seg_at i) k) bs)"
    and apart: "set rs \<inter> set (fs @ ls) = {}"
  shows "\<exists>s'. cxl_page_free_collect (meta_at (seg_at i) k) s = Some s' \<and>
     (if fs = [] then page_inv i k bs (rev (mine i k rs) @ ls) [] s'
      else page_inv i k bs fs (rev (mine i k rs) @ ls) s') \<and>
     sas_thread_free (sas s' (of_nat i)) = 0 \<and>
     (\<forall>b. b \<notin> set rs \<longrightarrow> cell s' b = cell s b) \<and> segment s' = segment s \<and> era_tab s' = era_tab s \<and>
     tls s' = tls s \<and> (\<forall>p. pg_next (page s' p) = pg_next (page s p))"
proof -
  let ?p = "meta_at (seg_at i) k"
  obtain s1 where s1: "cxl_thread_free_collect ?p s = Some s1"
    "page_inv i k bs fs (rev (mine i k rs) @ ls) s1" "sas_thread_free (sas s1 (of_nat i)) = 0"
    "\<forall>b. b \<notin> set rs \<longrightarrow> cell s1 b = cell s b" "segment s1 = segment s" "era_tab s1 = era_tab s"
    "tls s1 = tls s" "\<forall>p. pg_next (page s1 p) = pg_next (page s p)"
    using cxl_thread_free_collect_inv[OF assms] by blast
  have free0: "pg_free (page s1 ?p) = 0 \<longleftrightarrow> fs = []"
    using s1(2) by (intro chain_zero_iff[where nxt = "cell s1"]) (simp add: page_inv_def)
  have local0: "pg_local_free (page s1 ?p) = 0 \<longleftrightarrow> rev (mine i k rs) @ ls = []"
    using s1(2) by (intro chain_zero_iff[where nxt = "cell s1"]) (simp add: page_inv_def)
  let ?move = "pg_local_free (page s1 ?p) \<noteq> 0 \<and> pg_free (page s1 ?p) = 0"
  let ?s = "if ?move then upd_page ?p (\<lambda>p. p\<lparr>pg_local_free := 0\<rparr>)
      (upd_page ?p (\<lambda>p. p\<lparr>pg_free := pg_local_free p\<rparr>) s1) else s1"
  have run: "cxl_page_free_collect ?p s = Some ?s"
    by (simp add: cxl_page_free_collect_def s1(1))
  have "if fs = [] then page_inv i k bs (rev (mine i k rs) @ ls) [] ?s
      else page_inv i k bs fs (rev (mine i k rs) @ ls) ?s"
    using s1(2) free0 local0 by (auto simp: page_inv_def state_simps)
  then show ?thesis
    using run s1(3-) by (intro exI[of _ ?s]) (auto simp: state_simps)
qed

section \<open>The slow path: a fresh page\<close>

lemma get_pq_tls: "tls s' = tls s \<Longrightarrow> get_pq q s' = get_pq q s"
  by (cases "(q, s)" rule: get_pq.cases) simp_all

lemma pq_list_set_page:
  "p \<notin> set ps \<Longrightarrow> page s' = (page s)(p := v) \<Longrightarrow> get_pq q s' = get_pq q s \<Longrightarrow>
     pq_list q ps s' = pq_list q ps s"
  by (rule pq_list_cong) auto

lemma cxl_page_fresh_spec:
  assumes i: "i < MAX_SEGMENT_NUM" and k: "k < PAGES_PER_SEGMENT"
    and fp: "pq_list (cl_tls_offset c, Free_Page) (meta_at (seg_at i) k # ps) s"
    and q: "pq_list (cl_tls_offset c, Bin j) qs s"
    and apart: "set qs \<inter> set (meta_at (seg_at i) k # ps) = {}"
    and bs: "pq_block_size (get_pq (cl_tls_offset c, Bin j) s) = bs"
    and ok: "area_ok (area_at (seg_at i) k) bs" and hdr: "j < 2 \<or> 24 \<le> unat bs"
    and free0: "pg_free (page s (meta_at (seg_at i) k)) = 0"
  shows "\<exists>s'. cxl_page_fresh c (cl_tls_offset c, Bin j) s = Some (meta_at (seg_at i) k, s') \<and>
     page_inv i k bs (page_blocks (area_at (seg_at i) k) bs) [] s' \<and>
     pq_list (cl_tls_offset c, Bin j) (meta_at (seg_at i) k # qs) s' \<and>
     pq_list (cl_tls_offset c, Free_Page) ps s' \<and>
     pg_is_msg_queue (page s' (meta_at (seg_at i) k)) = (j = 1) \<and>
     segment s' = (segment s)(seg_at i := (segment s (seg_at i))
       \<lparr>sg_used := sg_used (segment s (seg_at i)) + 1\<rparr>) \<and>
     (\<forall>x. \<not> in_page i k x \<longrightarrow> cell s' x = cell s x) \<and> sas s' = sas s \<and> era_tab s' = era_tab s"
proof -
  let ?p = "meta_at (seg_at i) k" and ?f = "(cl_tls_offset c, Free_Page)"
  let ?q = "(cl_tls_offset c, Bin j)"
  have neq: "?f \<noteq> ?q" "?q \<noteq> ?f" by simp_all
  have seg: "cxl_ptr_segment ?p = seg_at i"
    using i k by (simp add: cxl_ptr_segment_in[OF in_segment_meta])
  let ?s1 = "upd_segment (seg_at i) (\<lambda>x. x\<lparr>sg_used := sg_used x + 1\<rparr>) (cxl_page_queue_remove ?f ?p s)"
  have alloc: "cxl_segment_page_alloc c b s = Some (Some ?p, ?s1)" for b
    using cxl_segment_page_alloc_hit[OF fp] by (simp add: seg)
  have fp1: "pq_list ?f ps ?s1" using pql.lst_remove[OF fp, of ?p] by simp
  have q1: "pq_list ?q qs ?s1"
    using pql.lst_remove_other[OF fp q neq(1), of ?p] apart by auto
  have body1: "page_body (page ?s1 ?p) = page_body (page s ?p)" by (simp add: state_simps)
  then have "pg_free (page ?s1 ?p) = 0" using free0 by (simp add: page_body_eq_iff)
  from cxl_page_init_spec[OF i k ok hdr this] obtain s2 where s2:
    "cxl_page_init (j < 2) ?p bs ?s1 = Some s2"
    "page s2 = (page ?s1)(?p := fresh_page (area_at (seg_at i) k) bs)"
    "chain (cell s2) (area_at (seg_at i) k) (page_blocks (area_at (seg_at i) k) bs)"
    "\<forall>x. \<not> in_page i k x \<longrightarrow> cell s2 x = cell ?s1 x"
    "segment s2 = segment ?s1" "sas s2 = sas ?s1" "era_tab s2 = era_tab ?s1" "tls s2 = tls ?s1"
    by blast
  let ?s3 = "if j = 1 then upd_page ?p (\<lambda>p. p\<lparr>pg_is_msg_queue := True\<rparr>) s2 else s2"
  let ?s4 = "cxl_page_queue_push ?q ?p ?s3"
  obtain v where v: "page ?s3 = (page ?s1)(?p := v)"
    using that[of "page ?s3 ?p"] s2(2) by (simp add: fun_eq_iff upd_page_sel)
  have get3: "get_pq r ?s3 = get_pq r ?s1" for r
    using get_pq_tls[OF s2(8), of r] by (auto simp: state_simps)
  have notin: "?p \<notin> set ps" "?p \<notin> set qs" using pq_list_distinct[OF fp] apart by auto
  have fp3: "pq_list ?f ps ?s3" using pq_list_set_page[OF notin(1) v get3] fp1 by simp
  have q3: "pq_list ?q qs ?s3" using pq_list_set_page[OF notin(2) v get3] q1 by simp
  have p0: "?p \<noteq> 0" using i k by simp
  have q4: "pq_list ?q (?p # qs) ?s4" by (rule pql.lst_push[OF q3 notin(2) p0])
  have fp4: "pq_list ?f ps ?s4"
    by (rule pql.lst_push_other[OF q3 fp3 neq(2)]) (use apart notin in auto)
  have bs1: "pq_block_size (get_pq ?q ?s1) = bs"
    using bs neq(2) by (simp add: state_simps del: get_pq.simps)
  have special: "(?q = (cl_tls_offset c, Bin 0) \<or> ?q = (cl_tls_offset c, Bin 1)) = (j < 2)" by auto
  have run: "cxl_page_fresh c ?q s = Some (?p, ?s4)"
    unfolding cxl_page_fresh_def Let_def special alloc
    using s2(1) bs1 by (simp add: state_simps)
  have body4: "page_body (page ?s4 ?p) = page_body (page ?s3 ?p)" by (rule push_body)
  have page3: "page ?s3 ?p = (fresh_page (area_at (seg_at i) k) bs)\<lparr>pg_is_msg_queue := j = 1\<rparr>"
    using s2(2) by (simp add: upd_page_sel fresh_page_def)
  have "pg_free (page ?s4 ?p) = area_at (seg_at i) k \<and> pg_local_free (page ?s4 ?p) = 0 \<and>
      pg_block_size (page ?s4 ?p) = ucast bs \<and> pg_used (page ?s4 ?p) = 0 \<and>
      pg_is_msg_queue (page ?s4 ?p) = (j = 1)"
    using body4 unfolding page_body_eq_iff page3 by (simp add: fresh_page_def)
  then have "page_inv i k bs (page_blocks (area_at (seg_at i) k) bs) [] ?s4"
      "pg_is_msg_queue (page ?s4 ?p) = (j = 1)"
    using i k ok s2(3) page_blocks_distinct[OF ok] by (auto simp: page_inv_def state_simps)
  then show ?thesis
    using run q4 fp4 s2(4-7) by (intro exI[of _ ?s4]) (auto simp: state_simps)
qed

text \<open>With an empty class queue the slow path hands out the first block of a fresh page.\<close>

definition clear_redo :: "client \<Rightarrow> shm \<Rightarrow> shm" where
  "clear_redo c s = upd_tls (cl_tls_offset c) (\<lambda>t. t\<lparr>tls_redo := (\<lambda>_. zero_redo)\<rparr>) s"

lemma clear_redo_sel [state_simps]:
  "cell (clear_redo c s) = cell s" "page (clear_redo c s) = page s"
  "segment (clear_redo c s) = segment s" "sas (clear_redo c s) = sas s"
  "era_tab (clear_redo c s) = era_tab s" "get_pq q (clear_redo c s) = get_pq q s"
  by (cases "(q, s)" rule: get_pq.cases; simp add: clear_redo_def state_simps)+

lemma pq_list_clear_redo [simp]: "pq_list q ps (clear_redo c s) = pq_list q ps s"
  by (rule pq_list_cong) (simp_all add: state_simps)

lemma find_free_ex_empty:
  assumes "pq_list q [] s"
  shows "cxl_page_queue_find_free_ex c q s = cxl_page_fresh c q s"
  using pq_list_first[OF assms]
  by (simp add: cxl_page_queue_find_free_ex_def find_free_loop.simps)

text \<open>
  C23: An allocation from an empty size class takes a free page, threads all its blocks on the free
  list and returns the first.
\<close>

lemma cxl_page_malloc_fresh:
  assumes i: "i < MAX_SEGMENT_NUM" and k: "k < PAGES_PER_SEGMENT"
    and fp: "pq_list (cl_tls_offset c, Free_Page) (meta_at (seg_at i) k # ps) s"
    and q: "pq_list (cl_tls_offset c, Bin j) [] s"
    and bs: "pq_block_size (get_pq (cl_tls_offset c, Bin j) s) = bs"
    and ok: "area_ok (area_at (seg_at i) k) bs" and hdr: "j < 2 \<or> 24 \<le> unat bs"
    and free0: "pg_free (page s (meta_at (seg_at i) k)) = 0"
  shows "\<exists>s'. cxl_page_malloc c (cl_tls_offset c, Bin j) (cxl_find_page (cl_tls_offset c, Bin j) s) s
       = Some ((Some (area_at (seg_at i) k), meta_at (seg_at i) k), s') \<and>
     page_inv i k bs (page_blocks (area_at (seg_at i) k) bs) [] s' \<and>
     pq_list (cl_tls_offset c, Bin j) [meta_at (seg_at i) k] s' \<and>
     pq_list (cl_tls_offset c, Free_Page) ps s' \<and>
     (\<forall>x. \<not> in_page i k x \<longrightarrow> cell s' x = cell s x) \<and> sas s' = sas s \<and> era_tab s' = era_tab s"
proof -
  let ?q = "(cl_tls_offset c, Bin j)"
  have none: "cxl_find_page ?q s = None"
    using pq_list_first[OF q] by (simp add: cxl_find_page_def)
  have "pq_list ?q [] (clear_redo c s)" using q by simp
  note empty = find_free_ex_empty[OF this, of c]
  obtain s' where s': "cxl_page_fresh c ?q (clear_redo c s) = Some (meta_at (seg_at i) k, s')"
    "page_inv i k bs (page_blocks (area_at (seg_at i) k) bs) [] s'"
    "pq_list ?q [meta_at (seg_at i) k] s'" "pq_list (cl_tls_offset c, Free_Page) ps s'"
    "\<forall>x. \<not> in_page i k x \<longrightarrow> cell s' x = cell s x" "sas s' = sas s" "era_tab s' = era_tab s"
    using cxl_page_fresh_spec[OF i k, of c ps "clear_redo c s" j "[]" bs] fp q bs ok hdr free0
    by (auto simp: state_simps)
  have "page_blocks (area_at (seg_at i) k) bs \<noteq> []"
    using block_cnt_pos[OF ok] by (simp add: page_blocks_def)
  then have "pg_free (page s' (meta_at (seg_at i) k)) = area_at (seg_at i) k"
    "area_at (seg_at i) k \<noteq> 0"
    using s'(2) ok block_cnt_pos[OF ok]
    by (auto simp: page_inv_def area_ok_def page_blocks_def blk_def hd_map dest!: chain_first)
  then have "cxl_malloc_generic c ?q s =
      Some ((Some (area_at (seg_at i) k), meta_at (seg_at i) k), s')"
    using s'(1) empty by (simp add: cxl_malloc_generic_def clear_redo_def[symmetric]
        get_block_by_offset_def)
  then show ?thesis
    using s'(2-) by (intro exI[of _ s']) (simp add: none cxl_page_malloc_def)
qed

text \<open>
  C31: With no free page and every segment that the memory has room for claimed, the allocation of a
  page passes over the claimed segments, returns no page and changes nothing. \<open>cxl_page_fresh\<close> does not
  test for that and dereferences the null page.
\<close>

lemma fresh_page_oom:
  assumes fp: "pq_list (cl_tls_offset c, Free_Page) [] s"
    and full: "\<not> segment_fits c n" "n < MAX_SEGMENT_NUM"
    "\<forall>j<n. sas_thread_id (sas s (of_nat j)) \<noteq> 0"
  shows "cxl_segment_page_alloc c bs s = Some (None, s) \<and> cxl_page_fresh c q s = None"
  using cxl_segment_page_alloc_oom[OF fp full] by (simp add: cxl_page_fresh_def Let_def)

text \<open>
  An allocation of a block that needs a page then crashes instead of returning an error.
\<close>

lemma cxl_page_malloc_oom:
  assumes q: "pq_list q [] s" and fp: "pq_list (cl_tls_offset c, Free_Page) [] s"
    and full: "\<not> segment_fits c n" "n < MAX_SEGMENT_NUM"
    "\<forall>j<n. sas_thread_id (sas s (of_nat j)) \<noteq> 0"
  shows "cxl_page_malloc c q (cxl_find_page q s) s = None"
proof -
  have none: "cxl_find_page q s = None"
    using pq_list_first[OF q] by (simp add: cxl_find_page_def)
  have "pq_list q [] (clear_redo c s)" using q by simp
  note empty = find_free_ex_empty[OF this, of c]
  have "cxl_segment_page_alloc c b (clear_redo c s) = Some (None, clear_redo c s)" for b
    using fp full by (intro cxl_segment_page_alloc_oom) (auto simp: state_simps)
  then have "cxl_page_fresh c q (clear_redo c s) = None"
    by (simp add: cxl_page_fresh_def Let_def)
  then show ?thesis
    by (simp add: none cxl_page_malloc_def cxl_malloc_generic_def empty clear_redo_def[symmetric])
qed

section \<open>Giving a page back\<close>

text \<open>
  The last block of a page frees the page: it leaves its class queue, its descriptor is
  cleared and it goes to the queue of free pages. The segment keeps its other pages.
\<close>

lemma cxl_page_free_spec:
  assumes i: "i < MAX_SEGMENT_NUM" and k: "k < PAGES_PER_SEGMENT"
    and q: "pq_list (cl_tls_offset c, Bin j) qs s" and mem: "meta_at (seg_at i) k \<in> set qs"
    and fp: "pq_list (cl_tls_offset c, Free_Page) ps s" and apart: "set qs \<inter> set ps = {}"
    and used: "sg_used (segment s (seg_at i)) \<noteq> 1"
  shows "\<exists>s'. cxl_page_free c (meta_at (seg_at i) k) (cl_tls_offset c, Bin j) s = Some s' \<and>
     pq_list (cl_tls_offset c, Bin j) (remove1 (meta_at (seg_at i) k) qs) s' \<and>
     pq_list (cl_tls_offset c, Free_Page) (meta_at (seg_at i) k # ps) s' \<and>
     page_body (page s' (meta_at (seg_at i) k)) = zero_page \<and>
     segment s' = (segment s)(seg_at i := (segment s (seg_at i))
       \<lparr>sg_used := sg_used (segment s (seg_at i)) - 1\<rparr>) \<and>
     (\<forall>p. p \<noteq> meta_at (seg_at i) k \<longrightarrow> page_body (page s' p) = page_body (page s p)) \<and>
     cell s' = cell s \<and> sas s' = sas s \<and> era_tab s' = era_tab s"
proof -
  let ?p = "meta_at (seg_at i) k" and ?f = "(cl_tls_offset c, Free_Page)"
  let ?q = "(cl_tls_offset c, Bin j)"
  have neq: "?q \<noteq> ?f" by simp
  have seg: "cxl_ptr_segment ?p = seg_at i"
    using i k by (simp add: cxl_ptr_segment_in[OF in_segment_meta])
  let ?s1 = "cxl_page_queue_remove ?q ?p s"
  let ?s2 = "upd_page ?p (\<lambda>_. zero_page) ?s1"
  let ?s3 = "cxl_page_queue_push ?f ?p ?s2"
  let ?s4 = "upd_segment (seg_at i) (\<lambda>x. x\<lparr>sg_used := sg_used x - 1\<rparr>) ?s3"
  have q1: "pq_list ?q (remove1 ?p qs) ?s1" by (rule pql.lst_remove[OF q mem])
  have fp1: "pq_list ?f ps ?s1" by (rule pql.lst_remove_other[OF q fp neq apart mem])
  have notin: "?p \<notin> set (remove1 ?p qs)" "?p \<notin> set ps"
    using pq_list_distinct[OF q] mem apart by auto
  have q2: "pq_list ?q (remove1 ?p qs) ?s2" and fp2: "pq_list ?f ps ?s2"
    using q1 fp1 notin pq_list_set_page[of ?p _ ?s2 ?s1] by (simp_all add: state_simps)
  have p0: "?p \<noteq> 0" using i k by simp
  have fp3: "pq_list ?f (?p # ps) ?s3" by (rule pql.lst_push[OF fp2 notin(2) p0])
  have q3: "pq_list ?q (remove1 ?p qs) ?s3"
    by (rule pql.lst_push_other[OF fp2 q2]) (use apart notin set_remove1_subset[of ?p qs] in auto)
  have run: "cxl_page_free c ?p ?q s = Some ?s4"
    using used by (simp add: cxl_page_free_def Let_def seg state_simps)
  have zero: "page_body zero_page = zero_page" by (simp add: page_body_def zero_page_def)
  show ?thesis
    using run q3 fp3 zero by (intro exI[of _ ?s4]) (auto simp: state_simps)
qed

end
