(* ===== verification/Ref_Count.thy ===== *)
theory Ref_Count
  imports Page_Inv
begin

text \<open>
  Reference counting (\<open>link_reference\<close>, \<open>unlink_reference\<close>, \<open>test_free\<close>, \<open>get_ref\<close> of
  \<open>src/cxl_shm.cpp\<close>). Each operation records the era of the last committer it saw, writes a redo
  log, installs a new packed word with the client's id and era in the object, writes the reference
  cell, and increments the client's era. The compare-and-swap loops are modelled by the run in which
  the first exchange succeeds; the interleavings are the subject of \<open>Era_Protocol\<close>.
\<close>

section \<open>Operations\<close>

definition saw_cid :: "u64 \<Rightarrow> int" where
  "saw_cid ref_info = uint (ucast (get_lcid_from_info ref_info) :: u32)"

definition saw_era :: "u64 \<Rightarrow> u32" where
  "saw_era ref_info = ucast (get_lenum_from_info ref_info)"

definition ref_info_cnt :: "u64 \<Rightarrow> u16" where
  "ref_info_cnt ref_info = ucast (get_ref_cnt_from_info ref_info)"

definition see_era :: "client \<Rightarrow> u64 \<Rightarrow> shm \<Rightarrow> shm" where
  "see_era c ref_info s =
     (if era (uint (cl_thread_id c)) (saw_cid ref_info) s < saw_era ref_info
      then set_era (uint (cl_thread_id c)) (saw_cid ref_info) (saw_era ref_info) s else s)"

text \<open>The store of a redo record in the slot \<open>cur_era & (REDO_CACHELINE_CNT - 1)\<close>.\<close>

definition redo_slot :: "u32 \<Rightarrow> nat" where
  "redo_slot cur_era = unat (cur_era AND (of_nat REDO_CACHELINE_CNT - 1))"

definition write_redo :: "client \<Rightarrow> u32 \<Rightarrow> redo_log \<Rightarrow> shm \<Rightarrow> shm" where
  "write_redo c cur_era r s =
     upd_tls (cl_tls_offset c) (\<lambda>t. t\<lparr>tls_redo := (tls_redo t)(redo_slot cur_era := r)\<rparr>) s"

definition link_reference :: "client \<Rightarrow> u64 \<Rightarrow> u64 \<Rightarrow> shm \<Rightarrow> shm" where
  "link_reference c ref refed s =
     (let ref_info = cell s (obj_info refed);
          cnt = ref_info_cnt ref_info;
          cur_era = own_era c s;
          s = see_era c ref_info s;
          s = write_redo c cur_era \<lparr>rl_func_id = LINK_REF, rl_saved_ref_cnt = cnt,
                rl_cur_era = cur_era, rl_ref = ref, rl_refed = refed, rl_old_refed = 0\<rparr> s;
          new_ref_info = pack_ref_info (ucast (cl_thread_id c)) (ucast cnt + 1) cur_era;
          s = set_cell (obj_info refed) new_ref_info s;
          s = set_cell ref refed s
      in bump_era c s)"

text \<open>\<open>unlink_reference\<close> up to the test of the count it replaced, and with the release it may end in.\<close>

definition unlink_commit :: "client \<Rightarrow> u64 \<Rightarrow> u64 \<Rightarrow> shm \<Rightarrow> shm" where
  "unlink_commit c ref refed s =
     (let ref_info = cell s (obj_info refed);
          cnt = ref_info_cnt ref_info;
          s = see_era c ref_info s;
          cur_era = own_era c s;
          s = write_redo c cur_era \<lparr>rl_func_id = UNLINK_REF, rl_saved_ref_cnt = cnt,
                rl_cur_era = cur_era, rl_ref = ref, rl_refed = refed, rl_old_refed = 0\<rparr> s;
          new_ref_info = pack_ref_info (ucast (cl_thread_id c)) (ucast cnt - 1) cur_era;
          s = set_cell (obj_info refed) new_ref_info s;
          s = set_cell ref 0 s
      in bump_era c s)"

definition unlink_reference :: "client \<Rightarrow> u64 \<Rightarrow> u64 \<Rightarrow> shm \<Rightarrow> shm option" where
  "unlink_reference c ref refed s =
     (let ref_info = cell s (obj_info refed);
          s = unlink_commit c ref refed s
      in if get_ref_cnt_from_info ref_info - 1 > 0 then Some s else cxl_free c False refed s)"

text \<open>
  \<open>test_free\<close> on a reference cell (\<open>Inl\<close>), and its loop over the embedded references of an object
  from index \<open>i\<close> on (\<open>Inr\<close>). \<open>None\<close> is a run that does not return.
\<close>

partial_function (option) test_free_at :: "client \<Rightarrow> u64 + u64 \<times> u64 \<Rightarrow> shm \<Rightarrow> shm option" where
  "test_free_at c w s =
     (case w of
        Inl ref \<Rightarrow>
          (let refed = cell s ref
           in if refed = 0 then Some s
              else if get_ref_cnt_from_info (cell s (obj_info refed)) - 1 > 0
              then unlink_reference c ref refed s
              else do {
                     s \<leftarrow> test_free_at c (Inr (refed, 0)) s;
                     unlink_reference c ref (cell s ref) s
                   })
      | Inr (refed, i) \<Rightarrow>
          if i < cell s (obj_emb refed)
          then do {
                 s \<leftarrow> test_free_at c (Inl (refed + (sizeof_CXLObj + i * 8))) s;
                 test_free_at c (Inr (refed, i + 1)) s
               }
          else Some s)"

definition test_free :: "client \<Rightarrow> u64 \<Rightarrow> shm \<Rightarrow> shm option" where
  "test_free c ref s = test_free_at c (Inl ref) s"

text \<open>\<open>get_ref\<close>: a second root reference to the object at an offset.\<close>

definition get_ref :: "client \<Rightarrow> u64 \<Rightarrow> shm \<Rightarrow> (cxl_ref \<times> shm) option" where
  "get_ref c off s =
     do {
       (tbr, s) \<leftarrow> thread_base_ref_alloc c s;
       t \<leftarrow> tbr;
       let s = link_reference c t off s;
       let s = set_cell (t + 8) (set_tbr_ref_cnt (get_tbr_ref_cnt (cell s (t + 8)) + 1)
                 (cell s (t + 8))) s;
       Some (\<lparr>ref_tbr = t, ref_data = cell s t + sizeof_CXLObj\<rparr>, s)
     }"

section \<open>The era matrix\<close>

text \<open>A thread id the matrix has a row and a column for.\<close>

definition valid_id :: "int \<Rightarrow> bool" where
  "valid_id x \<longleftrightarrow> 1 \<le> x \<and> x \<le> int MAX_THREAD"

lemma era_idx_inject:
  assumes "valid_id y" "valid_id y'"
  shows "era_idx x y = era_idx x' y' \<longleftrightarrow> x = x' \<and> y = y'"
proof
  assume eq: "era_idx x y = era_idx x' y'"
  let ?n = "int MAX_THREAD"
  have y: "0 \<le> y - 1" "y - 1 < ?n" "0 \<le> y' - 1" "y' - 1 < ?n"
    using assms by (simp_all add: valid_id_def)
  have "((x - 1) * ?n + (y - 1)) div ?n = x - 1" "((x' - 1) * ?n + (y' - 1)) div ?n = x' - 1"
    using y by simp_all
  with eq have "x - 1 = x' - 1" unfolding era_idx_def by metis
  then have "x = x'" by simp
  with eq show "x = x' \<and> y = y'" by (simp add: era_idx_def)
qed simp

lemma era_set_era:
  "valid_id y \<Longrightarrow> valid_id y' \<Longrightarrow>
     era x y (set_era x' y' v s) = (if x = x' \<and> y = y' then v else era x y s)"
  by (simp add: era_def state_simps era_idx_inject)

lemma era_frame [state_simps]:
  "era x y (set_cell a v s) = era x y s" "era x y (upd_tls t h s) = era x y s"
  "era x y (upd_page p f s) = era x y s" "era x y (upd_sas i g s) = era x y s"
  "era x y (clear_cells a n s) = era x y s" "era x y (write_redo c e r s) = era x y s"
  by (simp_all add: era_def state_simps write_redo_def)

text \<open>What the client's row is worth: no object carries an era of its own that is ahead of it.\<close>

definition era_ok :: "client \<Rightarrow> u64 \<Rightarrow> shm \<Rightarrow> bool" where
  "era_ok c w s \<longleftrightarrow> valid_id (uint (cl_thread_id c)) \<and> valid_id (saw_cid w) \<and>
     (saw_cid w = uint (cl_thread_id c) \<longrightarrow> saw_era w \<le> own_era c s)"

lemma own_era_see:
  assumes "era_ok c w s"
  shows "own_era c (see_era c w s) = own_era c s"
  using assms by (auto simp: see_era_def own_era_def era_set_era era_ok_def)

lemma see_era_sel [state_simps]:
  "cell (see_era c w s) = cell s" "page (see_era c w s) = page s"
  "segment (see_era c w s) = segment s" "sas (see_era c w s) = sas s"
  "tls (see_era c w s) = tls s" "get_pq q (see_era c w s) = get_pq q s"
  by (simp_all add: see_era_def state_simps)

lemma write_redo_sel [state_simps]:
  "cell (write_redo c e r s) = cell s" "page (write_redo c e r s) = page s"
  "segment (write_redo c e r s) = segment s" "sas (write_redo c e r s) = sas s"
  "era_tab (write_redo c e r s) = era_tab s" "get_pq q (write_redo c e r s) = get_pq q s"
  "own_era c (write_redo c e r s) = own_era c s"
  by (cases "(q, s)" rule: get_pq.cases; simp add: write_redo_def state_simps own_era_def era_def)+

section \<open>What a link and an unlink do\<close>

text \<open>The count of an object, and the conditions under which its packed word keeps its fields apart.\<close>

definition obj_cnt :: "u64 \<Rightarrow> shm \<Rightarrow> nat" where
  "obj_cnt b s = unat (get_ref_cnt_from_info (cell s (obj_info b)))"

lemma obj_cnt_bound: "obj_cnt b s < 2 ^ 16"
  unfolding obj_cnt_def by (rule get_ref_cnt_bound)

lemma unat_ref_info_cnt: "unat (ref_info_cnt w) = unat (get_ref_cnt_from_info w)"
  using get_ref_cnt_bound[of w]
  by (simp add: ref_info_cnt_def unsigned_ucast_eq take_bit_nat_eq_self)

lemma ucast_ref_info_cnt: "(ucast (ref_info_cnt w) :: u64) = get_ref_cnt_from_info w"
proof -
  have "unat (ucast (ref_info_cnt w) :: u64) = unat (ref_info_cnt w)"
    using unsigned_less[of "ref_info_cnt w", where 'a = nat]
    by (simp add: unsigned_ucast_eq take_bit_nat_eq_self)
  then show ?thesis by (simp add: word_unat_eq_iff unat_ref_info_cnt)
qed

definition commit_word :: "client \<Rightarrow> u64 \<Rightarrow> u32 \<Rightarrow> u64" where
  "commit_word c n e = pack_ref_info (ucast (cl_thread_id c)) n e"

lemma unat_ucast_tid: "unat (ucast (t :: u32) :: u64) = unat t"
  by (rule unat_ucast_32_64)

lemma commit_word_fields:
  assumes "valid_id (uint (cl_thread_id c))" "unat n < 2 ^ 16"
  shows "get_ref_cnt_from_info (commit_word c n e) = n"
    "saw_cid (commit_word c n e) = uint (cl_thread_id c)" "saw_era (commit_word c n e) = e"
proof -
  have "int (unat (cl_thread_id c)) = uint (cl_thread_id c)" by simp
  then have "unat (cl_thread_id c) \<le> MAX_THREAD"
    using assms(1) unfolding valid_id_def by linarith
  then have tid: "unat (ucast (cl_thread_id c) :: u64) < 2 ^ 16"
    by (simp add: unat_ucast_tid layout_simps)
  note f = pack_ref_info_fields[OF tid assms(2), of e]
  show "get_ref_cnt_from_info (commit_word c n e) = n"
    by (simp add: commit_word_def f)
  show "saw_cid (commit_word c n e) = uint (cl_thread_id c)"
    by (simp add: commit_word_def saw_cid_def f ucast_u32_up_down)
  show "saw_era (commit_word c n e) = e"
    by (simp add: commit_word_def saw_era_def f ucast_u32_up_down)
qed

lemma link_reference_sel:
  "cell (link_reference c ref refed s) = (cell s)
     (obj_info refed := commit_word c (get_ref_cnt_from_info (cell s (obj_info refed)) + 1) (own_era c s),
      ref := refed)"
  "page (link_reference c ref refed s) = page s"
  "segment (link_reference c ref refed s) = segment s" "sas (link_reference c ref refed s) = sas s"
  "get_pq q (link_reference c ref refed s) = get_pq q s"
  by (simp_all add: link_reference_def Let_def state_simps ucast_ref_info_cnt commit_word_def)

lemma unlink_commit_sel:
  "era_ok c (cell s (obj_info refed)) s \<Longrightarrow> cell (unlink_commit c ref refed s) = (cell s)
     (obj_info refed := commit_word c (get_ref_cnt_from_info (cell s (obj_info refed)) - 1) (own_era c s),
      ref := 0)"
  "page (unlink_commit c ref refed s) = page s"
  "segment (unlink_commit c ref refed s) = segment s" "sas (unlink_commit c ref refed s) = sas s"
  "get_pq q (unlink_commit c ref refed s) = get_pq q s"
  by (simp_all add: unlink_commit_def Let_def state_simps ucast_ref_info_cnt commit_word_def
      own_era_see)

text \<open>The row of the client afterwards: one more era of its own, and the last committer seen.\<close>

lemma bump_see_era:
  assumes "era_ok c w s"
  shows "own_era c (bump_era c (see_era c w s)) = own_era c s + 1"
    and "saw_cid w \<noteq> uint (cl_thread_id c) \<Longrightarrow>
      era (uint (cl_thread_id c)) (saw_cid w) (bump_era c (see_era c w s)) =
      max (saw_era w) (era (uint (cl_thread_id c)) (saw_cid w) s)"
    and "x \<noteq> uint (cl_thread_id c) \<Longrightarrow> valid_id y \<Longrightarrow> era x y (bump_era c (see_era c w s)) = era x y s"
  using assms own_era_see[OF assms]
  by (auto simp: state_simps bump_era_def see_era_def era_set_era era_ok_def own_era_def max_def)

lemma link_reference_era:
  "era_tab (link_reference c ref refed s) =
     era_tab (bump_era c (see_era c (cell s (obj_info refed)) s))"
  by (simp add: link_reference_def Let_def bump_era_def state_simps set_era_def own_era_def era_def
      write_redo_def)

lemma unlink_commit_era:
  "era_tab (unlink_commit c ref refed s) =
     era_tab (bump_era c (see_era c (cell s (obj_info refed)) s))"
  by (simp add: unlink_commit_def Let_def bump_era_def state_simps set_era_def own_era_def era_def
      write_redo_def)

lemma own_era_tab: "era_tab s = era_tab s' \<Longrightarrow> own_era c s = own_era c s'"
  by (simp add: own_era_def era_def)

section \<open>Counting\<close>

lemma unat_inc: "unat (w :: u64) < 65535 \<Longrightarrow> unat (w + 1) = unat w + 1"
  by (simp add: unat_word_ariths)

lemma unat_dec: "0 < unat (w :: u64) \<Longrightarrow> unat (w - 1) = unat w - 1"
  by (rule unat_minus_one) auto

lemma link_reference_count:
  assumes ok: "era_ok c (cell s (obj_info b)) s" and cnt: "obj_cnt b s < 65535"
    and apart: "ref \<noteq> obj_info b"
  shows "obj_cnt b (link_reference c ref b s) = obj_cnt b s + 1"
    "cell (link_reference c ref b s) ref = b"
    "saw_cid (cell (link_reference c ref b s) (obj_info b)) = uint (cl_thread_id c)"
    "saw_era (cell (link_reference c ref b s) (obj_info b)) = own_era c s"
    "own_era c (link_reference c ref b s) = own_era c s + 1"
    "\<forall>x. x \<notin> {ref, obj_info b} \<longrightarrow> cell (link_reference c ref b s) x = cell s x"
proof -
  have id: "valid_id (uint (cl_thread_id c))" using ok by (simp add: era_ok_def)
  let ?n = "get_ref_cnt_from_info (cell s (obj_info b))"
  have n: "unat (?n + 1) = unat ?n + 1" using cnt by (intro unat_inc) (simp add: obj_cnt_def)
  then have small: "unat (?n + 1) < 2 ^ 16" using cnt by (simp add: obj_cnt_def)
  note f = commit_word_fields[OF id small]
  show "obj_cnt b (link_reference c ref b s) = obj_cnt b s + 1"
    using apart n by (simp add: obj_cnt_def link_reference_sel f)
  show "cell (link_reference c ref b s) ref = b"
    "saw_cid (cell (link_reference c ref b s) (obj_info b)) = uint (cl_thread_id c)"
    "saw_era (cell (link_reference c ref b s) (obj_info b)) = own_era c s"
    "\<forall>x. x \<notin> {ref, obj_info b} \<longrightarrow> cell (link_reference c ref b s) x = cell s x"
    using apart by (simp_all add: link_reference_sel f)
  show "own_era c (link_reference c ref b s) = own_era c s + 1"
    using own_era_tab[OF link_reference_era] bump_see_era(1)[OF ok] by metis
qed

lemma unlink_commit_count:
  assumes ok: "era_ok c (cell s (obj_info b)) s" and cnt: "0 < obj_cnt b s"
    and apart: "ref \<noteq> obj_info b"
  shows "obj_cnt b (unlink_commit c ref b s) = obj_cnt b s - 1"
    "cell (unlink_commit c ref b s) ref = 0"
    "saw_cid (cell (unlink_commit c ref b s) (obj_info b)) = uint (cl_thread_id c)"
    "saw_era (cell (unlink_commit c ref b s) (obj_info b)) = own_era c s"
    "own_era c (unlink_commit c ref b s) = own_era c s + 1"
    "\<forall>x. x \<notin> {ref, obj_info b} \<longrightarrow> cell (unlink_commit c ref b s) x = cell s x"
proof -
  have id: "valid_id (uint (cl_thread_id c))" using ok by (simp add: era_ok_def)
  let ?n = "get_ref_cnt_from_info (cell s (obj_info b))"
  have n: "unat (?n - 1) = unat ?n - 1" using cnt by (intro unat_dec) (simp add: obj_cnt_def)
  then have small: "unat (?n - 1) < 2 ^ 16" using obj_cnt_bound[of b s] by (simp add: obj_cnt_def)
  note f = commit_word_fields[OF id small]
  show "obj_cnt b (unlink_commit c ref b s) = obj_cnt b s - 1"
    using apart n by (simp add: obj_cnt_def unlink_commit_sel(1)[OF ok] f)
  show "cell (unlink_commit c ref b s) ref = 0"
    "saw_cid (cell (unlink_commit c ref b s) (obj_info b)) = uint (cl_thread_id c)"
    "saw_era (cell (unlink_commit c ref b s) (obj_info b)) = own_era c s"
    "\<forall>x. x \<notin> {ref, obj_info b} \<longrightarrow> cell (unlink_commit c ref b s) x = cell s x"
    using apart by (simp_all add: unlink_commit_sel(1)[OF ok] f)
  show "own_era c (unlink_commit c ref b s) = own_era c s + 1"
    using own_era_tab[OF unlink_commit_era] bump_see_era(1)[OF ok] by metis
qed

text \<open>The test that follows the exchange, on the count that was replaced.\<close>

lemma cnt_gt_one: "0 < obj_cnt b s \<Longrightarrow>
    get_ref_cnt_from_info (cell s (obj_info b)) - 1 > 0 \<longleftrightarrow> obj_cnt b s \<noteq> 1"
  using unat_dec[of "get_ref_cnt_from_info (cell s (obj_info b))"]
  by (auto simp: obj_cnt_def word_less_nat_alt)

lemma unlink_reference_cases:
  assumes "0 < obj_cnt b s"
  shows "unlink_reference c ref b s =
    (if obj_cnt b s = 1 then cxl_free c False b (unlink_commit c ref b s)
     else Some (unlink_commit c ref b s))"
  using cnt_gt_one[OF assms] by (simp add: unlink_reference_def)

text \<open>
  C39: A count of zero is not caught: the packed word borrows from the client id.
\<close>

lemma unlink_reference_zero:
  assumes ok: "era_ok c (cell s (obj_info b)) s" and cnt: "obj_cnt b s = 0"
    and apart: "ref \<noteq> obj_info b"
  shows "unlink_reference c ref b s = Some (unlink_commit c ref b s) \<and>
    cell (unlink_commit c ref b s) (obj_info b) =
       pack_ref_info (ucast (cl_thread_id c) - 1) 0xFFFF (own_era c s)"
proof (intro conjI)
  have n: "get_ref_cnt_from_info (cell s (obj_info b)) = 0"
    using cnt by (simp add: obj_cnt_def word_unat_eq_iff)
  show "unlink_reference c ref b s = Some (unlink_commit c ref b s)"
    by (simp add: unlink_reference_def n word_greater_zero_iff Let_def)
  show "cell (unlink_commit c ref b s) (obj_info b) =
       pack_ref_info (ucast (cl_thread_id c) - 1) 0xFFFF (own_era c s)"
    using apart by (simp add: unlink_commit_sel(1)[OF ok] n commit_word_def
        pack_ref_info_underflow[simplified])
qed

text \<open>
  C38: Linking an object that is counted 65535 times sets the count to 0 and changes the committer
  in its word.
\<close>

lemma link_reference_overflow:
  assumes cnt: "obj_cnt b s = 65535" and apart: "ref \<noteq> obj_info b"
  shows "cell (link_reference c ref b s) (obj_info b) =
    pack_ref_info (ucast (cl_thread_id c) + 1) 0 (own_era c s)"
proof -
  have "get_ref_cnt_from_info (cell s (obj_info b)) = 0xFFFF"
    using cnt by (simp add: obj_cnt_def word_unat_eq_iff)
  then show ?thesis
    using apart by (simp add: link_reference_sel commit_word_def pack_ref_info_overflow[simplified])
qed

section \<open>Reference counting and the pages\<close>

lemma page_inv_set_cell:
  assumes "page_inv i k bs fs ls s" "a \<notin> set (fs @ ls)" "cell s' = (cell s)(a := v)" "page s' = page s"
  shows "page_inv i k bs fs ls s'"
  using assms by (subst page_inv_cong[where s = s]) auto

lemma obj_info_live:
  assumes inv: "page_inv i k bs fs ls s" and b: "b \<in> live_blocks i k bs fs ls" and bs: "24 \<le> unat bs"
  shows "obj_info b \<notin> set (fs @ ls)"
proof
  assume mem: "obj_info b \<in> set (fs @ ls)"
  note f = page_inv_facts[OF inv]
  have "b \<in> set (page_blocks (area_at (seg_at i) k) bs)" using b by (simp add: live_blocks_def)
  from block_offset_ne[OF this _ f(3), of "obj_info b" 8] mem f(4) bs show False
    by (auto simp: obj_info_def)
qed

lemma page_inv_two_cells:
  assumes "page_inv i k bs fs ls s" "cell s' = (cell s)(a := v, a' := v')" "page s' = page s"
    "a \<notin> set (fs @ ls)" "a' \<notin> set (fs @ ls)"
  shows "page_inv i k bs fs ls s'"
  using assms by (subst page_inv_cong[where s = s]) auto

lemma link_reference_page_inv:
  assumes inv: "page_inv i k bs fs ls s" "b \<in> live_blocks i k bs fs ls" "24 \<le> unat bs"
    and ref: "ref \<notin> set (fs @ ls)"
  shows "page_inv i k bs fs ls (link_reference c ref b s)"
  by (rule page_inv_two_cells[OF inv(1) link_reference_sel(1,2) obj_info_live[OF inv] ref])

lemma unlink_commit_page_inv:
  assumes inv: "page_inv i k bs fs ls s" "b \<in> live_blocks i k bs fs ls" "24 \<le> unat bs"
    and ref: "ref \<notin> set (fs @ ls)" and ok: "era_ok c (cell s (obj_info b)) s"
  shows "page_inv i k bs fs ls (unlink_commit c ref b s)"
  by (rule page_inv_two_cells[OF inv(1) unlink_commit_sel(1)[OF ok] unlink_commit_sel(2)
        obj_info_live[OF inv] ref])

text \<open>The last reference frees the block.\<close>

lemma unlink_reference_last:
  assumes inv: "page_inv i k bs fs ls s" "b \<in> live_blocks i k bs fs ls" "24 \<le> unat bs"
    and ref: "ref \<notin> set (fs @ ls)" "ref \<notin> {b, b + 8, b + 16}"
    and ok: "era_ok c (cell s (obj_info b)) s" and cnt: "obj_cnt b s = 1"
    and own: "owned_by c i s" and used: "pg_used (page s (meta_at (seg_at i) k)) \<noteq> 1"
  shows "\<exists>s'. unlink_reference c ref b s = Some s' \<and> page_inv i k bs fs (b # ls) s' \<and>
     cell s' ref = 0 \<and> obj_cnt b s' = 0 \<and> own_era c s' = own_era c s + 1 \<and>
     (\<forall>x. x \<notin> {ref, b, b + 8, b + 16} \<longrightarrow> cell s' x = cell s x) \<and>
     (\<forall>p. p \<noteq> meta_at (seg_at i) k \<longrightarrow> page s' p = page s p) \<and>
     segment s' = segment s \<and> sas s' = sas s"
proof -
  let ?u = "unlink_commit c ref b s"
  have uinv: "page_inv i k bs fs ls ?u" by (rule unlink_commit_page_inv[OF inv ref(1) ok])
  have fits: "clear_fits False bs" using inv(3) by (simp add: clear_fits_def clear_cnt_def)
  have pg: "page ?u = page s" "segment ?u = segment s" "sas ?u = sas s"
    by (simp_all add: unlink_commit_sel)
  obtain s' where s': "cxl_free c False b ?u = Some s'" "page_inv i k bs fs (b # ls) s'"
    "\<forall>x. (\<forall>j < clear_cnt False bs. x \<noteq> b + 8 * of_nat j) \<longrightarrow> cell s' x = cell ?u x"
    "\<forall>p. p \<noteq> meta_at (seg_at i) k \<longrightarrow> page s' p = page s p"
    "segment s' = segment s" "sas s' = sas s" "era_tab s' = era_tab ?u"
    "\<forall>j < clear_cnt False bs. 0 < j \<longrightarrow> cell s' (b + 8 * of_nat j) = 0"
    using cxl_free_local[OF uinv inv(2) _ fits] own used unfolding owned_by_def pg by blast
  have frame: "cell s' x = cell ?u x" if "x \<notin> {b, b + 8, b + 16}" for x
  proof -
    have "x \<noteq> b + 8 * of_nat j" if "j < 3" for j
    proof -
      have "j \<in> {0, 1, 2}" using that by auto
      then show ?thesis using \<open>x \<notin> {b, b + 8, b + 16}\<close> by auto
    qed
    then show ?thesis using s'(3) by (simp add: clear_cnt_def)
  qed
  have info: "obj_info b \<noteq> ref" using ref(2) by (auto simp: obj_info_def)
  have "cell s' ref = 0"
    using frame[OF ref(2)] unlink_commit_count(2)[OF ok _ info[symmetric]] cnt by simp
  moreover have "own_era c s' = own_era c s + 1"
    using own_era_tab[OF s'(7)] unlink_commit_count(5)[OF ok _ info[symmetric]] cnt by simp
  moreover have "cell s' x = cell s x" if "x \<notin> {ref, b, b + 8, b + 16}" for x
    using frame[of x] that unlink_commit_count(6)[OF ok _ info[symmetric]] cnt
    by (simp add: obj_info_def)
  moreover have "unlink_reference c ref b s = Some s'"
    using s'(1) cnt by (simp add: unlink_reference_cases)
  moreover have "obj_cnt b s' = 0"
    using s'(8)[rule_format, of 1]
    by (simp add: obj_cnt_def obj_info_def clear_cnt_def get_ref_cnt_from_info_def)
  ultimately show ?thesis using s' by blast
qed

section \<open>\<open>test_free\<close>\<close>

lemma test_free_null: "cell s ref = 0 \<Longrightarrow> test_free c ref s = Some s"
  by (simp add: test_free_def test_free_at.simps)

lemma test_free_shared:
  assumes "cell s ref = b" "b \<noteq> 0" "1 < obj_cnt b s"
  shows "test_free c ref s = Some (unlink_commit c ref b s)"
  using assms cnt_gt_one[of b s] unlink_reference_cases[of b s c ref]
  by (simp add: test_free_def test_free_at.simps)

text \<open>The last reference of an object without embedded references.\<close>

lemma test_free_leaf:
  assumes "cell s ref = b" "b \<noteq> 0" "obj_cnt b s = 1" "cell s (obj_emb b) = 0"
  shows "test_free c ref s = unlink_reference c ref b s"
  using assms cnt_gt_one[of b s]
  by (simp add: test_free_def test_free_at.simps[of c "Inl ref"] test_free_at.simps[of c "Inr _"])

text \<open>
  The last reference of an object with embedded references: the references go first, in order, and
  the object last. \<open>free_embedded c b n s\<close> runs \<open>test_free\<close> on the first \<open>n\<close> of them.
\<close>

primrec free_from :: "client \<Rightarrow> u64 \<Rightarrow> u64 \<Rightarrow> nat \<Rightarrow> shm \<Rightarrow> shm option" where
  "free_from c b i 0 s = Some s"
| "free_from c b i (Suc n) s =
     do { s \<leftarrow> test_free c (b + (sizeof_CXLObj + i * 8)) s; free_from c b (i + 1) n s }"

text \<open>As long as the frees of the references leave \<open>embedded_ref_cnt\<close> alone, the loop is that fold.\<close>

lemma test_free_loop_eq:
  assumes "unat i + n = unat e" "cell s (obj_emb b) = e"
    and "\<And>j s s'. cell s (obj_emb b) = e \<Longrightarrow> test_free c (b + (sizeof_CXLObj + j * 8)) s = Some s' \<Longrightarrow>
      cell s' (obj_emb b) = e"
  shows "test_free_at c (Inr (b, i)) s = free_from c b i n s"
  using assms(1,2)
proof (induction n arbitrary: i s)
  case 0
  then have "\<not> i < e" by (simp add: word_less_nat_alt)
  then show ?case using 0 by (simp add: test_free_at.simps)
next
  case (Suc n)
  have lt: "i < e" using Suc.prems by (simp add: word_less_nat_alt)
  have "unat i + 1 < 2 ^ 64"
    using Suc.prems(1) unsigned_less[of e, where 'a = nat] by simp
  then have "unat (i + 1) = unat i + 1" using unat_add_small[of i 1] by simp
  then have "unat (i + 1) + n = unat e" using Suc.prems by simp
  note IH = Suc.IH[OF this]
  have "test_free_at c (Inr (b, i)) s =
      do { s \<leftarrow> test_free c (b + (sizeof_CXLObj + i * 8)) s; test_free_at c (Inr (b, i + 1)) s }"
    using lt Suc.prems(2) unfolding test_free_def
    by (subst test_free_at.simps) simp
  also have "\<dots> = free_from c b i (Suc n) s"
    using IH assms(3) Suc.prems(2)
    by (cases "test_free c (b + (sizeof_CXLObj + i * 8)) s") auto
  finally show ?case .
qed

end
