(* ===== verification/Cxl_Ref.thy ===== *)
theory Cxl_Ref
  imports Ref_Count
begin

text \<open>
  The handle class \<open>CXLRef\<close> (\<open>src/cxl_ref.cpp\<close>): a pair of offsets with reference semantics. Copies
  share the root reference and count themselves in its \<open>ref_cnt\<close>; the destructor of the last copy
  releases the object and the root reference.
\<close>

section \<open>Operations\<close>

definition get_addr :: "cxl_ref \<Rightarrow> u64 option" where
  "get_addr r = (if ref_data r = 0 then None else Some (ref_data r))"

definition get_tbr :: "cxl_ref \<Rightarrow> u64 option" where
  "get_tbr r = (if ref_tbr r = 0 then None else Some (ref_tbr r))"

definition incr_tbr :: "u64 \<Rightarrow> shm \<Rightarrow> shm" where
  "incr_tbr t s = set_cell (t + 8)
     (set_tbr_ref_cnt (get_tbr_ref_cnt (cell s (t + 8)) + 1) (cell s (t + 8))) s"

text \<open>The copy constructor and the copy assignment; the old value of the target is not released.\<close>

definition ref_copy :: "cxl_ref \<Rightarrow> shm \<Rightarrow> cxl_ref \<times> shm" where
  "ref_copy r s = (r, if ref_tbr r \<noteq> 0 then incr_tbr (ref_tbr r) s else s)"

definition ref_assign :: "cxl_ref \<Rightarrow> cxl_ref \<Rightarrow> shm \<Rightarrow> cxl_ref \<times> shm" where
  "ref_assign this r s = (r, if ref_tbr r \<noteq> 0 then incr_tbr (ref_tbr r) s else s)"

text \<open>The move constructor and the move assignment; the source is \<open>const\<close> and keeps its offsets.\<close>

definition ref_move :: "cxl_ref \<Rightarrow> cxl_ref \<times> cxl_ref" where
  "ref_move r = (r, r)"

definition ref_move_assign :: "cxl_ref \<Rightarrow> cxl_ref \<Rightarrow> cxl_ref \<times> cxl_ref" where
  "ref_move_assign this r = (r, r)"

definition ref_drop :: "client \<Rightarrow> cxl_ref \<Rightarrow> shm \<Rightarrow> (cxl_ref \<times> shm) option" where
  "ref_drop c r s =
     (if ref_tbr r = 0 \<and> ref_data r = 0 then Some (r, s)
      else (let t = ref_tbr r;
                s = set_cell (t + 8)
                      (set_tbr_ref_cnt (get_tbr_ref_cnt (cell s (t + 8)) - 1) (cell s (t + 8))) s
            in if get_tbr_ref_cnt (cell s (t + 8)) \<noteq> 0 then Some (r, s)
               else do {
                      s \<leftarrow> test_free c t s;
                      let s = set_cell (t + 8) (set_in_use 0 (cell s (t + 8))) s;
                      s \<leftarrow> cxl_free c True t s;
                      Some (\<lparr>ref_tbr = 0, ref_data = 0\<rparr>, s)
                    }))"

section \<open>Sharing a root reference\<close>

text \<open>The number of live copies of a handle that the root reference knows of.\<close>

definition handles :: "u64 \<Rightarrow> shm \<Rightarrow> nat" where
  "handles t s = unat (get_tbr_ref_cnt (cell s (t + 8)))"

lemma incr_tbr_sel [state_simps]:
  "page (incr_tbr t s) = page s" "segment (incr_tbr t s) = segment s" "sas (incr_tbr t s) = sas s"
  "era_tab (incr_tbr t s) = era_tab s" "tls (incr_tbr t s) = tls s"
  "cell (incr_tbr t s) = (cell s)
     (t + 8 := set_tbr_ref_cnt (get_tbr_ref_cnt (cell s (t + 8)) + 1) (cell s (t + 8)))"
  by (simp_all add: incr_tbr_def state_simps)

lemma ref_copy_handles:
  assumes "ref_tbr r \<noteq> 0" "handles (ref_tbr r) s < 65535"
  shows "handles (ref_tbr r) (snd (ref_copy r s)) = handles (ref_tbr r) s + 1"
  using assms by (simp add: ref_copy_def handles_def state_simps unat_word_ariths)

text \<open>Dropping a copy that is not the last one changes the handle count only.\<close>

lemma ref_drop_shared:
  assumes "ref_tbr r \<noteq> 0" "1 < handles (ref_tbr r) s"
  shows "\<exists>s'. ref_drop c r s = Some (r, s') \<and> handles (ref_tbr r) s' = handles (ref_tbr r) s - 1 \<and>
     (\<forall>x. x \<noteq> ref_tbr r + 8 \<longrightarrow> cell s' x = cell s x) \<and> page s' = page s \<and> segment s' = segment s \<and>
     sas s' = sas s \<and> era_tab s' = era_tab s \<and> tls s' = tls s"
proof -
  let ?n = "get_tbr_ref_cnt (cell s (ref_tbr r + 8))"
  have "unat (?n - 1) = unat ?n - 1" using assms(2) by (intro unat_minus_one) (auto simp: handles_def)
  moreover from this have "?n - 1 \<noteq> 0" using assms(2) by (auto simp: handles_def)
  ultimately show ?thesis
    using assms(1) by (auto simp: ref_drop_def Let_def state_simps handles_def)
qed

text \<open>
  A copy that is dropped leaves everything as it was before the copy.
\<close>

lemma copy_drop_id:
  assumes "ref_tbr r \<noteq> 0" "0 < handles (ref_tbr r) s" "handles (ref_tbr r) s < 65535"
  shows "\<exists>s'. ref_drop c r (snd (ref_copy r s)) = Some (r, s') \<and>
     handles (ref_tbr r) s' = handles (ref_tbr r) s \<and>
     (\<forall>x. x \<noteq> ref_tbr r + 8 \<longrightarrow> cell s' x = cell s x) \<and> page s' = page s \<and> segment s' = segment s \<and>
     sas s' = sas s \<and> era_tab s' = era_tab s \<and> tls s' = tls s"
proof -
  have n: "handles (ref_tbr r) (snd (ref_copy r s)) = handles (ref_tbr r) s + 1"
    by (rule ref_copy_handles[OF assms(1,3)])
  then have "1 < handles (ref_tbr r) (snd (ref_copy r s))" using assms(2) by simp
  from ref_drop_shared[OF assms(1) this, of c] show ?thesis
    using n assms(1) by (auto simp: ref_copy_def state_simps)
qed

section \<open>Dropping the last handle\<close>

lemma block_cells_in_page:
  assumes inv: "page_inv i k bs fs ls s" and b: "b \<in> live_blocks i k bs fs ls" and "8 * n \<le> unat bs"
    and "j < n"
  shows "in_page i k (b + 8 * of_nat j)"
proof -
  note f = page_inv_facts[OF inv]
  have "b \<in> set (page_blocks (area_at (seg_at i) k) bs)" using b by (simp add: live_blocks_def)
  from block_in_page[OF this f(3,1,2), of "8 * j"] show ?thesis using assms(3,4) by simp
qed

lemma in_page_nonnull: "in_page i k x \<Longrightarrow> x \<noteq> 0"
  by (auto simp: in_page_def unat_area_at unat_seg_at)

lemma lists_in_page:
  assumes "page_inv i k bs fs ls s" "x \<in> set (fs @ ls)"
  shows "in_page i k x"
  using page_inv_facts[OF assms(1)] assms(2) by (blast intro: block_in_page0)

text \<open>
  The last handle of an object that nothing else refers to: both the object's block and the root
  reference go back to the local lists of their pages.
\<close>

lemma ref_drop_last:
  assumes tinv: "page_inv i k 16 ts lt s" "t \<in> live_blocks i k 16 ts lt"
    and oinv: "page_inv i' k' bs fs lb s" "b \<in> live_blocks i' k' bs fs lb" "24 \<le> unat bs"
    and diff: "(i, k) \<noteq> (i', k')" and own: "owned_by c i s" "owned_by c i' s"
    and used: "pg_used (page s (meta_at (seg_at i) k)) \<noteq> 1"
    "pg_used (page s (meta_at (seg_at i') k')) \<noteq> 1"
    and ref: "cell s t = b" "handles t s = 1" "obj_cnt b s = 1" "cell s (obj_emb b) = 0"
    and ok: "era_ok c (cell s (obj_info b)) s"
  shows "\<exists>s'. ref_drop c \<lparr>ref_tbr = t, ref_data = b + sizeof_CXLObj\<rparr> s =
       Some (\<lparr>ref_tbr = 0, ref_data = 0\<rparr>, s') \<and>
     page_inv i k 16 ts (t # lt) s' \<and> page_inv i' k' bs fs (b # lb) s' \<and>
     own_era c s' = own_era c s + 1 \<and> cell s' (t + 8) = 0 \<and>
     (\<forall>x. x \<notin> {t, t + 8, b, b + 8, b + 16} \<longrightarrow> cell s' x = cell s x) \<and>
     segment s' = segment s \<and> sas s' = sas s"
proof -
  let ?p = "meta_at (seg_at i) k" and ?p' = "meta_at (seg_at i') k'"
  note ft = page_inv_facts[OF tinv(1)] and fo = page_inv_facts[OF oinv(1)]
  have apart: "\<not> (in_page i k x \<and> in_page i' k' x)" for x using in_page_unique diff by blast
  have pp: "?p \<noteq> ?p'" using diff ft(1,2) fo(1,2) by (simp add: meta_at_segment_inject)
  have tc: "in_page i k t" "in_page i k (t + 8)"
    using block_cells_in_page[OF tinv, of 2 0] block_cells_in_page[OF tinv, of 2 1] by simp_all
  have bc: "in_page i' k' b" "in_page i' k' (b + 8)" "in_page i' k' (b + 16)"
    using block_cells_in_page[OF oinv(1,2), of 3 0] block_cells_in_page[OF oinv(1,2), of 3 1]
      block_cells_in_page[OF oinv(1,2), of 3 2] oinv(3) by simp_all
  have ne: "t \<notin> {b, b + 8, b + 16}" "t + 8 \<notin> {b, b + 8, b + 16}"
    using tc bc apart unfolding insert_iff empty_iff by metis+
  have t0: "t \<noteq> 0" and b0: "b \<noteq> 0" by (rule in_page_nonnull[OF tc(1)] in_page_nonnull[OF bc(1)])+
  let ?r = "\<lparr>ref_tbr = t, ref_data = b + sizeof_CXLObj\<rparr>"
  let ?w = "set_tbr_ref_cnt (get_tbr_ref_cnt (cell s (t + 8)) - 1) (cell s (t + 8))"
  let ?s1 = "set_cell (t + 8) ?w s"
  have cnt0: "get_tbr_ref_cnt (cell ?s1 (t + 8)) = 0"
    using ref(2) by (simp add: state_simps handles_def word_unat_eq_iff[of _ 1])
  have t1: "page_inv i k 16 ts lt ?s1"
    using page_inv_live_write[OF tinv, of 8] by simp
  have o1: "page_inv i' k' bs fs lb ?s1"
    by (rule page_inv_frame[OF oinv(1)]) (use tc apart in \<open>auto simp: state_simps\<close>)
  have cells1: "cell ?s1 t = b" "obj_cnt b ?s1 = 1" "cell ?s1 (obj_emb b) = 0"
    "era_ok c (cell ?s1 (obj_info b)) ?s1"
    using ref(1,3,4) ok ne
    by (auto simp: state_simps obj_cnt_def obj_info_def obj_emb_def era_ok_def)
  have tout: "t \<notin> set (fs @ lb)" using lists_in_page[OF oinv(1)] tc(1) apart by blast
  obtain s2 where s2: "unlink_reference c t b ?s1 = Some s2" "page_inv i' k' bs fs (b # lb) s2"
    "cell s2 t = 0" "own_era c s2 = own_era c ?s1 + 1"
    "\<forall>x. x \<notin> {t, b, b + 8, b + 16} \<longrightarrow> cell s2 x = cell ?s1 x"
    "\<forall>p. p \<noteq> ?p' \<longrightarrow> page s2 p = page ?s1 p" "segment s2 = segment ?s1" "sas s2 = sas ?s1"
    using unlink_reference_last[OF o1 oinv(2,3) tout ne(1) cells1(4,2)] own(2) used(2)
    by (auto simp: owned_by_def state_simps)
  have free: "test_free c t ?s1 = Some s2"
    using test_free_leaf[OF cells1(1) b0 cells1(2,3)] s2(1) by simp
  have "x \<notin> {t, b, b + 8, b + 16}" if "x \<in> set (ts @ lt)" for x
    using that lists_in_page[OF tinv(1) that] tinv(2) bc apart by (auto simp: live_blocks_def)
  then have t2: "page_inv i k 16 ts lt s2"
    using t1 s2(5) s2(6)[rule_format, OF pp] by (subst page_inv_cong[where s = ?s1]) auto
  let ?s3 = "set_cell (t + 8) (set_in_use 0 (cell s2 (t + 8))) s2"
  have t3: "page_inv i k 16 ts lt ?s3"
    using page_inv_live_write[OF t2 tinv(2), of 8] by simp
  have o3: "page_inv i' k' bs fs (b # lb) ?s3"
    by (rule page_inv_frame[OF s2(2)]) (use tc apart in \<open>auto simp: state_simps\<close>)
  have own3: "owned_by c i ?s3" "pg_used (page ?s3 ?p) \<noteq> 1"
    using own(1) used(1) s2(6)[rule_format, OF pp] s2(7) by (simp_all add: owned_by_def state_simps)
  obtain s4 where s4: "cxl_free c True t ?s3 = Some s4" "page_inv i k 16 ts (t # lt) s4"
    "\<forall>x. (\<forall>j < clear_cnt True 16. x \<noteq> t + 8 * of_nat j) \<longrightarrow> cell s4 x = cell ?s3 x"
    "\<forall>p. p \<noteq> ?p \<longrightarrow> page s4 p = page ?s3 p" "segment s4 = segment ?s3" "sas s4 = sas ?s3"
    "era_tab s4 = era_tab ?s3" "\<forall>j < clear_cnt True 16. 0 < j \<longrightarrow> cell s4 (t + 8 * of_nat j) = 0"
    using cxl_free_local[OF t3 tinv(2) own3(1) _ own3(2), of True]
    by (auto simp: clear_fits_def clear_cnt_def)
  have frame: "cell s4 x = cell ?s3 x" if "x \<notin> {t, t + 8}" for x
    using s4(3) that by (auto simp: clear_cnt_def less_2_cases_iff)
  have o4: "page_inv i' k' bs fs (b # lb) s4"
  proof (rule page_inv_frame[OF o3])
    have "x \<notin> {t, t + 8}" if "in_page i' k' x" for x using that tc apart by blast
    then show "\<forall>x. in_page i' k' x \<longrightarrow> cell s4 x = cell ?s3 x" using frame by blast
    show "page_body (page s4 ?p') = page_body (page ?s3 ?p')" using s4(4) pp by simp
  qed
  have run: "ref_drop c ?r s = Some (\<lparr>ref_tbr = 0, ref_data = 0\<rparr>, s4)"
    using t0 cnt0 free s4(1) by (simp add: ref_drop_def Let_def)
  have "own_era c s4 = own_era c s + 1"
    using own_era_tab[OF s4(7)] s2(4) by (simp add: state_simps)
  moreover have "cell s4 (t + 8) = 0"
    using s4(8)[rule_format, of 1] by (simp add: clear_cnt_def)
  moreover have "cell s4 x = cell s x" if "x \<notin> {t, t + 8, b, b + 8, b + 16}" for x
    using frame[of x] s2(5) that by (auto simp: state_simps)
  ultimately show ?thesis using run s4(2,5,6) o4 s2(7,8) by (auto simp: state_simps)
qed

text \<open>
  A whole life: allocate an object, drop the handle. Both blocks end on the local free lists and the
  rest of the data area is as before.
\<close>

lemma used_not_one:
  assumes "page_inv i k bs fs ls s" "1 < block_cnt bs - length fs - length ls" "bs \<noteq> 0"
  shows "pg_used (page s (meta_at (seg_at i) k)) \<noteq> 1"
proof -
  have "block_cnt bs \<le> 2 ^ 16" unfolding block_cnt_def by simp
  then have "block_cnt bs - length fs - length ls < 2 ^ 32" by simp
  then have "unat (pg_used (page s (meta_at (seg_at i) k))) = block_cnt bs - length fs - length ls"
    using assms(1) by (simp add: page_inv_def unat_of_nat)
  then show ?thesis using assms(2) by auto
qed

text \<open>
  C14: a whole life on the fast path. The pages at the front of the two size classes have a free block at
  hand, and each has another block in use, so that no page is taken or given back. Then the allocation
  of an object without embedded references, followed by the destructor of its only handle, puts both
  blocks on the local free lists of their pages, costs two eras and changes only their cells.
\<close>

lemma malloc_drop:
  assumes tinv: "page_inv i k 16 (t # ts) lt s" and oinv: "page_inv i' k' bs (b # fs) lb s"
    and bs: "24 \<le> unat bs" and diff: "(i, k) \<noteq> (i', k')"
    and tfront: "queue_front (cl_tls_offset c, Bin 0) i k s"
    and bin: "cxl_page_queue False (n + sizeof_CXLObj) = Some j"
    and ofront: "queue_front (cl_tls_offset c, j) i' k' s"
    and own: "owned_by c i s" "owned_by c i' s"
    and tused: "1 < block_cnt 16 - length ts - length lt"
    and oused: "1 < block_cnt bs - length fs - length lb"
    and id: "valid_id (uint (cl_thread_id c))" and era: "own_era c s \<noteq> - 1"
  shows "\<exists>r s' s''. cxl_malloc c n 0 s = Some (r, s') \<and>
     ref_drop c r s' = Some (\<lparr>ref_tbr = 0, ref_data = 0\<rparr>, s'') \<and>
     page_inv i k 16 ts (t # lt) s'' \<and> page_inv i' k' bs fs (b # lb) s'' \<and>
     own_era c s'' = own_era c s + 2 \<and>
     (\<forall>x. x \<notin> {t, t + 8, b, b + 8, b + 16} \<longrightarrow> cell s'' x = cell s x)"
proof -
  obtain s' where s': "cxl_malloc c n 0 s = Some (\<lparr>ref_tbr = t, ref_data = b + sizeof_CXLObj\<rparr>, s')"
    "page_inv i k 16 ts lt s'" "page_inv i' k' bs fs lb s'"
    "cell s' t = b" "get_tbr_ref_cnt (cell s' (t + 8)) = 1"
    "cell s' (b + 8) = pack_ref_info (ucast (cl_thread_id c)) 1 (own_era c s)"
    "cell s' (b + 16) = 0" "own_era c s' = own_era c s + 1"
    "\<forall>x. x \<notin> {t, t + 8, b + 8, b + 16} \<longrightarrow> cell s' x = cell s x"
    "segment s' = segment s"
    using cxl_malloc_hit[OF tinv oinv bs diff tfront bin ofront, of 0] by auto
  have word: "cell s' (obj_info b) = commit_word c 1 (own_era c s)"
    using s'(6) by (simp add: obj_info_def commit_word_def)
  have f: "get_ref_cnt_from_info (commit_word c 1 e) = 1"
    "saw_cid (commit_word c 1 e) = uint (cl_thread_id c)" "saw_era (commit_word c 1 e) = e" for e
    by (rule commit_word_fields[OF id]; simp)+
  have "1 + own_era c s \<noteq> 0"
    using era by (metis add.commute add_diff_cancel_right' diff_0)
  then have "own_era c s \<le> own_era c s + 1"
    by (simp add: word_le_nat_alt unatSuc add.commute)
  then have ok: "era_ok c (cell s' (obj_info b)) s'"
    using id s'(8) by (simp add: era_ok_def word f)
  have cnt: "obj_cnt b s' = 1" by (simp add: obj_cnt_def word f)
  have h: "handles t s' = 1" using s'(5) by (simp add: handles_def)
  have emb: "cell s' (obj_emb b) = 0" using s'(7) by (simp add: obj_emb_def)
  have own': "owned_by c i s'" "owned_by c i' s'" using own s'(10) by (simp_all add: owned_by_def)
  have bs0: "bs \<noteq> 0" "(16 :: u64) \<noteq> 0" using bs by auto
  obtain s'' where s'': "ref_drop c \<lparr>ref_tbr = t, ref_data = b + sizeof_CXLObj\<rparr> s' =
       Some (\<lparr>ref_tbr = 0, ref_data = 0\<rparr>, s'')"
    "page_inv i k 16 ts (t # lt) s''" "page_inv i' k' bs fs (b # lb) s''"
    "own_era c s'' = own_era c s' + 1"
    "\<forall>x. x \<notin> {t, t + 8, b, b + 8, b + 16} \<longrightarrow> cell s'' x = cell s' x"
    using ref_drop_last[OF s'(2) page_inv_take(2)[OF tinv] s'(3) page_inv_take(2)[OF oinv] bs diff own'
        used_not_one[OF s'(2) tused bs0(2)] used_not_one[OF s'(3) oused bs0(1)] s'(4) h cnt emb ok]
    by auto
  have "own_era c s'' = own_era c s + 2" using s''(4) s'(8) by (simp add: add.assoc)
  then show ?thesis using s'(1,9) s'' by auto
qed

section \<open>Moved handles\<close>

text \<open>
  C35: A moved handle keeps its offsets, so its destructor runs on a root reference that may be
  free by then. After the last live handle was dropped, that destructor takes the count of the
  free block from 0 to 65535.
\<close>

lemma moved_drop:
  assumes "ref_tbr r \<noteq> 0" "cell s (ref_tbr r + 8) = 0"
  shows "\<exists>s'. ref_drop c (snd (ref_move r)) s = Some (r, s') \<and> handles (ref_tbr r) s' = 65535 \<and>
     cell s' (ref_tbr r + 8) \<noteq> cell s (ref_tbr r + 8)"
proof -
  have f: "get_tbr_ref_cnt 0 = 0" by (simp add: get_tbr_ref_cnt_def get_field_def)
  let ?w = "set_tbr_ref_cnt (- 1) 0"
  have w: "get_tbr_ref_cnt ?w = - 1" by simp
  have "get_tbr_ref_cnt ?w \<noteq> get_tbr_ref_cnt 0" unfolding w f by simp
  then have "?w \<noteq> 0" by metis
  moreover have "ref_drop c (snd (ref_move r)) s = Some (r, set_cell (ref_tbr r + 8) ?w s)"
    using assms by (simp add: ref_drop_def ref_move_def state_simps f)
  moreover have "unat (- 1 :: u16) = 65535" by (simp add: unsigned_minus_1_eq_mask mask_eq_exp_minus_1)
  ultimately show ?thesis
    using assms(2) by (simp add: handles_def state_simps)
qed

end
