(* ===== verification/Msg_Transfer.thy ===== *)
theory Msg_Transfer
  imports Cxl_Ref
begin

text \<open>
  Passing references between threads (\<open>src/transfer.cpp\<close>): a message queue is a ring of
  \<open>MESSAGE_BUFFER_SIZE\<close> cells that are themselves counted references, with one sender that owns
  \<open>end\<close> and one receiver that owns \<open>start\<close>. The lemmas relate the ring to the list of pending
  references, and count what sending and receiving do to the object.
\<close>

section \<open>Operations\<close>

definition cxl_wrap :: "cxl_ref \<Rightarrow> shm \<Rightarrow> u64 option" where
  "cxl_wrap r s = do { t \<leftarrow> get_tbr r; Some (cell s t) }"

definition mq_full :: "u64 \<Rightarrow> shm \<Rightarrow> bool" where
  "mq_full q s \<longleftrightarrow> cell s (mq_end q) + 1 = cell s (mq_start q) \<or>
     cell s (mq_end q) - cell s (mq_start q) = MESSAGE_BUFFER_SIZE - 1"

definition sent_to :: "client \<Rightarrow> u64 \<Rightarrow> cxl_ref \<Rightarrow> shm \<Rightarrow> (bool \<times> shm) option" where
  "sent_to c q r s =
     do {
       t \<leftarrow> get_tbr r;
       let off = cell s t;
       if mq_full q s then Some (False, s)
       else (let s = link_reference c (mq_slot q (cell s (mq_end q))) off s;
                 s = set_cell (mq_end q) ((cell s (mq_end q) + 1) mod MESSAGE_BUFFER_SIZE) s
             in Some (True, s))
     }"

text \<open>The first receive registers the queue with the receiver.\<close>

definition register_receiver :: "client \<Rightarrow> u64 \<Rightarrow> shm \<Rightarrow> shm" where
  "register_receiver c q s =
     (if get_receiver_id (cell s (mq_ids q)) = 0
      then (let s = set_cell (mq_receiver_next q) (tls_receiver_queue (tls s (cl_tls_offset c))) s;
                s = upd_tls (cl_tls_offset c) (\<lambda>t. t\<lparr>tls_receiver_queue := q\<rparr>) s
            in set_cell (mq_ids q) (set_receiver_id (ucast (cl_thread_id c)) (cell s (mq_ids q))) s)
      else s)"

definition cxl_unwrap :: "client \<Rightarrow> u64 \<Rightarrow> shm \<Rightarrow> (cxl_ref \<times> shm) option" where
  "cxl_unwrap c q s =
     (let s = register_receiver c q s
      in if cell s (mq_start q) = cell s (mq_end q) \<or> cell s (mq_slot q (cell s (mq_start q))) = 0
         then Some (\<lparr>ref_tbr = 0, ref_data = 0\<rparr>, s)
         else do {
                (tbr, s) \<leftarrow> thread_base_ref_alloc c s;
                t \<leftarrow> tbr;
                let s = link_reference c t (cell s (mq_slot q (cell s (mq_start q)))) s;
                let s = incr_tbr t s;
                let slot = mq_slot q (cell s (mq_start q));
                s \<leftarrow> unlink_reference c slot (cell s slot) s;
                let s = set_cell (mq_start q) ((cell s (mq_start q) + 1) mod MESSAGE_BUFFER_SIZE) s;
                Some (\<lparr>ref_tbr = t, ref_data = cell s t + sizeof_CXLObj\<rparr>, s)
              })"

definition create_msg_queue :: "client \<Rightarrow> u16 \<Rightarrow> shm \<Rightarrow> (u64 \<times> shm) option" where
  "create_msg_queue c dst_id s =
     do {
       (block, s) \<leftarrow> msg_queue_alloc c (ucast (cl_thread_id c)) dst_id s;
       q \<leftarrow> block;
       let s = set_cell (mq_sender_next q) (tls_sender_queue (tls s (cl_tls_offset c))) s;
       let s = upd_tls (cl_tls_offset c) (\<lambda>t. t\<lparr>tls_sender_queue := q\<rparr>) s;
       Some (q, s)
     }"

section \<open>Rings\<close>

text \<open>
  A ring of \<open>n\<close> slots with the indices \<open>h\<close> of the next element to take and \<open>t\<close> of the next slot to
  fill holds at most \<open>n - 1\<close> elements.
\<close>

definition ring_len :: "nat \<Rightarrow> nat \<Rightarrow> nat \<Rightarrow> nat" where
  "ring_len n h t = (if h \<le> t then t - h else t + n - h)"

definition ring_list :: "nat \<Rightarrow> nat \<Rightarrow> nat \<Rightarrow> (nat \<Rightarrow> 'a) \<Rightarrow> 'a list" where
  "ring_list n h t slot = map (\<lambda>j. slot ((h + j) mod n)) [0..<ring_len n h t]"

lemma ring_len_bound: "h < n \<Longrightarrow> t < n \<Longrightarrow> ring_len n h t < n"
  by (auto simp: ring_len_def)

lemma ring_idx: "(h :: nat) < n \<Longrightarrow> j < n \<Longrightarrow> (h + j) mod n = (if h + j < n then h + j else h + j - n)"
  by (simp add: le_mod_geq)

lemma ring_succ: "(h :: nat) < n \<Longrightarrow> (h + 1) mod n = (if h + 1 = n then 0 else h + 1)"
  by auto

lemma length_ring_list [simp]: "length (ring_list n h t slot) = ring_len n h t"
  by (simp add: ring_list_def)

lemma ring_full_iff:
  "h < n \<Longrightarrow> t < n \<Longrightarrow> ring_len n h t = n - 1 \<longleftrightarrow> (t + 1) mod n = h"
  by (auto simp: ring_len_def mod_if)

lemma ring_list_empty: "h < n \<Longrightarrow> t < n \<Longrightarrow> ring_list n h t slot = [] \<longleftrightarrow> h = t"
  by (auto simp: ring_list_def ring_len_def)

lemma ring_list_cong:
  assumes "\<And>j. j < ring_len n h t \<Longrightarrow> slot' ((h + j) mod n) = slot ((h + j) mod n)"
  shows "ring_list n h t slot' = ring_list n h t slot"
  using assms by (simp add: ring_list_def)

lemma ring_tail_index: "h < n \<Longrightarrow> t < n \<Longrightarrow> (h + ring_len n h t) mod n = t"
  by (simp add: ring_len_def)

lemma ring_not_tail:
  assumes "h < n" "t < n" "j < ring_len n h t"
  shows "(h + j) mod n \<noteq> t"
proof -
  have "j < n" using assms(3) ring_len_bound[OF assms(1,2)] by simp
  then show ?thesis
    unfolding ring_idx[OF assms(1) \<open>j < n\<close>]
    using assms by (simp add: ring_len_def split: if_splits; linarith)
qed

text \<open>Putting: the new element is the last of the list.\<close>

lemma ring_put:
  assumes "h < n" "t < n" "ring_len n h t \<noteq> n - 1"
  shows "ring_list n h ((t + 1) mod n) (slot(t := x)) = ring_list n h t slot @ [x]"
proof -
  have len: "ring_len n h ((t + 1) mod n) = Suc (ring_len n h t)"
    using assms ring_full_iff[OF assms(1,2)] by (auto simp: ring_len_def mod_if)
  have "ring_list n h t (slot(t := x)) = ring_list n h t slot"
    by (rule ring_list_cong) (simp add: ring_not_tail[OF assms(1,2)])
  then show ?thesis
    using ring_tail_index[OF assms(1,2)] unfolding ring_list_def len by simp
qed

text \<open>Taking: the first element leaves the list, whatever happens to its slot.\<close>

lemma ring_take:
  assumes "h < n" "t < n" "h \<noteq> t"
  shows "ring_list n h t slot = slot h # ring_list n ((h + 1) mod n) t (slot(h := x))"
proof -
  have len: "ring_len n h t = Suc (ring_len n ((h + 1) mod n) t)"
    unfolding ring_succ[OF assms(1)] using assms by (auto simp: ring_len_def)
  have idx: "(h + Suc j) mod n = ((h + 1) mod n + j) mod n" for j
    by (simp add: mod_simps)
  let ?h = "(h + 1) mod n"
  have h: "?h < n" using assms by simp
  have "(?h + j) mod n \<noteq> h" if "j < ring_len n ?h t" for j
  proof -
    have "j < n" using that ring_len_bound[OF h assms(2)] by simp
    have "j < ring_len n h t - 1" using that len by simp
    then have "j < (if h \<le> t then t - h else t + n - h) - 1" by (simp add: ring_len_def)
    then show ?thesis
      unfolding ring_idx[OF h \<open>j < n\<close>] unfolding ring_succ[OF assms(1)]
      using assms \<open>j < n\<close> by (simp split: if_splits; linarith)
  qed
  then have "ring_list n ((h + 1) mod n) t (slot(h := x)) = ring_list n ((h + 1) mod n) t slot"
    by (intro ring_list_cong) simp
  moreover have "[0..<ring_len n h t] = 0 # map Suc [0..<ring_len n ((h + 1) mod n) t]"
    unfolding len by (simp add: map_Suc_upt upt_conv_Cons del: upt_Suc)
  moreover have "(h + 0) mod n = h" using assms(1) by simp
  ultimately show ?thesis
    unfolding ring_list_def by (simp only: list.map map_map o_def idx)
qed

section \<open>The message queue as a list\<close>

definition mq_ok :: "u64 \<Rightarrow> shm \<Rightarrow> bool" where
  "mq_ok q s \<longleftrightarrow> unat (cell s (mq_start q)) < 16 \<and> unat (cell s (mq_end q)) < 16"

definition mq_pending :: "u64 \<Rightarrow> shm \<Rightarrow> u64 list" where
  "mq_pending q s = ring_list 16 (unat (cell s (mq_start q))) (unat (cell s (mq_end q)))
     (\<lambda>i. cell s (mq_slot q (of_nat i)))"

text \<open>The 24 cells of a queue.\<close>

definition mq_cells :: "u64 \<Rightarrow> u64 set" where
  "mq_cells q = (\<lambda>j. q + of_nat (8 * j)) ` {..<24}"

lemma off_inject: "a < 2 ^ 64 \<Longrightarrow> b < 2 ^ 64 \<Longrightarrow> (q :: u64) + of_nat a = q + of_nat b \<longleftrightarrow> a = b"
  unfolding add_left_cancel by (simp add: word_unat_eq_iff unat_of_nat)

lemma mq_offsets:
  "mq_start q = q + of_nat (8 * 0)" "mq_end q = q + of_nat (8 * 1)" "mq_ids q = q + of_nat (8 * 2)"
  "mq_sender_next q = q + of_nat (8 * 3)" "mq_receiver_next q = q + of_nat (8 * 4)"
  "mq_slot q (of_nat i) = q + of_nat (8 * (5 + i))"
  by (simp_all add: mq_start_def mq_end_def mq_ids_def mq_sender_next_def mq_receiver_next_def
      mq_slot_def algebra_simps)

lemma mq_cells_mem:
  "mq_start q \<in> mq_cells q" "mq_end q \<in> mq_cells q" "mq_ids q \<in> mq_cells q"
  "mq_receiver_next q \<in> mq_cells q" "i < 16 \<Longrightarrow> mq_slot q (of_nat i) \<in> mq_cells q"
  unfolding mq_cells_def mq_offsets by (rule imageI; simp)+

lemma mq_distinct:
  "mq_start q \<noteq> mq_end q" "mq_end q \<noteq> mq_start q"
  "mq_ids q \<noteq> mq_start q" "mq_ids q \<noteq> mq_end q" "mq_receiver_next q \<noteq> mq_start q"
  "mq_receiver_next q \<noteq> mq_end q" "mq_ids q \<noteq> mq_receiver_next q"
  "i < 16 \<Longrightarrow> mq_slot q (of_nat i) \<noteq> mq_start q" "i < 16 \<Longrightarrow> mq_slot q (of_nat i) \<noteq> mq_end q"
  "i < 16 \<Longrightarrow> mq_slot q (of_nat i) \<noteq> mq_ids q" "i < 16 \<Longrightarrow> mq_slot q (of_nat i) \<noteq> mq_receiver_next q"
  "i < 16 \<Longrightarrow> j < 16 \<Longrightarrow> mq_slot q (of_nat i) = mq_slot q (of_nat j) \<longleftrightarrow> i = j"
  unfolding mq_offsets by (subst off_inject; simp)+

lemma mq_slot_unat: "mq_slot q w = mq_slot q (of_nat (unat w))"
  by simp

lemma mq_ok_cong:
  "cell s' (mq_start q) = cell s (mq_start q) \<Longrightarrow> cell s' (mq_end q) = cell s (mq_end q) \<Longrightarrow>
     mq_ok q s' = mq_ok q s"
  by (simp add: mq_ok_def)

lemma mq_pending_cong:
  assumes "cell s' (mq_start q) = cell s (mq_start q)" "cell s' (mq_end q) = cell s (mq_end q)"
    "\<And>i. i < 16 \<Longrightarrow> cell s' (mq_slot q (of_nat i)) = cell s (mq_slot q (of_nat i))"
  shows "mq_pending q s' = mq_pending q s"
  unfolding mq_pending_def assms(1,2) by (rule ring_list_cong) (simp add: assms(3))

lemma unat_ring_succ: "unat (w :: u64) < 16 \<Longrightarrow> unat ((w + 1) mod MESSAGE_BUFFER_SIZE) = (unat w + 1) mod 16"
  by (simp add: layout_simps unat_mod unat_word_ariths)

lemma mq_full_iff:
  assumes "mq_ok q s"
  shows "mq_full q s \<longleftrightarrow> length (mq_pending q s) = 15"
proof -
  let ?h = "cell s (mq_start q)" and ?t = "cell s (mq_end q)"
  have b: "unat ?h < 16" "unat ?t < 16" using assms by (simp_all add: mq_ok_def)
  have t1: "unat (?t + 1) = unat ?t + 1" using b(2) by (intro unat_inc) simp
  have "?t - ?h = 15 \<longleftrightarrow> ?t = ?h + 15" by (auto simp: algebra_simps)
  also have "\<dots> \<longleftrightarrow> unat ?t = unat ?h + 15"
    using b by (simp add: word_unat_eq_iff unat_word_ariths)
  finally have "mq_full q s \<longleftrightarrow> unat ?t + 1 = unat ?h \<or> unat ?t = unat ?h + 15"
    by (simp add: mq_full_def layout_simps word_unat_eq_iff[of "?t + 1"] t1)
  then show ?thesis using b by (auto simp: mq_pending_def ring_len_def)
qed

text \<open>Filling the slot at \<open>end\<close> and advancing \<open>end\<close> appends; advancing \<open>start\<close> removes the head.\<close>

lemma mq_put:
  assumes ok: "mq_ok q s" and room: "length (mq_pending q s) \<noteq> 15"
    and upd: "cell s' (mq_start q) = cell s (mq_start q)"
    "cell s' (mq_end q) = (cell s (mq_end q) + 1) mod MESSAGE_BUFFER_SIZE"
    "\<And>i. i < 16 \<Longrightarrow> cell s' (mq_slot q (of_nat i)) =
      (if i = unat (cell s (mq_end q)) then x else cell s (mq_slot q (of_nat i)))"
  shows "mq_ok q s' \<and> mq_pending q s' = mq_pending q s @ [x]"
proof -
  let ?h = "unat (cell s (mq_start q))" and ?t = "unat (cell s (mq_end q))"
  let ?slot = "\<lambda>i. cell s (mq_slot q (of_nat i))"
  have b: "?h < 16" "?t < 16" using ok by (simp_all add: mq_ok_def)
  have tail: "unat (cell s' (mq_end q)) = (?t + 1) mod 16"
    unfolding upd(2) by (rule unat_ring_succ[OF b(2)])
  have "mq_pending q s' = ring_list 16 ?h ((?t + 1) mod 16) (?slot(?t := x))"
    unfolding mq_pending_def upd(1) tail
    by (rule ring_list_cong) (simp add: upd(3))
  also have "\<dots> = mq_pending q s @ [x]"
    unfolding mq_pending_def using room by (intro ring_put[OF b]) (simp add: mq_pending_def)
  finally show ?thesis using b tail by (simp add: mq_ok_def upd(1))
qed

lemma mq_head:
  assumes ok: "mq_ok q s" and some: "mq_pending q s = x # xs"
  shows "cell s (mq_start q) \<noteq> cell s (mq_end q)" "cell s (mq_slot q (cell s (mq_start q))) = x"
proof -
  let ?h = "unat (cell s (mq_start q))" and ?t = "unat (cell s (mq_end q))"
  let ?slot = "\<lambda>i. cell s (mq_slot q (of_nat i))"
  have b: "?h < 16" "?t < 16" using ok by (simp_all add: mq_ok_def)
  have ne: "?h \<noteq> ?t"
    using some ring_list_empty[OF b, of ?slot] by (auto simp: mq_pending_def)
  then show "cell s (mq_start q) \<noteq> cell s (mq_end q)" by auto
  have "x = ?slot ?h" using ring_take[OF b ne, of ?slot] some by (simp only: mq_pending_def list.inject)
  then show "cell s (mq_slot q (cell s (mq_start q))) = x" by simp
qed

lemma mq_take:
  assumes ok: "mq_ok q s" and some: "mq_pending q s = x # xs"
    and upd: "cell s' (mq_start q) = (cell s (mq_start q) + 1) mod MESSAGE_BUFFER_SIZE"
    "cell s' (mq_end q) = cell s (mq_end q)"
    "\<And>i. i < 16 \<Longrightarrow> i \<noteq> unat (cell s (mq_start q)) \<Longrightarrow>
      cell s' (mq_slot q (of_nat i)) = cell s (mq_slot q (of_nat i))"
  shows "mq_ok q s' \<and> mq_pending q s' = xs"
proof -
  let ?h = "unat (cell s (mq_start q))" and ?t = "unat (cell s (mq_end q))"
  let ?slot = "\<lambda>i. cell s (mq_slot q (of_nat i))" and ?slot' = "\<lambda>i. cell s' (mq_slot q (of_nat i))"
  have b: "?h < 16" "?t < 16" using ok by (simp_all add: mq_ok_def)
  have ne: "?h \<noteq> ?t"
    using some ring_list_empty[OF b, of ?slot] by (auto simp: mq_pending_def)
  have split: "x # xs = ?slot ?h # ring_list 16 ((?h + 1) mod 16) ?t (?slot(?h := ?slot' ?h))"
    using ring_take[OF b ne, of ?slot "?slot' ?h"] some by (simp only: mq_pending_def)
  have head: "unat (cell s' (mq_start q)) = (?h + 1) mod 16"
    unfolding upd(1) by (rule unat_ring_succ[OF b(1)])
  have "mq_pending q s' = ring_list 16 ((?h + 1) mod 16) ?t (?slot(?h := ?slot' ?h))"
    unfolding mq_pending_def upd(2) head by (rule ring_list_cong) (simp add: upd(3))
  then show "mq_ok q s' \<and> mq_pending q s' = xs"
    using split b head by (simp add: mq_ok_def upd(2))
qed

section \<open>Sending\<close>

text \<open>
  sent_to on a full queue returns false and changes nothing.
\<close>

lemma sent_to_full:
  assumes "ref_tbr r \<noteq> 0" "mq_ok q s" "length (mq_pending q s) = 15"
  shows "sent_to c q r s = Some (False, s)"
  using assms mq_full_iff[of q s] by (simp add: sent_to_def get_tbr_def)

text \<open>
  C17: sending to a queue with room appends the reference and adds one to the count of the object.
\<close>

lemma sent_to_room:
  assumes r: "ref_tbr r \<noteq> 0" "cell s (ref_tbr r) = b" and ok: "mq_ok q s"
    and room: "length (mq_pending q s) \<noteq> 15"
    and era: "era_ok c (cell s (obj_info b)) s" and cnt: "obj_cnt b s < 65535"
    and apart: "obj_info b \<notin> mq_cells q"
  shows "\<exists>s'. sent_to c q r s = Some (True, s') \<and> mq_ok q s' \<and>
     mq_pending q s' = mq_pending q s @ [b] \<and> obj_cnt b s' = obj_cnt b s + 1 \<and>
     own_era c s' = own_era c s + 1 \<and>
     (\<forall>x. x \<notin> insert (obj_info b) (mq_cells q) \<longrightarrow> cell s' x = cell s x) \<and>
     page s' = page s \<and> segment s' = segment s \<and> sas s' = sas s"
proof -
  obtain n where n: "n < 16" "cell s (mq_end q) = of_nat n" "unat (cell s (mq_end q)) = n"
    using ok that[of "unat (cell s (mq_end q))"] by (simp add: mq_ok_def)
  let ?slot = "mq_slot q (of_nat n)"
  note mem = mq_cells_mem(1-4)[of q] mq_cells_mem(5)[OF n(1), of q]
  have ne: "?slot \<noteq> obj_info b" "obj_info b \<noteq> mq_start q" "obj_info b \<noteq> mq_end q"
    "\<And>i. i < 16 \<Longrightarrow> mq_slot q (of_nat i) \<noteq> obj_info b"
    using apart mem mq_cells_mem(5)[of _ q] by metis+
  let ?s1 = "link_reference c ?slot b s"
  note l = link_reference_count[OF era cnt ne(1)]
  have c1: "cell ?s1 (mq_start q) = cell s (mq_start q)" "cell ?s1 (mq_end q) = cell s (mq_end q)"
    using l(6) ne n mq_distinct(8,9)[of n q] by auto
  let ?s2 = "set_cell (mq_end q) ((cell ?s1 (mq_end q) + 1) mod MESSAGE_BUFFER_SIZE) ?s1"
  have run: "sent_to c q r s = Some (True, ?s2)"
    using r ok room mq_full_iff[OF ok] by (simp add: sent_to_def get_tbr_def Let_def n(2))
  have slots: "cell ?s2 (mq_slot q (of_nat i)) = (if i = n then b else cell s (mq_slot q (of_nat i)))"
    if "i < 16" for i
    using l(2) l(6)[rule_format, of "mq_slot q (of_nat i)"] ne(4)[OF that] mq_distinct(9)[OF that, of q]
      mq_distinct(12)[OF that n(1), of q] by (simp add: state_simps)
  have ring: "mq_ok q ?s2 \<and> mq_pending q ?s2 = mq_pending q s @ [b]"
  proof (rule mq_put[OF ok room])
    show "cell ?s2 (mq_start q) = cell s (mq_start q)"
      using c1 mq_distinct(1)[of q] by (simp add: state_simps)
    show "cell ?s2 (mq_end q) = (cell s (mq_end q) + 1) mod MESSAGE_BUFFER_SIZE"
      by (simp add: state_simps c1)
  qed (simp only: slots n(3))
  have cnt2: "obj_cnt b ?s2 = obj_cnt b s + 1"
    using l(1) ne(3) by (simp add: obj_cnt_def state_simps)
  have era2: "own_era c ?s2 = own_era c s + 1" using l(5) by (simp add: state_simps)
  have frame: "cell ?s2 x = cell s x" if "x \<notin> insert (obj_info b) (mq_cells q)" for x
  proof -
    have "x \<notin> {?slot, obj_info b}" "x \<noteq> mq_end q" using that mem by auto
    with l(6) show ?thesis by (simp add: state_simps)
  qed
  show ?thesis
    using run ring cnt2 era2 frame by (intro exI[of _ ?s2]) (simp add: state_simps link_reference_sel)
qed

section \<open>Receiving\<close>

lemma register_receiver_sel:
  "page (register_receiver c q s) = page s" "segment (register_receiver c q s) = segment s"
  "sas (register_receiver c q s) = sas s" "era_tab (register_receiver c q s) = era_tab s"
  "get_pq p (register_receiver c q s) = get_pq p s"
  "x \<notin> {mq_receiver_next q, mq_ids q} \<Longrightarrow> cell (register_receiver c q s) x = cell s x"
proof -
  have "get_pq p (upd_tls a (\<lambda>t. t\<lparr>tls_receiver_queue := v\<rparr>) s) = get_pq p s" for a v s
    by (cases "(p, s)" rule: get_pq.cases) (simp_all add: state_simps)
  then show "get_pq p (register_receiver c q s) = get_pq p s"
    by (simp add: register_receiver_def Let_def state_simps del: get_pq.simps)
qed (simp_all add: register_receiver_def Let_def state_simps)

lemma register_receiver_mq:
  "mq_ok q (register_receiver c q s) = mq_ok q s"
  "mq_pending q (register_receiver c q s) = mq_pending q s"
proof -
  note frame = register_receiver_sel(6)[of _ q c s]
  show "mq_ok q (register_receiver c q s) = mq_ok q s"
    by (rule mq_ok_cong; rule frame; simp add: mq_distinct mq_distinct(3-6)[symmetric])
  show "mq_pending q (register_receiver c q s) = mq_pending q s"
    by (rule mq_pending_cong; rule frame; simp add: mq_distinct mq_distinct(3-6)[symmetric])
qed

text \<open>The first receive makes the client the receiver of the queue and chains it into its list.\<close>

lemma register_receiver_id:
  assumes "get_receiver_id (cell s (mq_ids q)) = 0"
  shows "get_receiver_id (cell (register_receiver c q s) (mq_ids q)) = ucast (cl_thread_id c)"
    "tls_receiver_queue (tls (register_receiver c q s) (cl_tls_offset c)) = q"
    "cell (register_receiver c q s) (mq_receiver_next q) = tls_receiver_queue (tls s (cl_tls_offset c))"
  using assms mq_distinct(7)[of q] by (simp_all add: register_receiver_def Let_def state_simps)

text \<open>
  cxl_unwrap on an empty queue returns the null handle after registering the receiver.
\<close>

lemma cxl_unwrap_empty:
  assumes ok: "mq_ok q s" and none: "mq_pending q s = []"
  shows "cxl_unwrap c q s = Some (\<lparr>ref_tbr = 0, ref_data = 0\<rparr>, register_receiver c q s)"
proof -
  let ?r = "register_receiver c q s"
  have "mq_ok q ?r" "mq_pending q ?r = []" using assms by (simp_all add: register_receiver_mq)
  then have "cell ?r (mq_start q) = cell ?r (mq_end q)"
    by (auto simp: mq_pending_def mq_ok_def ring_list_empty word_unat_eq_iff)
  then show ?thesis by (simp add: cxl_unwrap_def)
qed

text \<open>
  A receive with a pending reference: it leaves the queue, a fresh root reference with one handle
  refers to the object, and the object's count is what it was, in two of the receiver's eras.
\<close>

lemma take_block_to_tbr_frame:
  assumes inv: "page_inv i k 16 (t # ts) lt s" and "\<not> in_page i k x"
  shows "cell (block_to_tbr t (meta_at (seg_at i) k) s) x = cell s x"
proof -
  have live: "t \<in> live_blocks i k 16 ts lt" by (rule page_inv_take(2)[OF inv])
  note post = block_to_tbr_inv[OF inv]
  have "in_page i k t" "in_page i k (t + 8)"
    using block_cells_in_page[OF post live, of 2 0] block_cells_in_page[OF post live, of 2 1] by simp_all
  then show ?thesis using assms(2) by (auto simp: block_to_tbr_sel)
qed

text \<open>
  C16: a receive with a pending reference. It leaves the queue, a fresh root reference with one
  handle refers to the object, and the object's count is what it was, in two of the receiver's eras.
\<close>

lemma cxl_unwrap_some:
  assumes ok: "mq_ok q s" and some: "mq_pending q s = b # bs" and b0: "b \<noteq> 0"
    and reg: "get_receiver_id (cell s (mq_ids q)) \<noteq> 0"
    and tinv: "page_inv i k 16 (t # ts) lt s" and front: "queue_front (cl_tls_offset c, Bin 0) i k s"
    and era: "era_ok c (cell s (obj_info b)) s" "own_era c s \<noteq> - 1"
    and cnt: "0 < obj_cnt b s" "obj_cnt b s < 65535"
    and apart: "obj_info b \<notin> mq_cells q" "\<not> in_page i k (obj_info b)"
      "\<forall>x \<in> mq_cells q. \<not> in_page i k x"
  shows "\<exists>s'. cxl_unwrap c q s = Some (\<lparr>ref_tbr = t, ref_data = b + sizeof_CXLObj\<rparr>, s') \<and>
     mq_ok q s' \<and> mq_pending q s' = bs \<and> cell s' (mq_slot q (cell s (mq_start q))) = 0 \<and>
     cell s' t = b \<and> handles t s' = 1 \<and> obj_cnt b s' = obj_cnt b s \<and>
     own_era c s' = own_era c s + 2 \<and> page_inv i k 16 ts lt s'"
proof -
  let ?p = "meta_at (seg_at i) k"
  obtain n where n: "n < 16" "cell s (mq_start q) = of_nat n" "unat (cell s (mq_start q)) = n"
    using ok that[of "unat (cell s (mq_start q))"] by (simp add: mq_ok_def)
  let ?slot = "mq_slot q (of_nat n)"
  note mem = mq_cells_mem(1-4)[of q] mq_cells_mem(5)[OF n(1), of q]
  have unreg: "register_receiver c q s = s" using reg by (simp add: register_receiver_def)
  have live: "t \<in> live_blocks i k 16 ts lt" by (rule page_inv_take(2)[OF tinv])
  let ?s1 = "block_to_tbr t ?p s"
  have t1: "page_inv i k 16 ts lt ?s1" by (rule block_to_tbr_inv[OF tinv])
  have tin: "in_page i k t" "in_page i k (t + 8)"
    using block_cells_in_page[OF t1 live, of 2 0] block_cells_in_page[OF t1 live, of 2 1] by simp_all
  have out1: "cell ?s1 x = cell s x" if "\<not> in_page i k x" for x
    by (rule take_block_to_tbr_frame[OF tinv that])
  have qout: "\<not> in_page i k x" if "x \<in> mq_cells q" for x using apart(3) that by blast
  have tne: "t \<noteq> obj_info b" "t + 8 \<noteq> obj_info b" "t \<notin> mq_cells q" "t + 8 \<notin> mq_cells q"
    using tin apart(2) qout by metis+
  have w1: "cell ?s1 (obj_info b) = cell s (obj_info b)" by (rule out1[OF apart(2)])
  have e1: "own_era c ?s1 = own_era c s" by (rule own_era_tab) (simp add: block_to_tbr_sel)
  have era1: "era_ok c (cell ?s1 (obj_info b)) ?s1" using era(1) by (simp add: era_ok_def w1 e1)
  have cnt1: "obj_cnt b ?s1 = obj_cnt b s" by (simp add: obj_cnt_def w1)
  then have small: "obj_cnt b ?s1 < 65535" using cnt by simp
  let ?s2 = "link_reference c t b ?s1"
  note l = link_reference_count[OF era1 small tne(1)]
  let ?s3 = "incr_tbr t ?s2"
  have c3: "cell ?s3 x = cell s x" if "x \<noteq> obj_info b" "\<not> in_page i k x" for x
    using that l(6) tin out1[OF that(2)] by (auto simp: state_simps)
  have w3: "cell ?s3 (obj_info b) = cell ?s2 (obj_info b)" "own_era c ?s3 = own_era c ?s2"
    using tne by (simp_all add: state_simps own_era_def era_def)
  have "1 + own_era c s \<noteq> 0" using era(2) by (metis add.commute add_diff_cancel_right' diff_0)
  then have "own_era c s \<le> own_era c s + 1" by (simp add: word_le_nat_alt unatSuc add.commute)
  then have era3: "era_ok c (cell ?s3 (obj_info b)) ?s3"
    using era(1) l(3-5) by (simp add: era_ok_def w3 e1)
  have cnt3: "obj_cnt b ?s3 = obj_cnt b s + 1" using l(1) cnt1 by (simp add: obj_cnt_def w3)
  have q1: "cell ?s1 x = cell s x" if "x \<in> mq_cells q" for x by (rule out1[OF qout[OF that]])
  have q3: "cell ?s3 x = cell s x" if "x \<in> mq_cells q" for x
    by (rule c3[OF _ qout[OF that]]) (use that apart(1) in blast)
  have head: "cell s ?slot = b" using mq_head(2)[OF ok some] by (simp only: n(2))
  let ?s4 = "unlink_commit c ?slot b ?s3"
  have pos3: "0 < obj_cnt b ?s3" using cnt3 by simp
  have sne: "?slot \<noteq> obj_info b" using mem(5) apart(1) by metis
  note u = unlink_commit_count[OF era3 pos3 sne]
  have u': "unlink_reference c ?slot b ?s3 = Some ?s4"
    using unlink_reference_cases[OF pos3] cnt3 cnt by simp
  let ?s5 = "set_cell (mq_start q) ((cell ?s4 (mq_start q) + 1) mod MESSAGE_BUFFER_SIZE) ?s4"
  have c4: "cell ?s4 x = cell s x" if "x \<in> mq_cells q" "x \<noteq> ?slot" for x
    using that u(6) q3[OF that(1)] apart(1) by auto
  have start4: "cell ?s4 (mq_start q) = of_nat n"
    using c4[OF mem(1)] mq_distinct(8)[OF n(1), of q] n(2) by simp
  have tq: "t \<noteq> ?slot" "t + 8 \<noteq> ?slot" "t \<noteq> mq_start q" "t + 8 \<noteq> mq_start q"
    using tne(3,4) mem(1,5) by metis+
  have t5: "cell ?s5 t = b" "cell ?s5 (t + 8) = cell ?s3 (t + 8)"
    using u(6)[rule_format, of t] u(6)[rule_format, of "t + 8"] tne(1,2) tq l(2)
    by (simp_all add: state_simps)
  have run: "cxl_unwrap c q s = Some (\<lparr>ref_tbr = t, ref_data = b + sizeof_CXLObj\<rparr>, ?s5)"
    using mq_head(1)[OF ok some] head b0 q1[OF mem(1)] q1[OF mem(5)] q3[OF mem(1)] q3[OF mem(5)] u' t5(1)
    by (simp add: cxl_unwrap_def unreg thread_base_ref_alloc_hit[OF tinv front] Let_def n(2))
  have ring: "mq_ok q ?s5 \<and> mq_pending q ?s5 = bs"
  proof (rule mq_take[OF ok some])
    show "cell ?s5 (mq_start q) = (cell s (mq_start q) + 1) mod MESSAGE_BUFFER_SIZE"
      by (simp add: state_simps start4 n(2))
    show "cell ?s5 (mq_end q) = cell s (mq_end q)"
      using c4[OF mem(2)] mq_distinct(9)[OF n(1), of q] mq_distinct(1)[of q] by (simp add: state_simps)
  next
    fix i assume i: "i < 16" "i \<noteq> unat (cell s (mq_start q))"
    then have "mq_slot q (of_nat i) \<noteq> ?slot" using mq_distinct(12)[OF i(1) n(1)] n(3) by simp
    then show "cell ?s5 (mq_slot q (of_nat i)) = cell s (mq_slot q (of_nat i))"
      using c4[OF mq_cells_mem(5)[OF i(1)]] mq_distinct(8)[OF i(1), of q] by (simp add: state_simps)
  qed
  have slot0: "cell ?s5 ?slot = 0"
    using u(2) mq_distinct(8)[OF n(1), of q] by (simp add: state_simps)
  have h5: "handles t ?s5 = 1"
    using l(6)[rule_format, of "t + 8"] tne(2) unfolding handles_def t5(2)
    by (simp add: state_simps block_to_tbr_sel fresh_tbr_word_def)
  have cnt5: "obj_cnt b ?s5 = obj_cnt b s"
    using u(1) cnt3 apart(1) mem(1) by (auto simp: obj_cnt_def state_simps)
  have e5: "own_era c ?s5 = own_era c s + 2"
    using u(5) l(5) by (simp add: state_simps w3 e1 add.assoc)
  have out: "obj_info b \<notin> set (ts @ lt)" "x \<notin> set (ts @ lt)" if "x \<in> mq_cells q" for x
    using lists_in_page[OF t1] apart(2) qout[OF that] by blast+
  have "t \<notin> set (ts @ lt)" using live by (simp add: live_blocks_def)
  then have "page_inv i k 16 ts lt ?s2"
    by (intro page_inv_two_cells[OF t1 link_reference_sel(1,2)] out(1)[OF mem(1)])
  then have "page_inv i k 16 ts lt ?s3"
    using page_inv_live_write[OF _ live, of ?s2 8] by (simp add: incr_tbr_def)
  then have "page_inv i k 16 ts lt ?s4"
    by (rule page_inv_two_cells[OF _ unlink_commit_sel(1)[OF era3] unlink_commit_sel(2) out(1)[OF mem(1)]
          out(2)[OF mem(5)]])
  then have inv5: "page_inv i k 16 ts lt ?s5"
    by (rule page_inv_set_cell[OF _ out(2)[OF mem(1)]]) (simp_all add: state_simps)
  show ?thesis
    using run ring slot0 t5(1) h5 cnt5 e5 inv5 by (intro exI[of _ ?s5]) (simp only: n(2) simp_thms)
qed

end
