(* ===== verification/Demo_State.thy ===== *)
theory Demo_State
  imports Msg_Transfer
begin

text \<open>
  Concrete states, on which the properties are instantiated: segment 0 belongs to thread 1 and has a
  page of root references (page 2) and a page of 1024-byte blocks (page 3).
\<close>

abbreviation "tbr_page \<equiv> meta_at (seg_at 0) 2"
abbreviation "obj_page \<equiv> meta_at (seg_at 0) 3"
abbreviation "tbr_area \<equiv> area_at (seg_at 0) 2"
abbreviation "obj_area \<equiv> area_at (seg_at 0) 3"

definition demo_client :: client where
  "demo_client = \<lparr>cl_size = 0x40000000, cl_tls_offset = THREAD_LOCAL_VEC_START, cl_thread_id = 1\<rparr>"

definition demo_page :: "u64 \<Rightarrow> u64 \<Rightarrow> u32 \<Rightarrow> u32 \<Rightarrow> cxl_page" where
  "demo_page f l bs used = \<lparr>pg_free = f, pg_local_free = l, pg_block_size = bs, pg_used = used,
     pg_next = 0, pg_prev = 0, pg_is_msg_queue = False\<rparr>"

definition demo_tls :: cxl_tls where
  "demo_tls = \<lparr>tls_redo = (\<lambda>_. zero_redo), tls_packed_id = 1,
     tls_pages = (\<lambda>i. if i = 0 then \<lparr>pq_first = tbr_page, pq_last = tbr_page, pq_block_size = 16\<rparr>
       else if i = 65 then \<lparr>pq_first = obj_page, pq_last = obj_page, pq_block_size = 1024\<rparr>
       else \<lparr>pq_first = 0, pq_last = 0, pq_block_size = of_nat (16 * (i - 1))\<rparr>),
     tls_free_page = \<lparr>pq_first = 0, pq_last = 0, pq_block_size = 0\<rparr>,
     tls_sender_queue = 0, tls_receiver_queue = 0\<rparr>"

definition demo :: "cxl_page \<Rightarrow> cxl_page \<Rightarrow> (u64 \<Rightarrow> u64) \<Rightarrow> shm" where
  "demo p1 p2 cells = \<lparr>cell = cells, page = (\<lambda>_. zero_page)(tbr_page := p1, obj_page := p2),
     segment = (\<lambda>_. \<lparr>sg_thread_id = 1, sg_used = 2\<rparr>),
     sas = (\<lambda>_. \<lparr>sas_thread_id = 1, sas_ver = 0, sas_state = NORMAL, sas_thread_free = 0\<rparr>),
     era_tab = (\<lambda>_. 5), tls = (\<lambda>_. demo_tls)\<rparr>"

lemma demo_client_sel [simp]:
  "cl_tls_offset demo_client = THREAD_LOCAL_VEC_START" "cl_thread_id demo_client = 1"
  "cl_size demo_client = 0x40000000"
  by (simp_all add: demo_client_def)

lemma demo_seg [simp]: "0 < MAX_SEGMENT_NUM" "2 < PAGES_PER_SEGMENT" "3 < PAGES_PER_SEGMENT"
  by (simp_all add: layout_simps)

lemma demo_pages_ne [simp]: "tbr_page \<noteq> obj_page" "obj_page \<noteq> tbr_page" "tbr_page \<noteq> 0" "obj_page \<noteq> 0"
  by simp_all

lemma demo_sel [simp]:
  "cell (demo p1 p2 m) = m" "page (demo p1 p2 m) tbr_page = p1" "page (demo p1 p2 m) obj_page = p2"
  "sas (demo p1 p2 m) i = \<lparr>sas_thread_id = 1, sas_ver = 0, sas_state = NORMAL, sas_thread_free = 0\<rparr>"
  "segment (demo p1 p2 m) a = \<lparr>sg_thread_id = 1, sg_used = 2\<rparr>" "era x y (demo p1 p2 m) = 5"
  "tls (demo p1 p2 m) a = demo_tls" "own_era c (demo p1 p2 m) = 5"
  by (simp_all add: demo_def era_def own_era_def)

lemma area_ok_demo [simp]: "area_ok tbr_area 16" "area_ok obj_area 1024"
  by (rule area_ok_area_at; simp add: layout_simps)+

lemma area_head: "area_ok a bs \<Longrightarrow> a \<in> set (page_blocks a bs)"
  using block_cnt_pos by (force simp: page_blocks_def blk_def)

lemma demo_area_nonnull [simp]: "tbr_area \<noteq> 0" "obj_area \<noteq> 0"
  by (simp_all add: word_unat_eq_iff unat_area_at unat_seg_at)

lemma demo_counts [simp]: "block_cnt 16 = 4096" "block_cnt 1024 = 64"
  by (simp_all add: block_cnt_def)

text \<open>The invariant of a page with at most its first block free or locally free.\<close>

lemma demo_tbr_inv:
  assumes "m tbr_area = 0"
  shows "page_inv 0 2 16 [tbr_area] [] (demo (demo_page tbr_area 0 16 4095) p2 m)"
    and "page_inv 0 2 16 [] [] (demo (demo_page 0 0 16 4096) p2 m)"
  using assms area_head[OF area_ok_demo(1)] by (simp_all add: page_inv_def demo_page_def)

lemma demo_obj_inv:
  assumes "m obj_area = 0"
  shows "page_inv 0 3 1024 [obj_area] [] (demo p1 (demo_page obj_area 0 1024 63) m)"
    and "page_inv 0 3 1024 [] [] (demo p1 (demo_page 0 0 1024 64) m)"
  using assms area_head[OF area_ok_demo(2)] by (simp_all add: page_inv_def demo_page_def)

lemma demo_live:
  "tbr_area \<in> live_blocks 0 2 16 [] []" "obj_area \<in> live_blocks 0 3 1024 [] []"
  using area_head[OF area_ok_demo(1)] area_head[OF area_ok_demo(2)] by (simp_all add: live_blocks_def)

lemma demo_front:
  "queue_front (THREAD_LOCAL_VEC_START, Bin 0) 0 2 (demo p1 p2 m)"
  "queue_front (THREAD_LOCAL_VEC_START, Bin 65) 0 3 (demo p1 p2 m)"
  by (simp_all add: queue_front_def demo_tls_def)

lemma demo_bin: "cxl_page_queue False (1000 + sizeof_CXLObj) = Some (Bin 65)"
  by (simp add: cxl_page_queue_def layout_simps Let_def drop_bit_eq_div unat_div)

lemma demo_owned: "owned_by demo_client i (demo p1 p2 m)"
  by (simp add: owned_by_def)

lemma demo_valid: "valid_id (uint (cl_thread_id demo_client))"
  by (simp add: valid_id_def layout_simps)

section \<open>A message queue\<close>

abbreviation "queue_at \<equiv> area_at (seg_at 0) 4"

lemma demo_addresses:
  "tbr_area = 0x8020000" "obj_area = 0x8030000" "queue_at = 0x8040000"
  by (simp_all add: area_at_def seg_at_def layout_simps)

text \<open>An object with one reference, committed by thread 1 in era 4, and a queue with what is given.\<close>

definition demo_cells :: "u64 \<Rightarrow> u64 \<Rightarrow> u64 \<Rightarrow> u64 \<Rightarrow> u64 \<Rightarrow> u64" where
  "demo_cells ref tail ids slot = (\<lambda>_. 0)(tbr_area := ref, obj_info obj_area := pack_ref_info 1 1 4,
     mq_end queue_at := tail, mq_ids queue_at := ids, mq_slot queue_at 0 := slot)"

lemma demo_info_fields:
  "get_ref_cnt_from_info (pack_ref_info 1 1 4) = 1" "saw_cid (pack_ref_info 1 1 4) = 1"
  "saw_era (pack_ref_info 1 1 4) = 4"
  by (simp_all add: pack_ref_info_fields saw_cid_def saw_era_def)

lemma demo_cells_at:
  "demo_cells r a d e tbr_area = r" "demo_cells r a d e (obj_info obj_area) = pack_ref_info 1 1 4"
  "demo_cells r a d e (mq_start queue_at) = 0" "demo_cells r a d e (mq_end queue_at) = a"
  "demo_cells r a d e (mq_ids queue_at) = d" "demo_cells r a d e (mq_slot queue_at 0) = e"
  by (simp_all add: demo_cells_def demo_addresses obj_info_def mq_start_def mq_end_def mq_ids_def
      mq_slot_def)

lemma demo_queue_cells: "mq_cells queue_at = (\<lambda>j. 0x8040000 + of_nat (8 * j)) ` {..<24}"
  by (simp add: mq_cells_def demo_addresses)

lemma demo_queue_apart:
  assumes "x \<in> mq_cells queue_at"
  shows "\<not> in_page 0 2 x" "\<not> in_page 0 3 x"
proof -
  obtain j where j: "j < 24" "x = 0x8040000 + of_nat (8 * j)"
    using assms unfolding demo_queue_cells by blast
  have "unat (0x8040000 :: u64) + 8 * j < 2 ^ 64" using j(1) by simp
  then have "unat x = 0x8040000 + 8 * j" unfolding j(2) by (subst unat_add_small) simp_all
  then show "\<not> in_page 0 2 x" "\<not> in_page 0 3 x"
    by (simp_all add: in_page_def unat_area_at unat_seg_at)
qed

lemma demo_obj_in: "in_page 0 3 (obj_info obj_area)" "\<not> in_page 0 2 (obj_info obj_area)"
  by (simp_all add: in_page_def unat_area_at unat_seg_at demo_addresses obj_info_def)

lemma demo_obj_apart: "obj_info obj_area \<notin> mq_cells queue_at"
  using demo_queue_apart(2) demo_obj_in(1) by blast

lemma demo_era_ok: "era_ok demo_client (pack_ref_info 1 1 4) (demo p1 p2 m)"
  by (simp add: era_ok_def demo_info_fields valid_id_def layout_simps)

end
