(* ===== verification/Thread_Init.thy ===== *)
theory Thread_Init
  imports Ref_Count
begin

text \<open>
  Joining the shared memory (\<open>thread_init\<close> of \<open>src/cxl_shm.cpp\<close>): a thread claims the first thread
  state whose \<open>packed_machine_process_id\<close> is 0, sets up its page queues and starts an era. The MAC
  address and the kernel's thread id are inputs.
\<close>

section \<open>Operations\<close>

text \<open>The compare-and-swap succeeds on the first state that holds 0; \<open>offset\<close> is the one before.\<close>

partial_function (option) thread_scan :: "u64 \<Rightarrow> shm \<Rightarrow> u64 option" where
  "thread_scan offset s =
     (let offset = offset + sizeof_tls
      in if tls_packed_id (tls s offset) = 0 then Some offset else thread_scan offset s)"

definition tls_id_of :: "u64 \<Rightarrow> u32" where
  "tls_id_of offset = ucast ((offset - THREAD_LOCAL_VEC_START) div sizeof_tls + 1)"

definition empty_queue :: "u64 \<Rightarrow> cxl_page_queue" where
  "empty_queue bs = \<lparr>pq_first = 0, pq_last = 0, pq_block_size = bs\<rparr>"

text \<open>The queues and lists of a thread state, emptied.\<close>

definition reset_queues :: "cxl_tls \<Rightarrow> cxl_tls" where
  "reset_queues t = t\<lparr>tls_pages := (\<lambda>i. if i = 0 then empty_queue 16
       else if i = 1 then empty_queue (16 * drop_bit 4 (sizeof_msg_queue - 1) + 16)
       else if i < CXL_BIN_SIZE then empty_queue (16 * (of_nat i - 1)) else tls_pages t i),
     tls_free_page := empty_queue 0, tls_sender_queue := 0, tls_receiver_queue := 0\<rparr>"

definition thread_init :: "u64 \<Rightarrow> u64 \<Rightarrow> u16 \<Rightarrow> shm \<Rightarrow> (client \<times> shm) option" where
  "thread_init sz machine_id process_id s =
     do {
       offset \<leftarrow> thread_scan (THREAD_LOCAL_VEC_START - sizeof_tls) s;
       let s = upd_tls offset (\<lambda>t. t\<lparr>tls_packed_id := pack_machine_process_id machine_id process_id\<rparr>) s;
       let c = \<lparr>cl_size = sz, cl_tls_offset = offset, cl_thread_id = tls_id_of offset\<rparr>;
       let s = upd_tls offset reset_queues s;
       Some (c, bump_era c s)
     }"

section \<open>Thread states\<close>

definition tls_at :: "nat \<Rightarrow> u64" where
  "tls_at n = THREAD_LOCAL_VEC_START + of_nat n * sizeof_tls"

lemma unat_tls_at: "n \<le> 2048 \<Longrightarrow> unat (tls_at n) = 2 ^ 23 + n * 2176"
  by (simp add: tls_at_def layout_simps unat_word_ariths unat_of_nat)

lemma tls_at_inject: "n \<le> 2048 \<Longrightarrow> m \<le> 2048 \<Longrightarrow> tls_at n = tls_at m \<longleftrightarrow> n = m"
  by (simp add: word_unat_eq_iff unat_tls_at)

lemma tls_id_of_at:
  assumes "n \<le> 2048"
  shows "uint (tls_id_of (tls_at n)) = int n + 1"
proof -
  have "unat (of_nat n * sizeof_tls) = n * 2176"
    using assms by (simp add: layout_simps unat_word_ariths unat_of_nat)
  then have "unat ((tls_at n - THREAD_LOCAL_VEC_START) div sizeof_tls) = n"
    by (simp add: tls_at_def unat_div layout_simps)
  then have "unat ((tls_at n - THREAD_LOCAL_VEC_START) div sizeof_tls + 1) = n + 1"
    using assms by (simp add: unat_word_ariths)
  then have "unat (tls_id_of (tls_at n)) = n + 1"
    using assms by (simp add: tls_id_of_def unsigned_ucast_eq take_bit_nat_eq_self)
  then have "int (unat (tls_id_of (tls_at n))) = int n + 1" by simp
  then show ?thesis by simp
qed

lemma thread_scan_from:
  assumes "m \<le> n" "n \<le> 2048" "tls_packed_id (tls s (tls_at n)) = 0"
    "\<forall>j. m \<le> j \<and> j < n \<longrightarrow> tls_packed_id (tls s (tls_at j)) \<noteq> 0"
  shows "thread_scan (tls_at m - sizeof_tls) s = Some (tls_at n)"
  using assms
proof (induction "n - m" arbitrary: m)
  case 0
  then show ?case by (subst thread_scan.simps) (simp add: Let_def)
next
  case (Suc d)
  have lt: "m < n" using Suc.hyps(2) by simp
  have next_at: "tls_at m = tls_at (Suc m) - sizeof_tls" by (simp add: tls_at_def algebra_simps)
  have busy: "tls_packed_id (tls s (tls_at m)) \<noteq> 0" using Suc.prems lt by simp
  have "thread_scan (tls_at m - sizeof_tls) s = thread_scan (tls_at m) s"
    using busy by (subst thread_scan.simps) (simp add: Let_def)
  also have "\<dots> = Some (tls_at n)"
    unfolding next_at using Suc.prems Suc.hyps(2) lt by (intro Suc.hyps(1)) auto
  finally show ?case .
qed

section \<open>Size classes\<close>

text \<open>The block size a bin is set up with.\<close>

definition bin_size :: "pq_ptr \<Rightarrow> u64" where
  "bin_size b = (case b of Bin i \<Rightarrow>
       if i = 0 then 16 else if i = 1 then 16 * drop_bit 4 (sizeof_msg_queue - 1) + 16
       else 16 * (of_nat i - 1)
     | Free_Page \<Rightarrow> 0)"

lemma reset_queues_empty:
  "i < CXL_BIN_SIZE \<Longrightarrow> tls_pages (reset_queues t) i = empty_queue (bin_size (Bin i))"
  "tls_free_page (reset_queues t) = empty_queue (bin_size Free_Page)"
  by (simp_all add: reset_queues_def bin_size_def)

text \<open>
  The class chosen for an object of \<open>n\<close> bytes, header included, is the smallest
  multiple of 16 that holds it; sizes above 1024 have no class.
\<close>

lemma size_class:
  assumes "1 \<le> unat n" "unat n \<le> 1024"
  shows "\<exists>i. cxl_page_queue False n = Some (Bin i) \<and> 2 \<le> i \<and> i < CXL_BIN_SIZE \<and>
     unat n \<le> unat (bin_size (Bin i)) \<and> unat (bin_size (Bin i)) < unat n + 16"
proof -
  let ?k = "(unat n - 1) div 16"
  have "unat (n - 1) = unat n - 1" using assms(1) by (intro unat_minus_one) auto
  then have drop: "unat (drop_bit 4 (n - 1)) = ?k" by (simp add: unat_drop)
  have k: "?k < 64" using assms by (simp add: less_mult_imp_div_less)
  have idx: "unat (drop_bit 4 (n - 1) + 2) = ?k + 2"
    using k drop by (simp add: unat_word_ariths)
  have "(of_nat (?k + 2) - 1 :: u64) = of_nat (?k + 1)" by simp
  then have size: "unat (bin_size (Bin (?k + 2))) = 16 * (?k + 1)"
    using k by (simp add: bin_size_def unat_word_ariths unat_of_nat)
  have "unat n \<le> 16 * (?k + 1)" "16 * (?k + 1) < unat n + 16" using assms(1) by presburger+
  then show ?thesis
    using idx k size by (intro exI[of _ "?k + 2"]) (simp add: cxl_page_queue_def layout_simps Let_def)
qed

lemma size_class_none:
  assumes "1024 < unat n"
  shows "cxl_page_queue False n = None"
proof -
  let ?k = "(unat n - 1) div 16"
  have "unat (n - 1) = unat n - 1" using assms by (intro unat_minus_one) auto
  then have drop: "unat (drop_bit 4 (n - 1)) = ?k" by (simp add: unat_drop)
  have "unat n < 2 ^ 64" using unsigned_less[of n] by simp
  then have "?k < 2 ^ 60" by (simp add: less_mult_imp_div_less)
  then have "unat (drop_bit 4 (n - 1) + 2) = ?k + 2" using drop by (simp add: unat_word_ariths)
  moreover have "64 \<le> ?k" using assms by presburger
  ultimately show ?thesis by (simp add: cxl_page_queue_def layout_simps Let_def)
qed

section \<open>Joining\<close>

lemma tls_at_0: "tls_at 0 = THREAD_LOCAL_VEC_START"
  by (simp add: tls_at_def)

lemma pq_list_empty: "pq_first (get_pq q s) = 0 \<Longrightarrow> pq_last (get_pq q s) = 0 \<Longrightarrow> pq_list q [] s"
  by (simp add: pq_list_def)

lemma upd_tls_other [state_simps]: "a \<noteq> b \<Longrightarrow> tls (upd_tls a f s) b = tls s b"
  by (simp add: upd_tls_def)

lemma tls_bump_era [state_simps]: "tls (bump_era c s) = tls s"
  by (simp add: bump_era_def set_era_def)

lemma thread_init_first_free:
  assumes n: "n \<le> 2048" and free: "tls_packed_id (tls s (tls_at n)) = 0"
    and busy: "\<forall>j<n. tls_packed_id (tls s (tls_at j)) \<noteq> 0"
  shows "\<exists>c s'. thread_init sz mid pid s = Some (c, s') \<and> cl_tls_offset c = tls_at n \<and>
     uint (cl_thread_id c) = int n + 1 \<and> cl_size c = sz \<and>
     tls_packed_id (tls s' (tls_at n)) = pack_machine_process_id mid pid \<and>
     (\<forall>i < CXL_BIN_SIZE. pq_list (tls_at n, Bin i) [] s' \<and>
        pq_block_size (get_pq (tls_at n, Bin i) s') = bin_size (Bin i)) \<and>
     pq_list (tls_at n, Free_Page) [] s' \<and> own_era c s' = own_era c s + 1 \<and>
     (\<forall>a. a \<noteq> tls_at n \<longrightarrow> tls s' a = tls s a) \<and>
     cell s' = cell s \<and> page s' = page s \<and> segment s' = segment s \<and> sas s' = sas s"
proof -
  let ?a = "tls_at n"
  let ?c = "\<lparr>cl_size = sz, cl_tls_offset = ?a, cl_thread_id = tls_id_of ?a\<rparr>"
  let ?s1 = "upd_tls ?a (\<lambda>t. t\<lparr>tls_packed_id := pack_machine_process_id mid pid\<rparr>) s"
  let ?s2 = "upd_tls ?a reset_queues ?s1"
  let ?s = "bump_era ?c ?s2"
  have scan: "thread_scan (THREAD_LOCAL_VEC_START - sizeof_tls) s = Some ?a"
    using thread_scan_from[of 0 n s] n free busy by (simp add: tls_at_0)
  have run: "thread_init sz mid pid s = Some (?c, ?s)"
    by (simp add: thread_init_def scan Let_def)
  have tls: "tls ?s ?a = reset_queues ((tls s ?a)\<lparr>tls_packed_id := pack_machine_process_id mid pid\<rparr>)"
    by (simp add: state_simps)
  have bins: "get_pq (?a, Bin i) ?s = empty_queue (bin_size (Bin i))" if "i < CXL_BIN_SIZE" for i
    using reset_queues_empty(1)[OF that] tls by simp
  have fp: "get_pq (?a, Free_Page) ?s = empty_queue (bin_size Free_Page)"
    using reset_queues_empty(2) tls by simp
  have "pq_list (?a, Bin i) [] ?s \<and> pq_block_size (get_pq (?a, Bin i) ?s) = bin_size (Bin i)"
    if "i < CXL_BIN_SIZE" for i
    unfolding bins[OF that] using bins[OF that]
    by (intro conjI pq_list_empty) (simp_all add: empty_queue_def)
  moreover have "pq_list (?a, Free_Page) [] ?s"
    by (rule pq_list_empty) (simp_all only: fp, simp_all add: empty_queue_def)
  moreover have "tls_packed_id (tls ?s ?a) = pack_machine_process_id mid pid"
    by (simp add: tls reset_queues_def)
  moreover have "uint (cl_thread_id ?c) = int n + 1" using tls_id_of_at[OF n] by simp
  moreover have "own_era ?c ?s = own_era ?c s + 1" by (simp add: state_simps)
  moreover have "\<forall>a. a \<noteq> ?a \<longrightarrow> tls ?s a = tls s a" by (simp add: state_simps)
  ultimately show ?thesis
    using run by (intro exI[of _ ?c] exI[of _ ?s]) (simp add: state_simps)
qed

text \<open>
  C33: The scan has no bound: with all \<open>MAX_THREAD\<close> states taken the next thread gets
  id 1025, for which the era matrix has neither a row nor a column.
\<close>

lemma thread_init_past_max:
  assumes "\<forall>j < MAX_THREAD. tls_packed_id (tls s (tls_at j)) \<noteq> 0" "tls_packed_id (tls s (tls_at MAX_THREAD)) = 0"
  shows "\<exists>c s'. thread_init sz mid pid s = Some (c, s') \<and> \<not> valid_id (uint (cl_thread_id c))"
proof -
  have "MAX_THREAD \<le> 2048" by (simp add: layout_simps)
  from thread_init_first_free[OF this assms(2,1), of sz mid pid] show ?thesis
    by (auto simp: valid_id_def)
qed


text \<open>
  C34: An id of 0 marks a free state. A thread whose machine id and truncated thread id are both 0
  leaves its state marked free, and the next thread takes the same one.
\<close>

lemma thread_init_zero_id:
  assumes n: "n \<le> 2048" and free: "tls_packed_id (tls s (tls_at n)) = 0"
    and busy: "\<forall>j<n. tls_packed_id (tls s (tls_at j)) \<noteq> 0"
  shows "\<exists>c s1 c' s2. thread_init sz 0 0 s = Some (c, s1) \<and> thread_init sz mid pid s1 = Some (c', s2) \<and>
    cl_tls_offset c' = cl_tls_offset c \<and> cl_thread_id c' = cl_thread_id c"
proof -
  obtain c s1 where c: "thread_init sz 0 0 s = Some (c, s1)" "cl_tls_offset c = tls_at n"
    "uint (cl_thread_id c) = int n + 1" "tls_packed_id (tls s1 (tls_at n)) = pack_machine_process_id 0 0"
    "\<forall>a. a \<noteq> tls_at n \<longrightarrow> tls s1 a = tls s a"
    using thread_init_first_free[OF n free busy, of sz 0 0] by blast
  have "tls_packed_id (tls s1 (tls_at n)) = 0" using c(4) by (simp add: pack_machine_process_id_def)
  moreover have "\<forall>j<n. tls_packed_id (tls s1 (tls_at j)) \<noteq> 0"
    using busy c(5) tls_at_inject n by auto
  ultimately obtain c' s2 where "thread_init sz mid pid s1 = Some (c', s2)" "cl_tls_offset c' = tls_at n"
    "uint (cl_thread_id c') = int n + 1"
    using thread_init_first_free[OF n, of s1 sz mid pid] by blast
  then show ?thesis using c(1-3) by (metis word_uint_eq_iff)
qed

end
