(* ===== verification/Recovery.thy ===== *)
theory Recovery
  imports Thread_Init Cxl_Ref
begin

text \<open>
  Recovery (\<open>src/recovery.cpp\<close>): the orderly exit of a thread, and the monitor that replays the redo
  log of a dead thread, releases everything it held and sweeps the segments. \<open>None\<close> is a run that
  does not return, or divides by a zero block size.
\<close>

section \<open>Replaying the redo log\<close>

text \<open>The record with the largest era; the first of equals.\<close>

definition newest_redo :: "(nat \<Rightarrow> redo_log) \<Rightarrow> redo_log" where
  "newest_redo slots = fold (\<lambda>i best. if rl_cur_era best < rl_cur_era (slots i) then slots i else best)
     [1..<REDO_CACHELINE_CNT] (slots 0)"

text \<open>
  The largest era of the thread that another thread has seen. The loop runs \<open>j\<close> from 0 to
  \<open>MAX_THREAD - 1\<close>.
\<close>

definition max_seen :: "u32 \<Rightarrow> shm \<Rightarrow> u32" where
  "max_seen tid s = fold (\<lambda>j m. if int j = uint tid then m
       else if m < era (int j) (uint tid) s then era (int j) (uint tid) s else m)
     [0..<MAX_THREAD] 0"

definition need_redo :: "u32 \<Rightarrow> redo_log \<Rightarrow> shm \<Rightarrow> bool" where
  "need_redo tid r s =
     (let info = cell s (obj_info (rl_refed r));
          lo_cid = (ucast (get_lcid_from_info info) :: u32);
          lo_era = (ucast (get_lenum_from_info info) :: u32)
      in if lo_cid = tid \<and> lo_era = rl_cur_era r then True else rl_cur_era r \<le> max_seen tid s)"

definition set_sas_state :: "u64 \<Rightarrow> u64 \<Rightarrow> shm \<Rightarrow> shm" where
  "set_sas_state st p s = upd_sas (segment_index (cxl_ptr_segment p)) (\<lambda>x. x\<lparr>sas_state := st\<rparr>) s"

definition redo_ref_cnt :: "u64 \<Rightarrow> shm \<Rightarrow> shm" where
  "redo_ref_cnt offset s =
     (let tid = tls_id_of offset;
          r = newest_redo (tls_redo (tls s offset))
      in if rl_func_id r = LINK_REF
         then (if need_redo tid r s then set_cell (rl_ref r) (rl_refed r) s else s)
         else if rl_func_id r = UNLINK_REF
         then (let s = (if need_redo tid r s then set_cell (rl_ref r) 0 s else s)
               in if get_ref_cnt_from_info (ucast (rl_saved_ref_cnt r)) = 1
                  then set_sas_state POTENTIAL_LEAKING (rl_refed r) s else s)
         else s)"

section \<open>Releasing on behalf of a dead thread\<close>

definition dead_client :: "u64 \<Rightarrow> client" where
  "dead_client offset = \<lparr>cl_size = 0, cl_tls_offset = offset, cl_thread_id = tls_id_of offset\<rparr>"

definition recovery_cxl_free :: "bool \<Rightarrow> u64 \<Rightarrow> u64 \<Rightarrow> shm \<Rightarrow> shm" where
  "recovery_cxl_free special b offset s =
     (let seg = cxl_ptr_segment b;
          s = clear_block special b s
      in if ucast (sg_thread_id (segment s seg)) \<noteq> tls_id_of offset
         then (let i = segment_index seg;
                   s = set_cell b (sas_thread_free (sas s i)) s
               in upd_sas i (\<lambda>x. x\<lparr>sas_thread_free := b\<rparr>) s)
         else s)"

definition recovery_unlink_reference :: "u64 \<Rightarrow> u64 \<Rightarrow> u64 \<Rightarrow> shm \<Rightarrow> shm" where
  "recovery_unlink_reference ref refed offset s =
     (let c = dead_client offset;
          info = cell s (obj_info refed);
          cnt = ref_info_cnt info;
          cur_era = own_era c s;
          s = see_era c info s;
          s = set_cell (obj_info refed)
                (pack_ref_info (ucast (tls_id_of offset)) (ucast cnt - 1) cur_era) s;
          s = set_cell ref 0 s;
          s = bump_era c s
      in if get_ref_cnt_from_info info - 1 > 0 then s else recovery_cxl_free False refed offset s)"

partial_function (option) recovery_test_free_at :: "u64 \<Rightarrow> u64 + u64 \<times> u64 \<Rightarrow> shm \<Rightarrow> shm option" where
  "recovery_test_free_at offset w s =
     (case w of
        Inl ref \<Rightarrow>
          (let refed = cell s ref
           in if refed = 0 then Some s
              else (let ref_cnt = get_ref_cnt_from_info (cell s (obj_info refed))
                    in if ref_cnt = 0 then Some s
                       else if ref_cnt - 1 > 0 then Some (recovery_unlink_reference ref refed offset s)
                       else do {
                              s \<leftarrow> recovery_test_free_at offset (Inr (refed, 0)) s;
                              Some (recovery_unlink_reference ref (cell s ref) offset s)
                            }))
      | Inr (refed, i) \<Rightarrow>
          if i < cell s (obj_emb refed)
          then do {
                 s \<leftarrow> recovery_test_free_at offset (Inl (refed + (sizeof_CXLObj + i * 8))) s;
                 recovery_test_free_at offset (Inr (refed, i + 1)) s
               }
          else Some s)"

definition recovery_test_free :: "u64 \<Rightarrow> u64 \<Rightarrow> shm \<Rightarrow> shm option" where
  "recovery_test_free offset ref s = recovery_test_free_at offset (Inl ref) s"

definition recovery_cxl_page_free :: "u64 \<Rightarrow> shm \<Rightarrow> shm" where
  "recovery_cxl_page_free pg s = upd_page pg (\<lambda>_. zero_page) s"

definition recovery_cxl_segment_free :: "u64 \<Rightarrow> u64 \<Rightarrow> shm \<Rightarrow> shm option" where
  "recovery_cxl_segment_free seg offset s =
     (let s = clear_segment seg s;
          idx = segment_index seg
      in if sas_thread_id (sas s idx) = tls_id_of offset
         then Some (upd_sas idx (\<lambda>x. x\<lparr>sas_thread_id := 0\<rparr>) s) else None)"

section \<open>Message queues of an exiting or dead thread\<close>

text \<open>
  The three loops over the slots of a queue. \<open>free\<close> is \<open>test_free\<close> or \<open>recovery_test_free\<close>; \<open>fld\<close> is
  the cell with the index to stop at, which every iteration reads.
\<close>

definition free_slot :: "(u64 \<Rightarrow> shm \<Rightarrow> shm option) \<Rightarrow> u64 \<Rightarrow> u64 \<Rightarrow> shm \<Rightarrow> shm option" where
  "free_slot free q i s = (if cell s (mq_slot q i) \<noteq> 0 then free (mq_slot q i) s else Some s)"

partial_function (option) drain_slots ::
    "(u64 \<Rightarrow> shm \<Rightarrow> shm option) \<Rightarrow> u64 \<Rightarrow> u64 \<Rightarrow> u64 \<Rightarrow> shm \<Rightarrow> shm option" where
  "drain_slots free q fld i s =
     (if i = cell s fld then Some s
      else do {
             s \<leftarrow> free_slot free q i s;
             drain_slots free q fld ((i + 1) mod MESSAGE_BUFFER_SIZE) s
           })"

definition sender_slots :: "(u64 \<Rightarrow> shm \<Rightarrow> shm option) \<Rightarrow> u64 \<Rightarrow> shm \<Rightarrow> shm option" where
  "sender_slots free q s =
     do {
       let i = cell s (mq_end q);
       s \<leftarrow> free_slot free q i s;
       s \<leftarrow> drain_slots free q (mq_start q) ((i + 1) mod MESSAGE_BUFFER_SIZE) s;
       if get_receiver_id (cell s (mq_ids q)) = 0
       then drain_slots free q (mq_end q) (cell s (mq_start q)) s
       else Some s
     }"

partial_function (option) sender_queues ::
    "(u64 \<Rightarrow> shm \<Rightarrow> shm option) \<Rightarrow> u64 \<Rightarrow> shm \<Rightarrow> shm option" where
  "sender_queues free q s =
     (if q = 0 then Some s
      else (let nxt = cell s (mq_sender_next q)
            in do {
                 s \<leftarrow> sender_slots free q s;
                 let s = set_cell (mq_ids q) (set_sender_id 0 (cell s (mq_ids q))) s;
                 sender_queues free nxt (set_sas_state ABANDON q s)
               }))"

partial_function (option) receiver_queues ::
    "(u64 \<Rightarrow> shm \<Rightarrow> shm option) \<Rightarrow> u64 \<Rightarrow> shm \<Rightarrow> shm option" where
  "receiver_queues free q s =
     (if q = 0 then Some s
      else (let nxt = cell s (mq_receiver_next q)
            in do {
                 s \<leftarrow> drain_slots free q (mq_end q) (cell s (mq_start q)) s;
                 receiver_queues free nxt
                   (set_cell (mq_ids q) (set_receiver_id 0 (cell s (mq_ids q))) s)
               }))"

section \<open>Pages of an exiting thread\<close>

text \<open>
  \<open>normal_garbage_collection\<close> on the blocks of a page of root references, from \<open>block\<close> to
  \<open>last_block\<close>. Releasing the last block in use gives the page back, so the loop stops there.
\<close>

definition page_first :: "u64 \<Rightarrow> shm \<Rightarrow> u64" where
  "page_first pg s = cxl_page_block_at (cxl_page_start (cxl_ptr_segment pg) pg)
     (ucast (pg_block_size (page s pg))) 0"

definition page_last :: "u64 \<Rightarrow> shm \<Rightarrow> u64" where
  "page_last pg s = cxl_page_block_at (cxl_page_start (cxl_ptr_segment pg) pg)
     (ucast (pg_block_size (page s pg))) (PAGE_SIZE div ucast (pg_block_size (page s pg)) - 1)"

partial_function (option) exit_tbr_blocks :: "client \<Rightarrow> u64 \<Rightarrow> u64 \<Rightarrow> u64 \<Rightarrow> shm \<Rightarrow> shm option" where
  "exit_tbr_blocks c pg last_block block s =
     (if block \<le> last_block
      then (let nxt = block + ucast (pg_block_size (page s pg))
            in if get_in_use (cell s (block + 8)) = 1
               then do {
                      s \<leftarrow> test_free c block s;
                      let s = set_cell (block + 8) (set_in_use 0 (cell s (block + 8))) s;
                      let flag = (pg_used (page s pg) = 1);
                      s \<leftarrow> cxl_free c True block s;
                      if flag then Some s else exit_tbr_blocks c pg last_block nxt s
                    }
               else exit_tbr_blocks c pg last_block nxt s)
      else Some s)"

partial_function (option) exit_tbr_pages :: "client \<Rightarrow> u64 option \<Rightarrow> shm \<Rightarrow> shm option" where
  "exit_tbr_pages c r s =
     (case r of
        None \<Rightarrow> Some s
      | Some pg \<Rightarrow>
          (let nxt = get_page_by_offset (pg_next (page s pg))
           in if pg_block_size (page s pg) = 0 then None
              else do {
                     s \<leftarrow> exit_tbr_blocks c pg (page_last pg s) (page_first pg s) s;
                     exit_tbr_pages c nxt s
                   }))"

partial_function (option) exit_obj_pages :: "client \<Rightarrow> u64 option \<Rightarrow> shm \<Rightarrow> shm option" where
  "exit_obj_pages c r s =
     (case r of
        None \<Rightarrow> Some s
      | Some pg \<Rightarrow>
          (let nxt = get_page_by_offset (pg_next (page s pg))
           in do {
                s \<leftarrow> cxl_thread_free_collect pg s;
                if pg_used (page s pg) = 0
                then do {
                       bin \<leftarrow> cxl_page_queue False (ucast (pg_block_size (page s pg)));
                       s \<leftarrow> cxl_page_free c pg (cl_tls_offset c, bin) s;
                       exit_obj_pages c nxt s
                     }
                else exit_obj_pages c nxt (set_sas_state ABANDON pg s)
              }))"

text \<open>A counted loop whose body may fail.\<close>

primrec for_range :: "(nat \<Rightarrow> 's \<Rightarrow> 's option) \<Rightarrow> nat \<Rightarrow> nat \<Rightarrow> 's \<Rightarrow> 's option" where
  "for_range f i 0 s = Some s"
| "for_range f i (Suc n) s = do { s \<leftarrow> f i s; for_range f (Suc i) n s }"

definition release_tls :: "u64 \<Rightarrow> shm \<Rightarrow> shm" where
  "release_tls offset s =
     (let s = upd_tls offset reset_queues s
      in upd_tls offset (\<lambda>t. t\<lparr>tls_packed_id := 0\<rparr>) s)"

definition normal_garbage_collection :: "client \<Rightarrow> shm \<Rightarrow> shm option" where
  "normal_garbage_collection c s =
     (let t = cl_tls_offset c
      in do {
           bin \<leftarrow> cxl_page_queue True 16;
           s \<leftarrow> exit_tbr_pages c (get_page_by_offset (pq_first (get_pq (t, bin) s))) s;
           s \<leftarrow> sender_queues (test_free c) (tls_sender_queue (tls s t)) s;
           s \<leftarrow> receiver_queues (test_free c) (tls_receiver_queue (tls s t)) s;
           s \<leftarrow> for_range (\<lambda>i s. exit_obj_pages c (get_page_by_offset (pq_first (get_pq (t, Bin i) s))) s)
                  2 (CXL_BIN_SIZE - 2) s;
           Some (release_tls t s)
         })"

section \<open>Pages of a dead thread\<close>

text \<open>
  A root reference of a dead thread may be half-made: the object it names may still be the head of
  its page's free list (allocated but not taken), or a block of the page of root references itself.
\<close>

definition dead_tbr :: "u64 \<Rightarrow> u64 \<Rightarrow> u64 \<Rightarrow> u64 \<Rightarrow> shm \<Rightarrow> shm option" where
  "dead_tbr offset start_block last_block block s =
     do {
       let refed = cell s block;
       s \<leftarrow> (if refed \<noteq> 0 \<and> refed \<noteq> pg_free (page s (cxl_ptr_page refed)) \<and>
                \<not> (start_block \<le> refed \<and> refed \<le> last_block)
             then recovery_test_free offset block s else Some s);
       let s = set_cell (block + 8) (set_in_use 0 (cell s (block + 8))) s;
       Some (recovery_cxl_free True block offset s)
     }"

partial_function (option) dead_tbr_blocks ::
    "u64 \<Rightarrow> u64 \<Rightarrow> u64 \<Rightarrow> u64 \<Rightarrow> u64 \<Rightarrow> shm \<Rightarrow> shm option" where
  "dead_tbr_blocks offset pg start_block last_block block s =
     (if block \<le> last_block
      then (let nxt = block + ucast (pg_block_size (page s pg))
            in if get_in_use (cell s (block + 8)) = 1
               then do {
                      s \<leftarrow> dead_tbr offset start_block last_block block s;
                      dead_tbr_blocks offset pg start_block last_block nxt s
                    }
               else dead_tbr_blocks offset pg start_block last_block nxt s)
      else Some s)"

partial_function (option) dead_tbr_pages :: "u64 \<Rightarrow> u64 option \<Rightarrow> shm \<Rightarrow> shm option" where
  "dead_tbr_pages offset r s =
     (case r of
        None \<Rightarrow> Some s
      | Some pg \<Rightarrow>
          (let nxt = get_page_by_offset (pg_next (page s pg))
           in if pg_block_size (page s pg) = 0 then None
              else do {
                     s \<leftarrow> dead_tbr_blocks offset pg (page_first pg s) (page_last pg s) (page_first pg s) s;
                     dead_tbr_pages offset nxt (recovery_cxl_page_free pg s)
                   }))"

text \<open>Is there an object with a positive count among the blocks?\<close>

partial_function (option) live_obj :: "u64 \<Rightarrow> u64 \<Rightarrow> u64 \<Rightarrow> shm \<Rightarrow> bool option" where
  "live_obj bs last_block block s =
     (if block \<le> last_block
      then if get_ref_cnt_from_info (cell s (obj_info block)) > 0 then Some True
           else live_obj bs last_block (block + bs) s
      else Some False)"

partial_function (option) dead_obj_pages :: "u64 \<Rightarrow> u64 option \<Rightarrow> shm \<Rightarrow> shm option" where
  "dead_obj_pages offset r s =
     (case r of
        None \<Rightarrow> Some s
      | Some pg \<Rightarrow>
          (let nxt = get_page_by_offset (pg_next (page s pg));
               s = (case get_block_by_offset (pg_free (page s pg)) of
                      None \<Rightarrow> s
                    | Some b \<Rightarrow> set_cell (obj_info b) 0 s)
           in if pg_block_size (page s pg) = 0 then None
              else do {
                     live \<leftarrow> live_obj (ucast (pg_block_size (page s pg))) (page_last pg s) (page_first pg s) s;
                     dead_obj_pages offset nxt
                       (if live then set_sas_state ABANDON pg s else recovery_cxl_page_free pg s)
                   }))"

definition free_dead_segment :: "u64 \<Rightarrow> nat \<Rightarrow> shm \<Rightarrow> shm option" where
  "free_dead_segment offset i s =
     (if sas_thread_id (sas s (of_nat i)) = tls_id_of offset \<and> sas_state (sas s (of_nat i)) \<noteq> ABANDON
      then recovery_cxl_segment_free (seg_at i) offset s else Some s)"

text \<open>The final exchange waits for the thread state to hold the dead thread's packed id.\<close>

definition recovery_garbage_collection :: "u64 \<Rightarrow> u64 \<Rightarrow> shm \<Rightarrow> shm option" where
  "recovery_garbage_collection offset packed_id s =
     do {
       bin \<leftarrow> cxl_page_queue True 16;
       s \<leftarrow> dead_tbr_pages offset (get_page_by_offset (pq_first (get_pq (offset, bin) s))) s;
       s \<leftarrow> sender_queues (recovery_test_free offset) (tls_sender_queue (tls s offset)) s;
       s \<leftarrow> receiver_queues (recovery_test_free offset) (tls_receiver_queue (tls s offset)) s;
       s \<leftarrow> for_range (\<lambda>i s. dead_obj_pages offset (get_page_by_offset (pq_first (get_pq (offset, Bin i) s))) s)
              2 (CXL_BIN_SIZE - 2) s;
       s \<leftarrow> for_range (free_dead_segment offset) 0 MAX_SEGMENT_NUM s;
       let s = upd_tls offset reset_queues s;
       if tls_packed_id (tls s offset) = packed_id
       then Some (upd_tls offset (\<lambda>t. t\<lparr>tls_packed_id := 0\<rparr>) s) else None
     }"

section \<open>The monitor's loop\<close>

definition check_tls :: "u64 \<Rightarrow> bool" where
  "check_tls packed_id \<longleftrightarrow> packed_id \<noteq> 0"

definition recover_thread :: "nat \<Rightarrow> shm \<Rightarrow> shm option" where
  "recover_thread i s =
     (let offset = THREAD_LOCAL_VEC_START + of_nat i * sizeof_tls;
          packed_id = tls_packed_id (tls s offset)
      in if check_tls packed_id then recovery_garbage_collection offset packed_id (redo_ref_cnt offset s) else Some s)"

text \<open>
  The sweep of a segment. A page of message queues is live when a queue has a sender or a receiver,
  and queues without are cleared; the sweep stops at the first live page.
\<close>

partial_function (option) sweep_blocks ::
    "u64 \<Rightarrow> u64 \<Rightarrow> u64 \<Rightarrow> shm \<Rightarrow> (bool \<times> shm) option" where
  "sweep_blocks pg last_block block s =
     (if block \<le> last_block
      then (let nxt = block + ucast (pg_block_size (page s pg))
            in if \<not> pg_is_msg_queue (page s pg)
               then (if get_ref_cnt_from_info (cell s (obj_info block)) > 0 then Some (True, s)
                     else sweep_blocks pg last_block nxt s)
               else (if get_receiver_id (cell s (mq_ids block)) \<noteq> 0 \<or> get_sender_id (cell s (mq_ids block)) \<noteq> 0
                     then Some (True, s)
                     else sweep_blocks pg last_block nxt (clear_cells block 24 s)))
      else Some (False, s))"

primrec sweep_pages :: "u64 \<Rightarrow> nat \<Rightarrow> nat \<Rightarrow> shm \<Rightarrow> (bool \<times> shm) option" where
  "sweep_pages seg j 0 s = Some (False, s)"
| "sweep_pages seg j (Suc n) s =
     (let pg = meta_at seg j
      in if pg_block_size (page s pg) = 0 then sweep_pages seg (Suc j) n s
         else do {
                (live, s) \<leftarrow> sweep_blocks pg (page_last pg s) (page_first pg s) s;
                if live then Some (True, s)
                else sweep_pages seg (Suc j) n (upd_page pg (\<lambda>_. zero_page) s)
              })"

definition sweep_segment :: "nat \<Rightarrow> shm \<Rightarrow> shm option" where
  "sweep_segment i s =
     (if sas_thread_id (sas s (of_nat i)) = 0 then Some s
      else do {
             (live, s) \<leftarrow> sweep_pages (seg_at i) 0 PAGES_PER_SEGMENT s;
             if live then Some s
             else (let s = clear_segment (seg_at i) s;
                       s = upd_sas (of_nat i) (\<lambda>x. x\<lparr>sas_state := NORMAL, sas_thread_free := 0\<rparr>) s
                   in Some (upd_sas (of_nat i) (\<lambda>x. x\<lparr>sas_thread_id := 0\<rparr>) s))
           })"

definition single_recovery_loop :: "shm \<Rightarrow> shm option" where
  "single_recovery_loop s =
     do {
       s \<leftarrow> for_range recover_thread 0 MAX_THREAD s;
       for_range sweep_segment 0 MAX_SEGMENT_NUM s
     }"

text \<open>\<open>recovery_loop\<close> repeats the round for ever; \<open>recovery_loop n\<close> is its first \<open>n\<close> turns.\<close>

primrec recovery_loop :: "nat \<Rightarrow> shm \<Rightarrow> shm option" where
  "recovery_loop 0 s = Some s"
| "recovery_loop (Suc n) s = do { s \<leftarrow> single_recovery_loop s; recovery_loop n s }"

text \<open>\<open>check_recovery\<close>: no thread state and no segment is taken.\<close>

definition check_recovery :: "shm \<Rightarrow> bool" where
  "check_recovery s \<longleftrightarrow>
     list_all (\<lambda>i. tls_packed_id (tls s (THREAD_LOCAL_VEC_START + of_nat i * sizeof_tls)) = 0) [0..<MAX_THREAD] \<and>
     list_all (\<lambda>i. sas_thread_id (sas s (of_nat i)) = 0) [0..<MAX_SEGMENT_NUM]"

end
