(* ===== verification/Redo.thy ===== *)
theory Redo
  imports Recovery
begin

text \<open>
  What replaying the redo log does. A link or an unlink that crashes after its record is written is
  completed exactly when its compare-and-swap took place; the replay touches one reference cell and
  never a segment's state. Two lemmas show where the replay goes wrong: it also repeats an operation
  that was complete and whose reference has moved on, and it takes a node of the hash index for
  linked that was only prepared.
\<close>

section \<open>The newest record\<close>

lemma fold_max:
  fixes key :: "'a \<Rightarrow> u32"
  shows "fold (\<lambda>i best. if key best < key (f i) then f i else best) xs b \<in> insert b (f ` set xs)"
    and "\<forall>x \<in> insert b (f ` set xs). key x \<le> key (fold (\<lambda>i best. if key best < key (f i) then f i else best) xs b)"
proof (induction xs arbitrary: b)
  case (Cons i xs)
  case 1
  then show ?case using Cons.IH(1)[of "if key b < key (f i) then f i else b"] by (auto split: if_splits)
next
  case (Cons i xs)
  case 2
  let ?b = "if key b < key (f i) then f i else b"
  have le: "key b \<le> key ?b" "key (f i) \<le> key ?b" by auto
  show ?case using Cons.IH(2)[of ?b] le by (auto intro: order_trans)
qed simp_all

lemma newest_redo_max:
  "\<exists>i < REDO_CACHELINE_CNT. newest_redo slots = slots i"
  "i < REDO_CACHELINE_CNT \<Longrightarrow> rl_cur_era (slots i) \<le> rl_cur_era (newest_redo slots)"
proof -
  note m = fold_max[where key = rl_cur_era and f = slots and xs = "[1..<REDO_CACHELINE_CNT]" and b = "slots 0",
      folded newest_redo_def]
  show "\<exists>i < REDO_CACHELINE_CNT. newest_redo slots = slots i"
    using m(1) by (auto simp: layout_simps intro: exI[of _ 0])
  show "rl_cur_era (slots i) \<le> rl_cur_era (newest_redo slots)" if "i < REDO_CACHELINE_CNT"
  proof (cases "i = 0")
    case False
    then have "i \<in> set [1..<REDO_CACHELINE_CNT]" using that by simp
    then show ?thesis using m(2) by blast
  qed (use m(2) in simp)
qed

lemma newest_redo_upd:
  assumes "k < REDO_CACHELINE_CNT" "\<forall>i < REDO_CACHELINE_CNT. rl_cur_era (slots i) < rl_cur_era r"
  shows "newest_redo (slots(k := r)) = r"
proof -
  obtain i where i: "i < REDO_CACHELINE_CNT" "newest_redo (slots(k := r)) = (slots(k := r)) i"
    using newest_redo_max(1) by blast
  have "rl_cur_era ((slots(k := r)) k) \<le> rl_cur_era (newest_redo (slots(k := r)))"
    by (rule newest_redo_max(2)[OF assms(1)])
  then have "rl_cur_era r \<le> rl_cur_era ((slots(k := r)) i)" using i(2) by simp
  then have "i = k" using assms(2)[rule_format, OF i(1)] by (auto split: if_splits)
  then show ?thesis using i(2) by simp
qed

lemma redo_slot_bound: "redo_slot e < REDO_CACHELINE_CNT"
proof -
  have "(of_nat REDO_CACHELINE_CNT - 1 :: u32) = mask 3"
    by (simp add: layout_simps mask_eq_exp_minus_1)
  then have "redo_slot e = unat (take_bit 3 e)" by (simp add: redo_slot_def take_bit_eq_mask)
  also have "\<dots> < 8" using take_bit_nat_less_exp[of 3 "unat e"] by (simp add: unsigned_take_bit_eq)
  finally show ?thesis by (simp add: layout_simps)
qed

section \<open>What the other threads have seen\<close>

lemma max_seen_bounds:
  "max_seen tid s = 0 \<or> (\<exists>j < MAX_THREAD. int j \<noteq> uint tid \<and> max_seen tid s = era (int j) (uint tid) s)"
  "j < MAX_THREAD \<Longrightarrow> int j \<noteq> uint tid \<Longrightarrow> era (int j) (uint tid) s \<le> max_seen tid s"
proof -
  let ?f = "\<lambda>j. if int j = uint tid then 0 else era (int j) (uint tid) s"
  have step: "(if int j = uint tid then m
       else if m < era (int j) (uint tid) s then era (int j) (uint tid) s else m) = max m (?f j)" for j m
    by (auto simp: max_def not_less)
  have eq: "max_seen tid s = fold (\<lambda>j m. if m < ?f j then ?f j else m) [0..<MAX_THREAD] 0"
    unfolding max_seen_def step by (rule arg_cong[where f = "\<lambda>g. fold g _ _"]) (auto simp: max_def fun_eq_iff)
  note m = fold_max[where key = "\<lambda>x. x" and f = ?f and xs = "[0..<MAX_THREAD]" and b = 0, folded eq]
  show "max_seen tid s = 0 \<or> (\<exists>j < MAX_THREAD. int j \<noteq> uint tid \<and> max_seen tid s = era (int j) (uint tid) s)"
    using m(1) by (auto split: if_splits)
  show "era (int j) (uint tid) s \<le> max_seen tid s" if "j < MAX_THREAD" "int j \<noteq> uint tid"
  proof -
    have "?f j \<le> max_seen tid s" using m(2) that(1) by simp
    then show ?thesis using that(2) by simp
  qed
qed

text \<open>The loop stops before the last thread: what thread \<open>MAX_THREAD\<close> has seen does not count.\<close>

lemma max_seen_cong:
  assumes "\<forall>j < MAX_THREAD. int j \<noteq> uint tid \<longrightarrow> era (int j) (uint tid) s' = era (int j) (uint tid) s"
  shows "max_seen tid s' = max_seen tid s"
proof -
  have "fold (\<lambda>j m. if int j = uint tid then m
       else if m < era (int j) (uint tid) s' then era (int j) (uint tid) s' else m) js 0 =
     fold (\<lambda>j m. if int j = uint tid then m
       else if m < era (int j) (uint tid) s then era (int j) (uint tid) s else m) js 0"
    if "set js \<subseteq> {..<MAX_THREAD}" for js
    using that assms by (intro fold_cong) (auto simp: subset_iff cong: if_cong)
  then show ?thesis by (simp add: max_seen_def lessThan_atLeast0)
qed

text \<open>
  C30: What thread MAX_THREAD has seen does not enter the test of the replay.
\<close>

lemma max_seen_last_row:
  assumes "valid_id (uint tid)"
  shows "max_seen tid (set_era (int MAX_THREAD) (uint tid) v s) = max_seen tid s"
  using assms by (intro max_seen_cong) (auto simp: era_set_era)

section \<open>The effect of a replay\<close>

lemma redo_ref_cnt_sel:
  "page (redo_ref_cnt offset s) = page s" "segment (redo_ref_cnt offset s) = segment s"
  "era_tab (redo_ref_cnt offset s) = era_tab s" "tls (redo_ref_cnt offset s) = tls s"
  by (simp_all add: redo_ref_cnt_def Let_def set_sas_state_def state_simps)

text \<open>
  The saved count has 16 bits, and the count field of a packed word starts at bit 32, so the test
  for a count of 1 always fails: no segment is ever marked \<open>POTENTIAL_LEAKING\<close>.
\<close>

lemma saved_cnt_field: "get_ref_cnt_from_info (ucast (n :: u16)) = 0"
proof -
  have "unat (ucast n :: u64) = unat n"
    using unsigned_less[of n, where 'a = nat] by (simp add: unsigned_ucast_eq take_bit_nat_eq_self)
  then have "unat (get_ref_cnt_from_info (ucast n)) = 0"
    using unsigned_less[of n, where 'a = nat] by (simp add: unat_get_ref_cnt)
  then show ?thesis by (simp only: unat_eq_0)
qed

text \<open>
  C29: The replay never changes the state of a segment: the branch that marks POTENTIAL_LEAKING is
  dead.
\<close>

lemma redo_ref_cnt_sas: "sas (redo_ref_cnt offset s) = sas s"
  by (simp add: redo_ref_cnt_def Let_def saved_cnt_field state_simps)

lemma redo_link:
  assumes "newest_redo (tls_redo (tls s offset)) = r" "rl_func_id r = LINK_REF"
  shows "cell (redo_ref_cnt offset s) =
     (if need_redo (tls_id_of offset) r s then (cell s)(rl_ref r := rl_refed r) else cell s)"
  using assms by (simp add: redo_ref_cnt_def Let_def state_simps)

lemma redo_unlink:
  assumes "newest_redo (tls_redo (tls s offset)) = r" "rl_func_id r = UNLINK_REF"
  shows "cell (redo_ref_cnt offset s) =
     (if need_redo (tls_id_of offset) r s then (cell s)(rl_ref r := 0) else cell s)"
proof -
  have "UNLINK_REF \<noteq> LINK_REF" by (simp add: UNLINK_REF_def LINK_REF_def)
  then show ?thesis using assms by (simp add: redo_ref_cnt_def Let_def saved_cnt_field state_simps)
qed

lemma need_redo_iff:
  "need_redo tid r s \<longleftrightarrow>
     saw_cid (cell s (obj_info (rl_refed r))) = uint tid \<and> saw_era (cell s (obj_info (rl_refed r))) = rl_cur_era r \<or>
     rl_cur_era r \<le> max_seen tid s"
proof -
  let ?w = "cell s (obj_info (rl_refed r))"
  have "(ucast (get_lcid_from_info ?w) :: u32) = tid \<longleftrightarrow> saw_cid ?w = uint tid"
    unfolding saw_cid_def by (simp only: word_uint_eq_iff)
  then show ?thesis unfolding need_redo_def Let_def saw_era_def by auto
qed

section \<open>Crashes inside a link or an unlink\<close>

text \<open>
  The writes of \<open>link_reference\<close> and \<open>unlink_reference\<close> (before the release) in their order: the
  committer seen, the redo record, the exchange, the reference cell, the era. A crash leaves the
  first \<open>k\<close>.
\<close>

definition link_record :: "u16 \<Rightarrow> u64 \<Rightarrow> u32 \<Rightarrow> u64 \<Rightarrow> u64 \<Rightarrow> redo_log" where
  "link_record f w e ref refed = \<lparr>rl_func_id = f, rl_saved_ref_cnt = ref_info_cnt w, rl_cur_era = e,
     rl_ref = ref, rl_refed = refed, rl_old_refed = 0\<rparr>"

definition link_steps :: "client \<Rightarrow> u64 \<Rightarrow> u64 \<Rightarrow> shm \<Rightarrow> (shm \<Rightarrow> shm) list" where
  "link_steps c ref refed s =
     (let w = cell s (obj_info refed); e = own_era c s
      in [see_era c w, write_redo c e (link_record LINK_REF w e ref refed),
          set_cell (obj_info refed)
            (pack_ref_info (ucast (cl_thread_id c)) (ucast (ref_info_cnt w) + 1) e),
          set_cell ref refed, bump_era c])"

definition unlink_steps :: "client \<Rightarrow> u64 \<Rightarrow> u64 \<Rightarrow> shm \<Rightarrow> (shm \<Rightarrow> shm) list" where
  "unlink_steps c ref refed s =
     (let w = cell s (obj_info refed); e = own_era c (see_era c w s)
      in [see_era c w, write_redo c e (link_record UNLINK_REF w e ref refed),
          set_cell (obj_info refed)
            (pack_ref_info (ucast (cl_thread_id c)) (ucast (ref_info_cnt w) - 1) e),
          set_cell ref 0, bump_era c])"

definition crash_after :: "nat \<Rightarrow> (shm \<Rightarrow> shm) list \<Rightarrow> shm \<Rightarrow> shm" where
  "crash_after k fs s = fold (\<lambda>f. f) (take k fs) s"

lemma crash_after_all:
  "crash_after 5 (link_steps c ref b s) s = link_reference c ref b s"
  "crash_after 5 (unlink_steps c ref b s) s = unlink_commit c ref b s"
  by (simp_all add: crash_after_def link_steps_def unlink_steps_def link_record_def Let_def
      link_reference_def unlink_commit_def eval_nat_numeral)

text \<open>
  A client that starts an operation: its newest era is in no record and was seen by nobody.
\<close>

definition fresh_era :: "client \<Rightarrow> u64 \<Rightarrow> shm \<Rightarrow> bool" where
  "fresh_era c b s \<longleftrightarrow>
     tls_id_of (cl_tls_offset c) = cl_thread_id c \<and>
     valid_id (uint (cl_thread_id c)) \<and> valid_id (saw_cid (cell s (obj_info b))) \<and>
     (saw_cid (cell s (obj_info b)) = uint (cl_thread_id c) \<longrightarrow>
        saw_era (cell s (obj_info b)) < own_era c s) \<and>
     (\<forall>i < REDO_CACHELINE_CNT. rl_cur_era (tls_redo (tls s (cl_tls_offset c)) i) < own_era c s) \<and>
     (\<forall>j < MAX_THREAD. int j \<noteq> uint (cl_thread_id c) \<longrightarrow>
        era (int j) (uint (cl_thread_id c)) s < own_era c s)"

lemma fresh_era_ok: "fresh_era c b s \<Longrightarrow> era_ok c (cell s (obj_info b)) s"
  by (auto simp: fresh_era_def era_ok_def)

lemma other_rows:
  assumes "fresh_era c b s" "x \<noteq> uint (cl_thread_id c)" "cell s (obj_info b) = w"
  shows "era x (uint (cl_thread_id c)) (see_era c w s) = era x (uint (cl_thread_id c)) s"
    "era x (uint (cl_thread_id c)) (bump_era c s') = era x (uint (cl_thread_id c)) s'"
  using assms by (auto simp: fresh_era_def see_era_def bump_era_def era_set_era)

lemma max_seen_fresh:
  assumes fresh: "fresh_era c b s"
    and "\<forall>j. int j \<noteq> uint (cl_thread_id c) \<longrightarrow>
      era (int j) (uint (cl_thread_id c)) s' = era (int j) (uint (cl_thread_id c)) s"
  shows "max_seen (cl_thread_id c) s' < own_era c s"
proof -
  have "max_seen (cl_thread_id c) s' = max_seen (cl_thread_id c) s"
    using assms(2) by (intro max_seen_cong) auto
  moreover have "0 < own_era c s"
    using fresh by (force simp: fresh_era_def layout_simps word_gt_0 dest: spec[of _ 0])
  ultimately show ?thesis
    using max_seen_bounds(1)[of "cl_thread_id c" s] fresh by (auto simp: fresh_era_def)
qed

text \<open>The states after the record, common to both operations; \<open>v\<close> is the new word, \<open>x\<close> the new reference.\<close>

lemma crash_states:
  assumes fresh: "fresh_era c b s" and w: "cell s (obj_info b) = w"
    and r: "rl_cur_era r = own_era c s" and s2: "s2 = write_redo c (own_era c s) r (see_era c w s)"
    and s': "s' \<in> {s2, set_cell a v s2, set_cell ref x (set_cell a v s2), bump_era c (set_cell ref x (set_cell a v s2))}"
  shows "newest_redo (tls_redo (tls s' (cl_tls_offset c))) = r"
    and "max_seen (cl_thread_id c) s' < own_era c s"
proof -
  have "tls s' = tls s2" using s' by (auto simp: state_simps)
  moreover have "tls_redo (tls s2 (cl_tls_offset c)) =
      (tls_redo (tls s (cl_tls_offset c)))(redo_slot (own_era c s) := r)"
    by (simp add: s2 write_redo_def state_simps)
  ultimately show "newest_redo (tls_redo (tls s' (cl_tls_offset c))) = r"
    using newest_redo_upd[OF redo_slot_bound] fresh r by (simp add: fresh_era_def)
  have "era y (uint (cl_thread_id c)) s2 = era y (uint (cl_thread_id c)) s" if "y \<noteq> uint (cl_thread_id c)" for y
    using other_rows(1)[OF fresh that w] by (simp add: s2 state_simps)
  then have "era y (uint (cl_thread_id c)) s' = era y (uint (cl_thread_id c)) s" if "y \<noteq> uint (cl_thread_id c)" for y
    using s' that other_rows(2)[OF fresh that refl] by (auto simp: state_simps)
  then show "max_seen (cl_thread_id c) s' < own_era c s" by (intro max_seen_fresh[OF fresh]) auto
qed

lemma crash_after_link:
  assumes "w = cell s (obj_info b)" "e = own_era c s"
    "s2 = write_redo c e (link_record LINK_REF w e ref b) (see_era c w s)"
    "v = commit_word c (get_ref_cnt_from_info w + 1) e"
  shows "crash_after 2 (link_steps c ref b s) s = s2"
    "crash_after 3 (link_steps c ref b s) s = set_cell (obj_info b) v s2"
    "crash_after 4 (link_steps c ref b s) s = set_cell ref b (set_cell (obj_info b) v s2)"
    "crash_after 5 (link_steps c ref b s) s = bump_era c (set_cell ref b (set_cell (obj_info b) v s2))"
  unfolding assms
  by (simp_all add: crash_after_def link_steps_def Let_def eval_nat_numeral commit_word_def ucast_ref_info_cnt)

lemma crash_after_unlink:
  assumes "w = cell s (obj_info b)" "e = own_era c (see_era c w s)"
    "s2 = write_redo c e (link_record UNLINK_REF w e ref b) (see_era c w s)"
    "v = commit_word c (get_ref_cnt_from_info w - 1) e"
  shows "crash_after 2 (unlink_steps c ref b s) s = s2"
    "crash_after 3 (unlink_steps c ref b s) s = set_cell (obj_info b) v s2"
    "crash_after 4 (unlink_steps c ref b s) s = set_cell ref 0 (set_cell (obj_info b) v s2)"
    "crash_after 5 (unlink_steps c ref b s) s = bump_era c (set_cell ref 0 (set_cell (obj_info b) v s2))"
  unfolding assms
  by (simp_all add: crash_after_def unlink_steps_def Let_def eval_nat_numeral commit_word_def
      ucast_ref_info_cnt)

text \<open>Before the exchange the replay leaves the cells alone, after it it completes the operation.\<close>

lemma need_redo_before:
  assumes fresh: "fresh_era c b s" and "cell s' (obj_info b) = cell s (obj_info b)"
    and "rl_refed r = b" "rl_cur_era r = own_era c s" "max_seen (cl_thread_id c) s' < own_era c s"
  shows "\<not> need_redo (cl_thread_id c) r s'"
  using assms by (auto simp: need_redo_iff fresh_era_def)

lemma need_redo_after:
  assumes "fresh_era c b s" "unat n < 2 ^ 16" "cell s' (obj_info b) = commit_word c n (own_era c s)"
    and "rl_refed r = b" "rl_cur_era r = own_era c s"
  shows "need_redo (cl_thread_id c) r s'"
  using assms commit_word_fields[OF _ assms(2)] by (simp add: need_redo_iff fresh_era_def)

lemma link_crash_redo:
  assumes fresh: "fresh_era c b s" and cnt: "obj_cnt b s < 65535" and apart: "ref \<noteq> obj_info b"
    and k: "2 \<le> k" "k \<le> 5"
  shows "cell (redo_ref_cnt (cl_tls_offset c) (crash_after k (link_steps c ref b s) s)) =
    (if k = 2 then cell s else cell (link_reference c ref b s))"
proof -
  define w where "w = cell s (obj_info b)"
  define r where "r = link_record LINK_REF w (own_era c s) ref b"
  define s2 where "s2 = write_redo c (own_era c s) r (see_era c w s)"
  define v where "v = commit_word c (get_ref_cnt_from_info w + 1) (own_era c s)"
  note st = crash_after_link[OF w_def refl s2_def[unfolded r_def] v_def]
  have tid: "tls_id_of (cl_tls_offset c) = cl_thread_id c" using fresh by (simp add: fresh_era_def)
  have r: "rl_cur_era r = own_era c s" "rl_refed r = b" "rl_ref r = ref" "rl_func_id r = LINK_REF"
    by (simp_all add: r_def link_record_def)
  note cs = crash_states[OF fresh w_def[symmetric] r(1) s2_def, where a = "obj_info b" and v = v and ref = ref and x = b]
  have "unat (get_ref_cnt_from_info w + 1) = unat (get_ref_cnt_from_info w) + 1"
    using cnt by (intro unat_inc) (simp add: obj_cnt_def w_def)
  then have n: "unat (get_ref_cnt_from_info w + 1) < 2 ^ 16" using cnt by (simp add: obj_cnt_def w_def)
  have cell2: "cell s2 = cell s" by (simp add: s2_def state_simps)
  have link: "cell (link_reference c ref b s) = (cell s)(obj_info b := v, ref := b)"
    by (simp add: link_reference_sel v_def w_def)
  have "\<not> need_redo (cl_thread_id c) r s2"
    by (rule need_redo_before[OF fresh _ r(2,1) cs(2)]) (simp_all add: cell2)
  then have at2: "cell (redo_ref_cnt (cl_tls_offset c) s2) = cell s"
    using redo_link[OF cs(1) r(4)] by (simp add: tid cell2)
  have later: "cell (redo_ref_cnt (cl_tls_offset c) s') = (cell s')(ref := b)"
    if "s' \<in> {set_cell (obj_info b) v s2, set_cell ref b (set_cell (obj_info b) v s2),
      bump_era c (set_cell ref b (set_cell (obj_info b) v s2))}" for s'
  proof -
    have "cell s' (obj_info b) = v" using that apart by (auto simp: state_simps)
    then have "need_redo (cl_thread_id c) r s'"
      by (intro need_redo_after[OF fresh n _ r(2,1)]) (simp add: v_def)
    moreover have "newest_redo (tls_redo (tls s' (cl_tls_offset c))) = r" using that by (intro cs(1)) auto
    ultimately show ?thesis using redo_link r(2-4) tid by simp
  qed
  have three: "cell (redo_ref_cnt (cl_tls_offset c) (set_cell (obj_info b) v s2)) = cell (link_reference c ref b s)"
    "cell (redo_ref_cnt (cl_tls_offset c) (set_cell ref b (set_cell (obj_info b) v s2))) =
       cell (link_reference c ref b s)"
    "cell (redo_ref_cnt (cl_tls_offset c) (bump_era c (set_cell ref b (set_cell (obj_info b) v s2)))) =
       cell (link_reference c ref b s)"
    unfolding link by (subst later; simp add: set_cell_sel bump_era_sel cell2)+
  consider "k = 2" | "k = 3" | "k = 4" | "k = 5" using k by linarith
  then show ?thesis by cases (simp_all only: st at2 three if_True, simp_all)
qed

lemma unlink_crash_redo:
  assumes fresh: "fresh_era c b s" and cnt: "0 < obj_cnt b s" and apart: "ref \<noteq> obj_info b"
    and k: "2 \<le> k" "k \<le> 5"
  shows "cell (redo_ref_cnt (cl_tls_offset c) (crash_after k (unlink_steps c ref b s) s)) =
    (if k = 2 then cell s else cell (unlink_commit c ref b s))"
proof -
  define w where "w = cell s (obj_info b)"
  have era: "own_era c (see_era c w s) = own_era c s"
    unfolding w_def by (rule own_era_see[OF fresh_era_ok[OF fresh]])
  define r where "r = link_record UNLINK_REF w (own_era c s) ref b"
  define s2 where "s2 = write_redo c (own_era c s) r (see_era c w s)"
  define v where "v = commit_word c (get_ref_cnt_from_info w - 1) (own_era c s)"
  note st = crash_after_unlink[OF w_def era[symmetric] s2_def[unfolded r_def] v_def]
  have tid: "tls_id_of (cl_tls_offset c) = cl_thread_id c" using fresh by (simp add: fresh_era_def)
  have r: "rl_cur_era r = own_era c s" "rl_refed r = b" "rl_ref r = ref" "rl_func_id r = UNLINK_REF"
    by (simp_all add: r_def link_record_def)
  note cs = crash_states[OF fresh w_def[symmetric] r(1) s2_def, where a = "obj_info b" and v = v and ref = ref and x = 0]
  have "unat (get_ref_cnt_from_info w - 1) = unat (get_ref_cnt_from_info w) - 1"
    using cnt by (intro unat_dec) (simp add: obj_cnt_def w_def)
  then have n: "unat (get_ref_cnt_from_info w - 1) < 2 ^ 16"
    using obj_cnt_bound[of b s] by (simp add: obj_cnt_def w_def)
  have cell2: "cell s2 = cell s" by (simp add: s2_def state_simps)
  have unlink: "cell (unlink_commit c ref b s) = (cell s)(obj_info b := v, ref := 0)"
    by (simp add: unlink_commit_sel(1)[OF fresh_era_ok[OF fresh]] v_def w_def)
  have "\<not> need_redo (cl_thread_id c) r s2"
    by (rule need_redo_before[OF fresh _ r(2,1) cs(2)]) (simp_all add: cell2)
  then have at2: "cell (redo_ref_cnt (cl_tls_offset c) s2) = cell s"
    using redo_unlink[OF cs(1) r(4)] by (simp add: tid cell2)
  have later: "cell (redo_ref_cnt (cl_tls_offset c) s') = (cell s')(ref := 0)"
    if "s' \<in> {set_cell (obj_info b) v s2, set_cell ref 0 (set_cell (obj_info b) v s2),
      bump_era c (set_cell ref 0 (set_cell (obj_info b) v s2))}" for s'
  proof -
    have "cell s' (obj_info b) = v" using that apart by (auto simp: state_simps)
    then have "need_redo (cl_thread_id c) r s'"
      by (intro need_redo_after[OF fresh n _ r(2,1)]) (simp add: v_def)
    moreover have "newest_redo (tls_redo (tls s' (cl_tls_offset c))) = r" using that by (intro cs(1)) auto
    ultimately show ?thesis using redo_unlink r(2-4) tid by simp
  qed
  have three: "cell (redo_ref_cnt (cl_tls_offset c) (set_cell (obj_info b) v s2)) = cell (unlink_commit c ref b s)"
    "cell (redo_ref_cnt (cl_tls_offset c) (set_cell ref 0 (set_cell (obj_info b) v s2))) =
       cell (unlink_commit c ref b s)"
    "cell (redo_ref_cnt (cl_tls_offset c) (bump_era c (set_cell ref 0 (set_cell (obj_info b) v s2)))) =
       cell (unlink_commit c ref b s)"
    unfolding unlink by (subst later; simp add: set_cell_sel bump_era_sel cell2)+
  consider "k = 2" | "k = 3" | "k = 4" | "k = 5" using k by linarith
  then show ?thesis by cases (simp_all only: st at2 three if_True, simp_all)
qed

section \<open>Where the replay goes too far\<close>

lemma link_tls:
  "tls (link_reference c ref b s) = (tls s)(cl_tls_offset c := (tls s (cl_tls_offset c))
     \<lparr>tls_redo := (tls_redo (tls s (cl_tls_offset c)))(redo_slot (own_era c s) :=
        link_record LINK_REF (cell s (obj_info b)) (own_era c s) ref b)\<rparr>)"
  by (simp add: link_reference_def Let_def state_simps link_record_def write_redo_def)

lemma unlink_tls_other:
  "a \<noteq> cl_tls_offset c \<Longrightarrow> tls (unlink_commit c ref b s) a = tls s a"
  by (simp add: unlink_commit_def Let_def state_simps write_redo_def)

text \<open>A later operation of another thread on the same object raises that thread's view of the committer.\<close>

lemma link_sees:
  assumes "era_ok c (cell s (obj_info b)) s" "saw_cid (cell s (obj_info b)) \<noteq> uint (cl_thread_id c)"
  shows "saw_era (cell s (obj_info b)) \<le>
     era (uint (cl_thread_id c)) (saw_cid (cell s (obj_info b))) (link_reference c ref b s)"
  using bump_see_era(2)[OF assms] link_reference_era[of c ref b s] by (simp add: era_def)

lemma unlink_keeps_row:
  assumes "saw_cid (cell s (obj_info b)) = uint (cl_thread_id c)" "valid_id (uint (cl_thread_id c))"
    "valid_id y" "y \<noteq> uint (cl_thread_id c)"
  shows "era x y (unlink_commit c ref b s) = era x y s"
proof -
  have "era x y (unlink_commit c ref b s) = era x y (bump_era c (see_era c (cell s (obj_info b)) s))"
    using unlink_commit_era[of c ref b s] by (simp add: era_def)
  also have "\<dots> = era x y s"
    using assms by (auto simp: bump_era_def see_era_def era_set_era)
  finally show ?thesis .
qed

text \<open>
  C27: A sender \<open>c1\<close> links an object into a cell, a receiver \<open>c2\<close> links
  it elsewhere and clears the cell, and then the sender dies: replaying its log puts the reference
  back into the cell, although its link was complete and the count was given up.
\<close>

lemma redo_after_transfer:
  assumes fresh: "fresh_era c1 b s" and cnt: "obj_cnt b s < 65534"
    and c2: "valid_id (uint (cl_thread_id c2))" "uint (cl_thread_id c2) < int MAX_THREAD"
      "cl_thread_id c2 \<noteq> cl_thread_id c1" "cl_tls_offset c2 \<noteq> cl_tls_offset c1"
    and e2: "own_era c2 (link_reference c1 slot b s) \<noteq> - 1"
    and apart: "slot \<noteq> obj_info b" "t \<noteq> obj_info b" "slot \<noteq> t"
    and s1: "s1 = link_reference c1 slot b s" and s2: "s2 = link_reference c2 t b s1"
    and s3: "s3 = unlink_commit c2 slot b s2" and s4: "s4 = redo_ref_cnt (cl_tls_offset c1) s3"
  shows "cell s1 slot = b \<and> cell s3 slot = 0 \<and> cell s4 slot = b \<and> cell s4 t = b \<and>
    obj_cnt b s4 = obj_cnt b s + 1 \<and> own_era c1 s4 = own_era c1 s + 1"
proof (intro conjI)
  let ?o1 = "cl_tls_offset c1" and ?t1 = "uint (cl_thread_id c1)" and ?t2 = "uint (cl_thread_id c2)"
  have id1: "valid_id ?t1" and tid: "tls_id_of ?o1 = cl_thread_id c1"
    using fresh by (simp_all add: fresh_era_def)
  have tne: "?t2 \<noteq> ?t1" using c2(3) word_uint_eq_iff by blast
  have small: "obj_cnt b s < 65535" using cnt by simp
  note l1 = link_reference_count[OF fresh_era_ok[OF fresh] small apart(1), folded s1]
  have era1: "era_ok c2 (cell s1 (obj_info b)) s1" using c2(1) id1 l1(3) tne by (simp add: era_ok_def)
  have small1: "obj_cnt b s1 < 65535" using cnt l1(1) by simp
  note l2 = link_reference_count[OF era1 small1 apart(2), folded s2]
  have "1 + own_era c2 s1 \<noteq> 0" using e2 unfolding s1[symmetric] by (metis add.commute add_diff_cancel_right' diff_0)
  then have "own_era c2 s1 \<le> own_era c2 s1 + 1" by (simp add: word_le_nat_alt unatSuc add.commute)
  then have era2: "era_ok c2 (cell s2 (obj_info b)) s2" using c2(1) l2(3-5) by (simp add: era_ok_def)
  have pos2: "0 < obj_cnt b s2" using l2(1) by simp
  note u = unlink_commit_count[OF era2 pos2 apart(1), folded s3]
  show "cell s1 slot = b" "cell s3 slot = 0" by (fact l1(2) u(2))+
  let ?r = "link_record LINK_REF (cell s (obj_info b)) (own_era c1 s) slot b"
  have r: "rl_func_id ?r = LINK_REF" "rl_cur_era ?r = own_era c1 s" "rl_ref ?r = slot" "rl_refed ?r = b"
    by (simp_all add: link_record_def)
  have "tls s3 ?o1 = tls s1 ?o1"
    using c2(4) by (simp add: s3 s2 unlink_tls_other link_tls)
  then have "newest_redo (tls_redo (tls s3 ?o1)) = ?r"
    using newest_redo_upd[OF redo_slot_bound, of "tls_redo (tls s ?o1)" ?r] fresh r(2)
    by (simp add: s1 link_tls fresh_era_def)
  note redo = redo_link[OF this r(1), folded s4]
  have "own_era c1 s \<le> era ?t2 ?t1 s2"
    using link_sees[OF era1, of t] l1(3,4) tne by (simp add: s2)
  also have "\<dots> = era ?t2 ?t1 s3"
    unfolding s3 by (rule unlink_keeps_row[symmetric]) (use l2(3) c2(1) id1 tne in auto)
  also have "\<dots> \<le> max_seen (cl_thread_id c1) s3"
  proof -
    let ?j = "unat (cl_thread_id c2)"
    have j: "int ?j = ?t2" by simp
    then have "?j < MAX_THREAD" using c2(2) by linarith
    then show ?thesis using max_seen_bounds(2)[of ?j "cl_thread_id c1" s3] tne unfolding j by blast
  qed
  finally have "need_redo (tls_id_of ?o1) ?r s3" unfolding tid need_redo_iff r by blast
  then have cell4: "cell s4 = (cell s3)(slot := b)" using redo r by simp
  then show "cell s4 slot = b" by simp
  show "cell s4 t = b" using cell4 u(6) l2(2) apart by auto
  show "obj_cnt b s4 = obj_cnt b s + 1"
    using cell4 u(1) l2(1) l1(1) apart(1) by (simp add: obj_cnt_def)
  have "era ?t1 ?t1 s4 = era ?t1 ?t1 s3" by (simp add: s4 era_def redo_ref_cnt_sel)
  also have "\<dots> = era ?t1 ?t1 s2"
    unfolding s3 by (rule unlink_keeps_row) (use l2(3) c2(1) id1 tne in auto)
  also have "\<dots> = era ?t1 ?t1 s1"
  proof -
    have "era ?t1 ?t1 s2 = era ?t1 ?t1 (bump_era c2 (see_era c2 (cell s1 (obj_info b)) s1))"
      using link_reference_era[of c2 t b s1] by (simp add: s2 era_def)
    then show ?thesis using bump_see_era(3)[OF era1 _ id1, of ?t1] tne by simp
  qed
  finally show "own_era c1 s4 = own_era c1 s + 1" using l1(5) by (simp add: own_era_def)
qed

text \<open>
  C28: A node of the hash index carries the era that \<open>link_reference\<close> is about to
  commit. A crash between the record and the exchange is then taken for a committed link: the
  entry refers to an object of count 0.
\<close>

lemma redo_prepared_node:
  assumes id: "valid_id (uint (cl_thread_id c))" "tls_id_of (cl_tls_offset c) = cl_thread_id c"
    and word: "cell s (obj_info b) = commit_word c 0 (own_era c s)"
    and logs: "\<forall>i < REDO_CACHELINE_CNT. rl_cur_era (tls_redo (tls s (cl_tls_offset c)) i) < own_era c s"
    and apart: "e \<noteq> obj_info b"
    and s': "s' = redo_ref_cnt (cl_tls_offset c) (crash_after 2 (link_steps c e b s) s)"
  shows "cell s' e = b \<and> obj_cnt b s' = 0"
proof (intro conjI)
  let ?w = "cell s (obj_info b)" and ?e = "own_era c s"
  let ?r = "link_record LINK_REF ?w ?e e b"
  let ?s2 = "write_redo c ?e ?r (see_era c ?w s)"
  have st: "crash_after 2 (link_steps c e b s) s = ?s2" by (rule crash_after_link(1)[OF refl refl refl refl])
  have "tls_redo (tls ?s2 (cl_tls_offset c)) = (tls_redo (tls s (cl_tls_offset c)))(redo_slot ?e := ?r)"
    by (simp add: write_redo_def state_simps)
  then have newest: "newest_redo (tls_redo (tls ?s2 (cl_tls_offset c))) = ?r"
    using newest_redo_upd[OF redo_slot_bound] logs by (simp add: link_record_def)
  have f: "saw_cid ?w = uint (cl_thread_id c)" "saw_era ?w = ?e" "get_ref_cnt_from_info ?w = 0"
    unfolding word by (rule commit_word_fields[OF id(1)]; simp)+
  have "need_redo (cl_thread_id c) ?r ?s2"
    using f by (simp add: need_redo_iff link_record_def state_simps)
  then have cells: "cell s' = (cell s)(e := b)"
    using redo_link[OF newest] by (simp add: s' st id(2) link_record_def state_simps)
  then show "cell s' e = b" "obj_cnt b s' = 0" using apart f(3) by (simp_all add: obj_cnt_def)
qed

end
