(* ===== verification/Era_Protocol.thy ===== *)
theory Era_Protocol
  imports Redo
begin

text \<open>
  The commit protocol of \<open>link_reference\<close> and \<open>unlink_reference\<close> under interleaving. Each thread runs
  its operations line by line on the shared memory: load the packed word, note the era of its
  committer, write the redo record, exchange the word, write the reference, increment the era. A
  failed exchange loads again. A thread that stops anywhere is a thread that crashed there.

  The release after the last unlink is left out (the object then stays with count 0), as are runs in
  which an era or a count leaves its field.
\<close>

section \<open>The step relation\<close>

datatype pc = Idle | Looping | Loaded | Seen | Logged | Swapped | Stored

text \<open>The order of the stages, so that a crash point can be compared with one.\<close>

primrec pc_index :: "pc \<Rightarrow> nat" where
  "pc_index Idle = 0" | "pc_index Looping = 1" | "pc_index Loaded = 2" | "pc_index Seen = 3"
| "pc_index Logged = 4" | "pc_index Swapped = 5" | "pc_index Stored = 6"

instantiation pc :: linorder
begin

definition less_eq_pc :: "pc \<Rightarrow> pc \<Rightarrow> bool" where
  "less_eq_pc a b \<longleftrightarrow> pc_index a \<le> pc_index b"

definition less_pc :: "pc \<Rightarrow> pc \<Rightarrow> bool" where
  "less_pc a b \<longleftrightarrow> pc_index a < pc_index b"

instance
proof
  fix a b :: pc
  show "a \<le> b \<Longrightarrow> b \<le> a \<Longrightarrow> a = b"
    by (cases a; cases b) (simp_all add: less_eq_pc_def)
qed (auto simp: less_eq_pc_def less_pc_def)

end

record local_state =
  lo_pc :: pc
  lo_link :: bool
  lo_ref :: u64
  lo_refed :: u64
  lo_info :: u64
  lo_era :: u32

record pstate =
  mem :: shm
  loc :: "client \<Rightarrow> local_state"

definition op_id :: "bool \<Rightarrow> u16" where
  "op_id link = (if link then LINK_REF else UNLINK_REF)"

text \<open>The word the exchange installs, and the range of counts that the packing keeps apart.\<close>

definition new_word :: "client \<Rightarrow> bool \<Rightarrow> u64 \<Rightarrow> u32 \<Rightarrow> u64" where
  "new_word c link w e = pack_ref_info (ucast (cl_thread_id c))
     (if link then ucast (ref_info_cnt w) + 1 else ucast (ref_info_cnt w) - 1) e"

definition cnt_in_range :: "bool \<Rightarrow> u64 \<Rightarrow> bool" where
  "cnt_in_range link w \<longleftrightarrow> (if link then unat (ref_info_cnt w) < 65535 else 0 < unat (ref_info_cnt w))"

definition at_pc :: "pstate \<Rightarrow> client \<Rightarrow> pc \<Rightarrow> bool" where
  "at_pc p c a \<longleftrightarrow> lo_pc (loc p c) = a"

definition goto :: "client \<Rightarrow> pc \<Rightarrow> pstate \<Rightarrow> pstate" where
  "goto c a p = p\<lparr>loc := (loc p)(c := (loc p c)\<lparr>lo_pc := a\<rparr>)\<rparr>"

definition begin_op :: "client \<Rightarrow> bool \<Rightarrow> u64 \<Rightarrow> u64 \<Rightarrow> pstate \<Rightarrow> pstate" where
  "begin_op c link ref refed p = p\<lparr>loc := (loc p)(c := \<lparr>lo_pc = Looping, lo_link = link, lo_ref = ref,
     lo_refed = refed, lo_info = 0, lo_era = 0\<rparr>)\<rparr>"

definition load_word :: "client \<Rightarrow> pstate \<Rightarrow> pstate" where
  "load_word c p = p\<lparr>loc := (loc p)(c := (loc p c)\<lparr>lo_info := cell (mem p) (obj_info (lo_refed (loc p c)))\<rparr>)\<rparr>"

definition note_era :: "client \<Rightarrow> pstate \<Rightarrow> pstate" where
  "note_era c p = p\<lparr>mem := see_era c (lo_info (loc p c)) (mem p),
     loc := (loc p)(c := (loc p c)\<lparr>lo_era := (if lo_link (loc p c) then own_era c (mem p)
       else own_era c (see_era c (lo_info (loc p c)) (mem p)))\<rparr>)\<rparr>"

definition log_op :: "client \<Rightarrow> pstate \<Rightarrow> pstate" where
  "log_op c p = (let l = loc p c in p\<lparr>mem := write_redo c (lo_era l)
     (link_record (op_id (lo_link l)) (lo_info l) (lo_era l) (lo_ref l) (lo_refed l)) (mem p)\<rparr>)"

definition swap_word :: "client \<Rightarrow> pstate \<Rightarrow> pstate" where
  "swap_word c p = (let l = loc p c in p\<lparr>mem := set_cell (obj_info (lo_refed l))
     (new_word c (lo_link l) (lo_info l) (lo_era l)) (mem p)\<rparr>)"

definition store_ref :: "client \<Rightarrow> pstate \<Rightarrow> pstate" where
  "store_ref c p = (let l = loc p c in p\<lparr>mem := set_cell (lo_ref l)
     (if lo_link l then lo_refed l else 0) (mem p)\<rparr>)"

definition next_era :: "client \<Rightarrow> pstate \<Rightarrow> pstate" where
  "next_era c p = p\<lparr>mem := bump_era c (mem p)\<rparr>"

text \<open>
  A thread starts a link on an empty cell and an unlink on a cell that refers to the object; cells in
  use by a running operation are left alone by the others.
\<close>

definition may_start :: "client set \<Rightarrow> client \<Rightarrow> bool \<Rightarrow> u64 \<Rightarrow> u64 \<Rightarrow> pstate \<Rightarrow> bool" where
  "may_start C c link ref refed p \<longleftrightarrow> own_era c (mem p) \<noteq> - 1 \<and>
     cell (mem p) ref = (if link then 0 else refed) \<and>
     (\<forall>d \<in> C. \<not> at_pc p d Idle \<longrightarrow> lo_ref (loc p d) \<noteq> ref)"

inductive pstep :: "client set \<Rightarrow> u64 set \<Rightarrow> u64 set \<Rightarrow> pstate \<Rightarrow> pstate \<Rightarrow> bool"
  for C Obj Refs where
  start: "c \<in> C \<Longrightarrow> at_pc p c Idle \<Longrightarrow> refed \<in> Obj \<Longrightarrow> ref \<in> Refs \<Longrightarrow> may_start C c link ref refed p \<Longrightarrow>
    pstep C Obj Refs p (begin_op c link ref refed p)"
| load: "c \<in> C \<Longrightarrow> at_pc p c Looping \<Longrightarrow> pstep C Obj Refs p (goto c Loaded (load_word c p))"
| see: "c \<in> C \<Longrightarrow> at_pc p c Loaded \<Longrightarrow> pstep C Obj Refs p (goto c Seen (note_era c p))"
| log: "c \<in> C \<Longrightarrow> at_pc p c Seen \<Longrightarrow> pstep C Obj Refs p (goto c Logged (log_op c p))"
| swap: "c \<in> C \<Longrightarrow> at_pc p c Logged \<Longrightarrow> cell (mem p) (obj_info (lo_refed (loc p c))) = lo_info (loc p c) \<Longrightarrow>
    cnt_in_range (lo_link (loc p c)) (lo_info (loc p c)) \<Longrightarrow>
    pstep C Obj Refs p (goto c Swapped (swap_word c p))"
| retry: "c \<in> C \<Longrightarrow> at_pc p c Logged \<Longrightarrow> cell (mem p) (obj_info (lo_refed (loc p c))) \<noteq> lo_info (loc p c) \<Longrightarrow>
    pstep C Obj Refs p (goto c Looping p)"
| store: "c \<in> C \<Longrightarrow> at_pc p c Swapped \<Longrightarrow> pstep C Obj Refs p (goto c Stored (store_ref c p))"
| finish: "c \<in> C \<Longrightarrow> at_pc p c Stored \<Longrightarrow> pstep C Obj Refs p (goto c Idle (next_era c p))"

inductive_cases pstepE: "pstep C Obj Refs p q"

text \<open>The threads of a system: ids with a row and a column other than the last, and separate states.\<close>

definition system_ok :: "client set \<Rightarrow> u64 set \<Rightarrow> u64 set \<Rightarrow> bool" where
  "system_ok C Obj Refs \<longleftrightarrow>
     (\<forall>c \<in> C. valid_id (uint (cl_thread_id c)) \<and> uint (cl_thread_id c) < int MAX_THREAD \<and>
        tls_id_of (cl_tls_offset c) = cl_thread_id c) \<and>
     (\<forall>c \<in> C. \<forall>d \<in> C. cl_thread_id c = cl_thread_id d \<longrightarrow> c = d) \<and>
     (\<forall>b \<in> Obj. obj_info b \<notin> Refs)"

section \<open>Reading a state\<close>

abbreviation tid :: "client \<Rightarrow> int" where "tid c \<equiv> uint (cl_thread_id c)"
abbreviation word :: "pstate \<Rightarrow> u64 \<Rightarrow> u64" where "word p b \<equiv> cell (mem p) (obj_info b)"
abbreviation own :: "pstate \<Rightarrow> client \<Rightarrow> u32" where "own p c \<equiv> own_era c (mem p)"
abbreviation row :: "pstate \<Rightarrow> int \<Rightarrow> client \<Rightarrow> u32" where "row p x c \<equiv> era x (tid c) (mem p)"

text \<open>Between the exchange and the new era an operation is committed and pending.\<close>

definition pending :: "pstate \<Rightarrow> client \<Rightarrow> bool" where
  "pending p c \<longleftrightarrow> Swapped \<le> lo_pc (loc p c)"

definition in_loop :: "pstate \<Rightarrow> client \<Rightarrow> bool" where
  "in_loop p c \<longleftrightarrow> Loaded \<le> lo_pc (loc p c) \<and> lo_pc (loc p c) \<le> Logged"

text \<open>The eras of \<open>c\<close> that can be out: those before its current one, which is out when pending.\<close>

definition era_out :: "pstate \<Rightarrow> client \<Rightarrow> u32 \<Rightarrow> bool" where
  "era_out p c e \<longleftrightarrow> e < own p c \<or> pending p c \<and> e \<le> own p c"

section \<open>The invariant\<close>

definition inv_running :: "client set \<Rightarrow> u64 set \<Rightarrow> u64 set \<Rightarrow> pstate \<Rightarrow> bool" where
  "inv_running C Obj Refs p \<longleftrightarrow> (\<forall>c \<in> C. \<not> at_pc p c Idle \<longrightarrow>
     own p c \<noteq> - 1 \<and> lo_refed (loc p c) \<in> Obj \<and> lo_ref (loc p c) \<in> Refs \<and>
     (Seen \<le> lo_pc (loc p c) \<longrightarrow> lo_era (loc p c) = own p c))"

definition inv_words :: "client set \<Rightarrow> u64 set \<Rightarrow> pstate \<Rightarrow> bool" where
  "inv_words C Obj p \<longleftrightarrow> (\<forall>b \<in> Obj. valid_id (saw_cid (word p b)) \<and>
     (\<forall>c \<in> C. saw_cid (word p b) = tid c \<longrightarrow> era_out p c (saw_era (word p b))))"

definition inv_loaded :: "client set \<Rightarrow> pstate \<Rightarrow> bool" where
  "inv_loaded C p \<longleftrightarrow> (\<forall>d \<in> C. in_loop p d \<longrightarrow> valid_id (saw_cid (lo_info (loc p d))) \<and>
     (\<forall>c \<in> C. saw_cid (lo_info (loc p d)) = tid c \<longrightarrow> era_out p c (saw_era (lo_info (loc p d)))))"

definition inv_rows :: "client set \<Rightarrow> pstate \<Rightarrow> bool" where
  "inv_rows C p \<longleftrightarrow> (\<forall>c \<in> C. \<forall>x. x \<noteq> tid c \<longrightarrow> era_out p c (row p x c))"

definition inv_seen :: "client set \<Rightarrow> pstate \<Rightarrow> bool" where
  "inv_seen C p \<longleftrightarrow> (\<forall>d \<in> C. at_pc p d Seen \<or> at_pc p d Logged \<longrightarrow>
     saw_era (lo_info (loc p d)) \<le> era (tid d) (saw_cid (lo_info (loc p d))) (mem p))"

definition inv_commit :: "client set \<Rightarrow> pstate \<Rightarrow> bool" where
  "inv_commit C p \<longleftrightarrow> (\<forall>c \<in> C. pending p c \<longrightarrow>
     saw_cid (word p (lo_refed (loc p c))) = tid c \<and> saw_era (word p (lo_refed (loc p c))) = own p c \<or>
     (\<exists>d \<in> C. d \<noteq> c \<and> own p c \<le> row p (tid d) c))"

definition slots :: "pstate \<Rightarrow> client \<Rightarrow> nat \<Rightarrow> redo_log" where
  "slots p c = tls_redo (tls (mem p) (cl_tls_offset c))"

definition inv_log :: "client set \<Rightarrow> pstate \<Rightarrow> bool" where
  "inv_log C p \<longleftrightarrow> (\<forall>c \<in> C. 0 < own p c \<and> (\<forall>k < REDO_CACHELINE_CNT. rl_cur_era (slots p c k) \<le> own p c \<and>
       (k \<noteq> redo_slot (own p c) \<longrightarrow> rl_cur_era (slots p c k) < own p c)) \<and>
     (Logged \<le> lo_pc (loc p c) \<longrightarrow> slots p c (redo_slot (own p c)) =
       link_record (op_id (lo_link (loc p c))) (lo_info (loc p c)) (own p c) (lo_ref (loc p c)) (lo_refed (loc p c))))"

definition proto_inv :: "client set \<Rightarrow> u64 set \<Rightarrow> u64 set \<Rightarrow> pstate \<Rightarrow> bool" where
  "proto_inv C Obj Refs p \<longleftrightarrow> inv_running C Obj Refs p \<and> inv_words C Obj p \<and> inv_loaded C p \<and>
     inv_rows C p \<and> inv_seen C p \<and> inv_commit C p \<and> inv_log C p"

section \<open>What the steps change\<close>

lemma pc_le [simp]: "(a :: pc) \<le> b \<longleftrightarrow> pc_index a \<le> pc_index b"
  by (simp add: less_eq_pc_def)

lemma goto_sel [simp]:
  "mem (goto c a p) = mem p" "lo_pc (loc (goto c a p) d) = (if d = c then a else lo_pc (loc p d))"
  "lo_link (loc (goto c a p) d) = lo_link (loc p d)" "lo_ref (loc (goto c a p) d) = lo_ref (loc p d)"
  "lo_refed (loc (goto c a p) d) = lo_refed (loc p d)" "lo_info (loc (goto c a p) d) = lo_info (loc p d)"
  "lo_era (loc (goto c a p) d) = lo_era (loc p d)"
  by (simp_all add: goto_def)

lemma begin_op_sel [simp]:
  "mem (begin_op c l r b p) = mem p"
  "loc (begin_op c l r b p) d = (if d = c then \<lparr>lo_pc = Looping, lo_link = l, lo_ref = r, lo_refed = b,
     lo_info = 0, lo_era = 0\<rparr> else loc p d)"
  by (simp_all add: begin_op_def)

lemma load_word_sel [simp]:
  "mem (load_word c p) = mem p"
  "loc (load_word c p) d = (if d = c then (loc p c)\<lparr>lo_info := word p (lo_refed (loc p c))\<rparr> else loc p d)"
  by (simp_all add: load_word_def)

lemma note_era_sel [simp]:
  "mem (note_era c p) = see_era c (lo_info (loc p c)) (mem p)"
  "loc (note_era c p) d = (if d = c then (loc p c)\<lparr>lo_era := (if lo_link (loc p c) then own p c
       else own_era c (see_era c (lo_info (loc p c)) (mem p)))\<rparr> else loc p d)"
  by (simp_all add: note_era_def)

lemma step_loc [simp]:
  "loc (log_op c p) = loc p" "loc (swap_word c p) = loc p" "loc (store_ref c p) = loc p"
  "loc (next_era c p) = loc p"
  by (simp_all add: log_op_def swap_word_def store_ref_def next_era_def Let_def)

lemma step_mem:
  "mem (log_op c p) = write_redo c (lo_era (loc p c)) (link_record (op_id (lo_link (loc p c)))
     (lo_info (loc p c)) (lo_era (loc p c)) (lo_ref (loc p c)) (lo_refed (loc p c))) (mem p)"
  "mem (swap_word c p) = set_cell (obj_info (lo_refed (loc p c)))
     (new_word c (lo_link (loc p c)) (lo_info (loc p c)) (lo_era (loc p c))) (mem p)"
  "mem (store_ref c p) = set_cell (lo_ref (loc p c)) (if lo_link (loc p c) then lo_refed (loc p c) else 0) (mem p)"
  "mem (next_era c p) = bump_era c (mem p)"
  by (simp_all add: log_op_def swap_word_def store_ref_def next_era_def Let_def)

section \<open>Preservation\<close>

lemmas inv_defs = inv_running_def inv_words_def inv_loaded_def inv_rows_def inv_seen_def
  inv_commit_def inv_log_def

lemma era_out_cong:
  "own p' c = own p c \<Longrightarrow> pending p c \<longrightarrow> pending p' c \<Longrightarrow> era_out p c e \<Longrightarrow> era_out p' c e"
  by (auto simp: era_out_def)

lemma pending_goto: "pending (goto c a p) d = (if d = c then Swapped \<le> a else pending p d)"
  by (simp add: pending_def)

lemma in_loop_goto: "in_loop (goto c a p) d = (if d = c then Loaded \<le> a \<and> a \<le> Logged else in_loop p d)"
  by (simp add: in_loop_def)

lemma at_goto: "at_pc (goto c a p) d b = (if d = c then a = b else at_pc p d b)"
  by (simp add: at_pc_def)

lemmas goto_pcs = pending_goto in_loop_goto at_goto

text \<open>Steps that leave the memory alone.\<close>

lemma start_inv:
  assumes inv: "proto_inv C Obj Refs p" and c: "c \<in> C" "at_pc p c Idle" "refed \<in> Obj" "ref \<in> Refs"
    and start: "may_start C c link ref refed p"
  shows "proto_inv C Obj Refs (begin_op c link ref refed p)"
proof -
  let ?q = "begin_op c link ref refed p"
  have pend: "pending ?q d = pending p d" "in_loop ?q d \<longleftrightarrow> d \<noteq> c \<and> in_loop p d" for d
    using c(2) by (auto simp: pending_def in_loop_def at_pc_def)
  have out: "era_out ?q d e = era_out p d e" for d e by (simp add: era_out_def pend)
  have notpend: "\<not> pending p c" using c(2) by (simp add: pending_def at_pc_def)
  show ?thesis
    using inv c start notpend unfolding proto_inv_def
    by (intro conjI; simp add: inv_defs pend out slots_def at_pc_def may_start_def; fastforce?)
qed

lemma load_inv:
  assumes inv: "proto_inv C Obj Refs p" and c: "c \<in> C" "at_pc p c Looping"
  shows "proto_inv C Obj Refs (goto c Loaded (load_word c p))"
proof -
  let ?q = "goto c Loaded (load_word c p)"
  have pend: "pending ?q d = pending p d" "in_loop ?q d \<longleftrightarrow> d = c \<or> in_loop p d" for d
    using c(2) by (auto simp: pending_def in_loop_def at_pc_def)
  have out: "era_out ?q d e = era_out p d e" for d e by (simp add: era_out_def pend)
  have notpend: "\<not> pending p c" using c(2) by (simp add: pending_def at_pc_def)
  have obj: "lo_refed (loc p c) \<in> Obj" using inv c by (auto simp: proto_inv_def inv_defs at_pc_def)
  show ?thesis
    using inv c notpend obj unfolding proto_inv_def
    by (intro conjI; simp add: inv_defs pend out slots_def at_pc_def; fastforce?)
qed

lemma retry_inv:
  assumes inv: "proto_inv C Obj Refs p" and c: "c \<in> C" "at_pc p c Logged"
  shows "proto_inv C Obj Refs (goto c Looping p)"
proof -
  let ?q = "goto c Looping p"
  have pend: "pending ?q d = pending p d" "in_loop ?q d \<longleftrightarrow> d \<noteq> c \<and> in_loop p d" for d
    using c(2) by (auto simp: pending_def in_loop_def at_pc_def)
  have out: "era_out ?q d e = era_out p d e" for d e by (simp add: era_out_def pend)
  have notpend: "\<not> pending p c" using c(2) by (simp add: pending_def at_pc_def)
  show ?thesis
    using inv c notpend unfolding proto_inv_def
    by (intro conjI; simp add: inv_defs pend out slots_def at_pc_def; fastforce?)
qed

text \<open>Noting an era raises one cell of the thread's own row, never its own era.\<close>

lemma system_ids:
  assumes "system_ok C Obj Refs" "c \<in> C" "d \<in> C"
  shows "valid_id (tid c)" "tid c < int MAX_THREAD" "tls_id_of (cl_tls_offset c) = cl_thread_id c"
    "tid c = tid d \<longleftrightarrow> c = d" "cl_tls_offset c = cl_tls_offset d \<longleftrightarrow> c = d"
proof -
  show "valid_id (tid c)" "tid c < int MAX_THREAD" "tls_id_of (cl_tls_offset c) = cl_thread_id c"
    using assms by (auto simp: system_ok_def)
  have inj: "cl_thread_id c = cl_thread_id d \<Longrightarrow> c = d" using assms by (simp add: system_ok_def)
  then show "tid c = tid d \<longleftrightarrow> c = d" using word_uint_eq_iff by blast
  show "cl_tls_offset c = cl_tls_offset d \<longleftrightarrow> c = d"
    using inj assms unfolding system_ok_def by metis
qed

lemma note_era_rows:
  assumes sys: "system_ok C Obj Refs" and inv: "inv_loaded C p" and c: "c \<in> C" "at_pc p c Loaded"
    and d: "d \<in> C"
  shows "own_era d (see_era c (lo_info (loc p c)) (mem p)) = own p d"
    and "era x (tid d) (see_era c (lo_info (loc p c)) (mem p)) =
      (if x = tid c \<and> saw_cid (lo_info (loc p c)) = tid d
       then max (saw_era (lo_info (loc p c))) (row p x d) else row p x d)"
    and "valid_id y \<Longrightarrow> era x y (mem p) \<le> era x y (see_era c (lo_info (loc p c)) (mem p))"
    and "saw_era (lo_info (loc p c)) \<le>
      era (tid c) (saw_cid (lo_info (loc p c))) (see_era c (lo_info (loc p c)) (mem p))"
proof -
  let ?w = "lo_info (loc p c)"
  have loop: "in_loop p c" "\<not> pending p c" using c(2) by (simp_all add: in_loop_def pending_def at_pc_def)
  then have valid: "valid_id (saw_cid ?w)" and out: "saw_cid ?w = tid c \<longrightarrow> saw_era ?w < own p c"
    using inv c(1) by (auto simp: inv_loaded_def era_out_def)
  note ids = system_ids[OF sys c(1) d] system_ids[OF sys d d]
  show row: "era x (tid d) (see_era c ?w (mem p)) =
      (if x = tid c \<and> saw_cid ?w = tid d then max (saw_era ?w) (row p x d) else row p x d)" for x
    using valid ids by (auto simp: see_era_def era_set_era max_def)
  have "own_era d (see_era c ?w (mem p)) = era (tid d) (tid d) (see_era c ?w (mem p))"
    by (simp add: own_era_def)
  also have "\<dots> = own p d"
    unfolding row using ids out by (auto simp: own_era_def max_def)
  finally show "own_era d (see_era c ?w (mem p)) = own p d" .
  show "era x y (mem p) \<le> era x y (see_era c ?w (mem p))" if "valid_id y"
    using valid that by (auto simp: see_era_def era_set_era)
  show "saw_era ?w \<le> era (tid c) (saw_cid ?w) (see_era c ?w (mem p))"
    using valid by (auto simp: see_era_def era_set_era not_less)
qed

lemma see_inv:
  assumes sys: "system_ok C Obj Refs" and inv: "proto_inv C Obj Refs p" and c: "c \<in> C" "at_pc p c Loaded"
  shows "proto_inv C Obj Refs (goto c Seen (note_era c p))"
proof -
  let ?q = "goto c Seen (note_era c p)" and ?w = "lo_info (loc p c)"
  have parts: "inv_running C Obj Refs p" "inv_words C Obj p" "inv_loaded C p" "inv_rows C p"
    "inv_seen C p" "inv_commit C p" "inv_log C p" using inv by (simp_all add: proto_inv_def)
  note rows = note_era_rows[OF sys parts(3) c]
  have pend: "pending ?q d = pending p d" "in_loop ?q d = in_loop p d" for d
    using c(2) by (auto simp: pending_def in_loop_def at_pc_def)
  have own: "own ?q d = own p d" if "d \<in> C" for d using rows(1)[OF that] by simp
  have out: "era_out ?q d e = era_out p d e" if "d \<in> C" for d e
    by (simp only: era_out_def pend own[OF that])
  have cell: "cell (mem ?q) = cell (mem p)" and tls: "slots ?q = slots p"
    by (simp_all add: state_simps slots_def fun_eq_iff)
  have loop: "in_loop p c" using c(2) by (simp add: in_loop_def at_pc_def)
  have "inv_running C Obj Refs ?q"
    using parts(1) c own rows(1)[OF c(1)] by (auto simp: inv_running_def at_pc_def simp del: note_era_sel(1))
  moreover have "inv_words C Obj ?q" using parts(2) out unfolding inv_words_def cell by blast
  moreover have "inv_loaded C ?q"
    using parts(3) out unfolding inv_loaded_def pend by auto
  moreover have "inv_rows C ?q"
  proof -
    have "era_out p d (row ?q x d)" if d: "d \<in> C" "x \<noteq> tid d" for d x
    proof (cases "x = tid c \<and> saw_cid ?w = tid d")
      case True
      have "era_out p d (saw_era ?w)" "era_out p d (row p x d)"
        using parts(3,4) c(1) d loop True unfolding inv_loaded_def inv_rows_def by blast+
      then show ?thesis using rows(2)[OF d(1), of x] True by (auto simp: max_def)
    next
      case False
      then show ?thesis using rows(2)[OF d(1), of x] parts(4) d unfolding inv_rows_def by auto
    qed
    then show ?thesis using out unfolding inv_rows_def by blast
  qed
  moreover have "inv_seen C ?q"
    unfolding inv_seen_def
  proof (intro ballI impI)
    fix d assume d: "d \<in> C" "at_pc ?q d Seen \<or> at_pc ?q d Logged"
    show "saw_era (lo_info (loc ?q d)) \<le> era (tid d) (saw_cid (lo_info (loc ?q d))) (mem ?q)"
    proof (cases "d = c")
      case True
      then show ?thesis using rows(4)[OF c(1)] by simp
    next
      case False
      then have "at_pc p d Seen \<or> at_pc p d Logged" using d(2) by (simp add: at_pc_def)
      moreover from this have "valid_id (saw_cid (lo_info (loc p d)))"
        using parts(3) d(1) by (auto simp: inv_loaded_def in_loop_def at_pc_def)
      ultimately show ?thesis
        using parts(5) d(1) rows(3)[OF c(1)] False order_trans by (fastforce simp: inv_seen_def)
    qed
  qed
  moreover have "inv_commit C ?q"
    unfolding inv_commit_def
  proof (intro ballI impI)
    fix d assume d: "d \<in> C" "pending ?q d"
    have "row p x d \<le> row ?q x d" for x using rows(3)[OF c(1)] system_ids(1)[OF sys d(1) d(1)] by simp
    moreover have refed: "lo_refed (loc ?q d) = lo_refed (loc p d)" by simp
    ultimately show "saw_cid (word ?q (lo_refed (loc ?q d))) = tid d \<and> saw_era (word ?q (lo_refed (loc ?q d))) = own ?q d \<or>
        (\<exists>x \<in> C. x \<noteq> d \<and> own ?q d \<le> row ?q (tid x) d)"
      using parts(6) d(1) d(2)[unfolded pend] order_trans
      unfolding inv_commit_def refed cell own[OF d(1)] by meson
  qed
  moreover have "inv_log C ?q"
    using parts(7) own c(2) unfolding inv_log_def tls by (auto simp: at_pc_def simp del: note_era_sel(1))
  ultimately show ?thesis by (simp add: proto_inv_def)
qed

text \<open>The record: the slot of the current era of the thread itself.\<close>

lemma log_inv:
  assumes sys: "system_ok C Obj Refs" and inv: "proto_inv C Obj Refs p" and c: "c \<in> C" "at_pc p c Seen"
  shows "proto_inv C Obj Refs (goto c Logged (log_op c p))"
proof -
  let ?q = "goto c Logged (log_op c p)" and ?l = "loc p c"
  let ?r = "link_record (op_id (lo_link ?l)) (lo_info ?l) (own p c) (lo_ref ?l) (lo_refed ?l)"
  have parts: "inv_running C Obj Refs p" "inv_words C Obj p" "inv_loaded C p" "inv_rows C p"
    "inv_seen C p" "inv_commit C p" "inv_log C p" using inv by (simp_all add: proto_inv_def)
  have e: "lo_era ?l = own p c" using parts(1) c by (simp add: inv_running_def at_pc_def)
  have pend: "pending ?q d = pending p d" "in_loop ?q d = in_loop p d" for d
    using c(2) by (auto simp: pending_def in_loop_def at_pc_def)
  have m: "own ?q d = own p d" "era x y (mem ?q) = era x y (mem p)" "cell (mem ?q) = cell (mem p)" for d x y
    by (simp_all add: step_mem state_simps own_era_def)
  have out: "era_out ?q d x = era_out p d x" for d x by (simp only: era_out_def pend m)
  have slots: "slots ?q d = (if d = c then (slots p c)(redo_slot (own p c) := ?r) else slots p d)" if "d \<in> C" for d
    using system_ids(5)[OF sys c(1) that] by (auto simp: slots_def step_mem write_redo_def state_simps e)
  have "inv_running C Obj Refs ?q" using parts(1) c unfolding inv_running_def m by (auto simp: at_pc_def)
  moreover have "inv_words C Obj ?q" using parts(2) unfolding inv_words_def m out .
  moreover have "inv_loaded C ?q" using parts(3) unfolding inv_loaded_def out pend by simp
  moreover have "inv_rows C ?q" using parts(4) unfolding inv_rows_def m out .
  moreover have "inv_seen C ?q" using parts(5) c(2) unfolding inv_seen_def m by (auto simp: at_pc_def)
  moreover have "inv_commit C ?q" using parts(6) unfolding inv_commit_def m pend by simp
  moreover have "inv_log C ?q"
    unfolding inv_log_def
  proof (intro ballI conjI)
    fix d assume d: "d \<in> C"
    note l = parts(7)[unfolded inv_log_def, rule_format, OF d]
    show "0 < own ?q d" using l by (simp only: m)
    show "\<forall>k < REDO_CACHELINE_CNT. rl_cur_era (slots ?q d k) \<le> own ?q d \<and>
        (k \<noteq> redo_slot (own ?q d) \<longrightarrow> rl_cur_era (slots ?q d k) < own ?q d)"
      using l unfolding m slots[OF d] by (auto simp: link_record_def)
    show "Logged \<le> lo_pc (loc ?q d) \<longrightarrow> slots ?q d (redo_slot (own ?q d)) =
        link_record (op_id (lo_link (loc ?q d))) (lo_info (loc ?q d)) (own ?q d) (lo_ref (loc ?q d)) (lo_refed (loc ?q d))"
      using l unfolding m slots[OF d] by auto
  qed
  ultimately show ?thesis by (simp add: proto_inv_def)
qed

text \<open>The exchange: the replaced word, if another thread's commit was pending on it, has been noted.\<close>

lemma new_word_fields:
  assumes "valid_id (tid c)" "cnt_in_range link w"
  shows "saw_cid (new_word c link w e) = tid c" "saw_era (new_word c link w e) = e"
    "unat (get_ref_cnt_from_info (new_word c link w e)) =
      (if link then unat (get_ref_cnt_from_info w) + 1 else unat (get_ref_cnt_from_info w) - 1)"
proof -
  let ?n = "if link then get_ref_cnt_from_info w + 1 else get_ref_cnt_from_info w - 1"
  have n: "unat ?n = (if link then unat (get_ref_cnt_from_info w) + 1 else unat (get_ref_cnt_from_info w) - 1)"
    using assms(2) unat_inc unat_dec by (simp add: cnt_in_range_def unat_ref_info_cnt split: if_splits)
  then have small: "unat ?n < 2 ^ 16"
    using assms(2) get_ref_cnt_bound[of w] by (simp add: cnt_in_range_def unat_ref_info_cnt split: if_splits)
  have "new_word c link w e = commit_word c ?n e"
    by (simp add: new_word_def commit_word_def ucast_ref_info_cnt)
  then show "saw_cid (new_word c link w e) = tid c" "saw_era (new_word c link w e) = e"
    "unat (get_ref_cnt_from_info (new_word c link w e)) =
      (if link then unat (get_ref_cnt_from_info w) + 1 else unat (get_ref_cnt_from_info w) - 1)"
    using commit_word_fields[OF assms(1) small, of e] n by simp_all
qed

lemma obj_info_inject [simp]: "obj_info a = obj_info b \<longleftrightarrow> a = b"
  by (simp add: obj_info_def)

lemma swap_inv:
  assumes sys: "system_ok C Obj Refs" and inv: "proto_inv C Obj Refs p" and c: "c \<in> C" "at_pc p c Logged"
    and same: "word p (lo_refed (loc p c)) = lo_info (loc p c)"
    and range: "cnt_in_range (lo_link (loc p c)) (lo_info (loc p c))"
  shows "proto_inv C Obj Refs (goto c Swapped (swap_word c p))"
proof -
  let ?q = "goto c Swapped (swap_word c p)" and ?l = "loc p c"
  have parts: "inv_running C Obj Refs p" "inv_words C Obj p" "inv_loaded C p" "inv_rows C p"
    "inv_seen C p" "inv_commit C p" "inv_log C p" using inv by (simp_all add: proto_inv_def)
  have e: "lo_era ?l = own p c" using parts(1) c by (simp add: inv_running_def at_pc_def)
  note ids = system_ids[OF sys c(1)]
  note nw = new_word_fields(1,2)[OF ids(1)[OF c(1)] range, of "own p c"]
  have pend: "pending ?q d = (d = c \<or> pending p d)" "in_loop ?q d = (d \<noteq> c \<and> in_loop p d)" for d
    using c(2) by (auto simp: pending_def in_loop_def at_pc_def)
  have m: "own ?q d = own p d" "era x y (mem ?q) = era x y (mem p)" "slots ?q = slots p" for d x y
    by (simp_all add: step_mem state_simps own_era_def slots_def fun_eq_iff)
  have word: "word ?q b = (if b = lo_refed ?l then new_word c (lo_link ?l) (lo_info ?l) (own p c) else word p b)" for b
    by (simp add: step_mem state_simps e)
  have out: "era_out p d x \<Longrightarrow> era_out ?q d x" for d x unfolding era_out_def pend m by auto
  have outc: "era_out ?q c (own p c)" unfolding era_out_def pend m by simp
  have "inv_running C Obj Refs ?q" using parts(1) c unfolding inv_running_def m by (auto simp: at_pc_def)
  moreover have "inv_words C Obj ?q"
    using parts(2) ids(4) nw ids(1)[OF c(1)] out outc unfolding inv_words_def word by (auto split: if_splits)
  moreover have "inv_loaded C ?q" using parts(3) out unfolding inv_loaded_def pend by simp
  moreover have "inv_rows C ?q" using parts(4) out unfolding inv_rows_def m by blast
  moreover have "inv_seen C ?q" using parts(5) c(2) unfolding inv_seen_def m by (auto simp: at_pc_def)
  moreover have "inv_commit C ?q"
    unfolding inv_commit_def
  proof (intro ballI impI)
    fix d assume d: "d \<in> C" "pending ?q d"
    have refed: "lo_refed (loc ?q d) = lo_refed (loc p d)" by simp
    show "saw_cid (word ?q (lo_refed (loc ?q d))) = tid d \<and> saw_era (word ?q (lo_refed (loc ?q d))) = own ?q d \<or>
        (\<exists>x \<in> C. x \<noteq> d \<and> own ?q d \<le> row ?q (tid x) d)"
    proof (cases "d = c")
      case True
      then show ?thesis unfolding word m refed by (simp add: nw)
    next
      case False
      then have old: "saw_cid (word p (lo_refed (loc p d))) = tid d \<and> saw_era (word p (lo_refed (loc p d))) = own p d \<or>
          (\<exists>x \<in> C. x \<noteq> d \<and> own p d \<le> row p (tid x) d)"
        using parts(6) d by (simp add: inv_commit_def pend)
      have "saw_era (lo_info ?l) \<le> era (tid c) (saw_cid (lo_info ?l)) (mem p)"
        using parts(5) c by (auto simp: inv_seen_def)
      then show ?thesis
        using old False c(1) same unfolding word m refed by (cases "lo_refed (loc p d) = lo_refed ?l") auto
    qed
  qed
  moreover have "inv_log C ?q" using parts(7) c unfolding inv_log_def m by (auto simp: at_pc_def)
  ultimately show ?thesis by (simp add: proto_inv_def)
qed

text \<open>The reference: a cell outside the headers of the objects.\<close>

lemma store_inv:
  assumes sys: "system_ok C Obj Refs" and inv: "proto_inv C Obj Refs p" and c: "c \<in> C" "at_pc p c Swapped"
  shows "proto_inv C Obj Refs (goto c Stored (store_ref c p))"
proof -
  let ?q = "goto c Stored (store_ref c p)"
  have parts: "inv_running C Obj Refs p" "inv_words C Obj p" "inv_loaded C p" "inv_rows C p"
    "inv_seen C p" "inv_commit C p" "inv_log C p" using inv by (simp_all add: proto_inv_def)
  have pend: "pending ?q d = pending p d" "in_loop ?q d = in_loop p d" for d
    using c(2) by (auto simp: pending_def in_loop_def at_pc_def)
  have m: "own ?q d = own p d" "era x y (mem ?q) = era x y (mem p)" "slots ?q = slots p" for d x y
    by (simp_all add: step_mem state_simps own_era_def slots_def fun_eq_iff)
  have out: "era_out ?q d x = era_out p d x" for d x by (simp only: era_out_def pend m)
  have run: "lo_refed (loc p d) \<in> Obj" if "d \<in> C" "pending p d" for d
    using parts(1) that by (auto simp: inv_running_def at_pc_def pending_def)
  have "lo_ref (loc p c) \<in> Refs" using parts(1) c by (auto simp: inv_running_def at_pc_def)
  then have word: "word ?q b = word p b" if "b \<in> Obj" for b
    using sys that by (auto simp: system_ok_def step_mem state_simps)
  have "inv_running C Obj Refs ?q" using parts(1) c unfolding inv_running_def m by (auto simp: at_pc_def)
  moreover have "inv_words C Obj ?q" using parts(2) unfolding inv_words_def out by (simp add: word del: goto_sel(1))
  moreover have "inv_loaded C ?q" using parts(3) unfolding inv_loaded_def pend out by simp
  moreover have "inv_rows C ?q" using parts(4) unfolding inv_rows_def m out .
  moreover have "inv_seen C ?q" using parts(5) c(2) unfolding inv_seen_def m by (auto simp: at_pc_def)
  moreover have "inv_commit C ?q"
  proof -
    have refed: "lo_refed (loc ?q d) = lo_refed (loc p d)" for d by simp
    show ?thesis using parts(6) word[OF run] unfolding inv_commit_def pend m refed by simp
  qed
  moreover have "inv_log C ?q" using parts(7) c unfolding inv_log_def m by (auto simp: at_pc_def)
  ultimately show ?thesis by (simp add: proto_inv_def)
qed

text \<open>The new era: nothing of the old one is pending any more.\<close>

lemma finish_inv:
  assumes sys: "system_ok C Obj Refs" and inv: "proto_inv C Obj Refs p" and c: "c \<in> C" "at_pc p c Stored"
  shows "proto_inv C Obj Refs (goto c Idle (next_era c p))"
proof -
  let ?q = "goto c Idle (next_era c p)"
  have parts: "inv_running C Obj Refs p" "inv_words C Obj p" "inv_loaded C p" "inv_rows C p"
    "inv_seen C p" "inv_commit C p" "inv_log C p" using inv by (simp_all add: proto_inv_def)
  have "own p c \<noteq> - 1" using parts(1) c by (auto simp: inv_running_def at_pc_def)
  then have "1 + own p c \<noteq> 0" by (metis add.commute add_diff_cancel_right' diff_0)
  then have inc: "own p c < own p c + 1" by (simp add: word_less_nat_alt unatSuc add.commute)
  have pend: "pending ?q d = (d \<noteq> c \<and> pending p d)" "in_loop ?q d = in_loop p d" for d
    using c(2) by (auto simp: pending_def in_loop_def at_pc_def)
  have row: "era x y (mem ?q) = (if x = tid c \<and> y = tid c then own p c + 1 else era x y (mem p))" if "valid_id y" for x y
    using that system_ids(1)[OF sys c(1) c(1)] by (simp add: step_mem bump_era_def era_set_era)
  have own: "own ?q d = (if d = c then own p c + 1 else own p d)" if "d \<in> C" for d
    using row[OF system_ids(1)[OF sys that that], of "tid d"] system_ids(4)[OF sys c(1) that]
    by (auto simp: own_era_def)
  have m: "cell (mem ?q) = cell (mem p)" "slots ?q = slots p"
    by (simp_all add: step_mem state_simps slots_def fun_eq_iff)
  have out: "era_out ?q d x" if "era_out p d x" "d \<in> C" for d x
    using that inc unfolding era_out_def pend own[OF that(2)] by auto
  have loc: "lo_refed (loc ?q d) = lo_refed (loc p d)" "lo_info (loc ?q d) = lo_info (loc p d)"
    "at_pc ?q d Seen = at_pc p d Seen" "at_pc ?q d Logged = at_pc p d Logged" for d
    using c(2) by (auto simp: at_pc_def)
  have "inv_running C Obj Refs ?q"
    using parts(1) own unfolding inv_running_def by (auto simp: at_pc_def simp del: goto_sel(1))
  moreover have "inv_words C Obj ?q" using parts(2) out unfolding inv_words_def m by blast
  moreover have "inv_loaded C ?q" using parts(3) out unfolding inv_loaded_def pend loc by blast
  moreover have "inv_rows C ?q"
  proof -
    have "row ?q x d = row p x d" if "d \<in> C" "x \<noteq> tid d" for d x
      using row[OF system_ids(1)[OF sys that(1) that(1)], of x] system_ids(4)[OF sys c(1) that(1)] that(2) by auto
    then show ?thesis using parts(4) out unfolding inv_rows_def by metis
  qed
  moreover have "inv_seen C ?q"
    unfolding inv_seen_def loc
  proof (intro ballI impI)
    fix d assume d: "d \<in> C" "at_pc p d Seen \<or> at_pc p d Logged"
    let ?w = "lo_info (loc p d)"
    have "d \<noteq> c" using d(2) c(2) by (auto simp: at_pc_def)
    moreover have "valid_id (saw_cid ?w)"
      using parts(3) d by (auto simp: inv_loaded_def in_loop_def at_pc_def)
    ultimately have "era (tid d) (saw_cid ?w) (mem ?q) = era (tid d) (saw_cid ?w) (mem p)"
      using row system_ids(4)[OF sys c(1) d(1)] by auto
    then show "saw_era ?w \<le> era (tid d) (saw_cid ?w) (mem ?q)" using parts(5) d by (simp only: inv_seen_def)
  qed
  moreover have "inv_commit C ?q"
    unfolding inv_commit_def pend loc m
  proof (intro ballI impI)
    fix d assume d: "d \<in> C" "d \<noteq> c \<and> pending p d"
    have "row ?q x d = row p x d" for x
      using row[OF system_ids(1)[OF sys d(1) d(1)], of x] system_ids(4)[OF sys c(1) d(1)] d(2) by auto
    then show "saw_cid (word p (lo_refed (loc p d))) = tid d \<and> saw_era (word p (lo_refed (loc p d))) = own ?q d \<or>
        (\<exists>x \<in> C. x \<noteq> d \<and> own ?q d \<le> row ?q (tid x) d)"
      using parts(6) d unfolding inv_commit_def by (simp add: own[OF d(1)] del: goto_sel(1))
  qed
  moreover have "inv_log C ?q"
    unfolding inv_log_def m
  proof (intro ballI conjI)
    fix d assume d: "d \<in> C"
    note l = parts(7)[unfolded inv_log_def, rule_format, OF d]
    show "0 < own ?q d" using l inc unfolding own[OF d] by (auto intro: order_less_trans)
    show "\<forall>k < REDO_CACHELINE_CNT. rl_cur_era (slots p d k) \<le> own ?q d \<and>
        (k \<noteq> redo_slot (own ?q d) \<longrightarrow> rl_cur_era (slots p d k) < own ?q d)"
    proof (cases "d = c")
      case True
      have "rl_cur_era (slots p c k) < own p c + 1" if "k < REDO_CACHELINE_CNT" for k
        using l that True inc by (auto intro: order_le_less_trans)
      then show ?thesis using own[OF d] True by (auto intro: order_less_imp_le simp del: goto_sel(1))
    qed (use l own[OF d] in simp)
    show "Logged \<le> lo_pc (loc ?q d) \<longrightarrow> slots p d (redo_slot (own ?q d)) =
        link_record (op_id (lo_link (loc ?q d))) (lo_info (loc ?q d)) (own ?q d) (lo_ref (loc ?q d)) (lo_refed (loc ?q d))"
      using l own[OF d] by (simp del: goto_sel(1))
  qed
  ultimately show ?thesis by (simp add: proto_inv_def)
qed

lemma pstep_inv:
  assumes "system_ok C Obj Refs" "pstep C Obj Refs p q" "proto_inv C Obj Refs p"
  shows "proto_inv C Obj Refs q"
  using assms(2)
  by (rule pstepE)
     (simp_all only: start_inv[OF assms(3)] load_inv[OF assms(3)] see_inv[OF assms(1,3)] log_inv[OF assms(1,3)]
        swap_inv[OF assms(1,3)] retry_inv[OF assms(3)] store_inv[OF assms(1,3)] finish_inv[OF assms(1,3)])

end
