(* ===== verification/Era_Runs.thy ===== *)
theory Era_Runs
  imports Era_Protocol
begin

text \<open>
  Runs of the commit protocol of \<open>Era_Protocol\<close>: the replay of a crashed thread completes exactly the
  operations whose exchange took place; the count of every object is the number of references to it,
  up to the operations between their exchange and their store; a run refines a specification in
  which links and unlinks are atomic; and an undisturbed run computes the functions of \<open>Ref_Count\<close>.
\<close>

section \<open>Runs, and what the replay of a crashed thread does\<close>

text \<open>Before any operation: every era that is out is older than its thread's current one.\<close>

definition proto_start :: "client set \<Rightarrow> u64 set \<Rightarrow> pstate \<Rightarrow> bool" where
  "proto_start C Obj p \<longleftrightarrow>
     (\<forall>c \<in> C. at_pc p c Idle \<and> 0 < own p c \<and> (\<forall>x. x \<noteq> tid c \<longrightarrow> row p x c < own p c) \<and>
        (\<forall>k < REDO_CACHELINE_CNT. rl_cur_era (slots p c k) < own p c)) \<and>
     (\<forall>b \<in> Obj. valid_id (saw_cid (word p b)) \<and>
        (\<forall>c \<in> C. saw_cid (word p b) = tid c \<longrightarrow> saw_era (word p b) < own p c))"

inductive reach :: "client set \<Rightarrow> u64 set \<Rightarrow> u64 set \<Rightarrow> pstate \<Rightarrow> pstate \<Rightarrow> bool"
  for C Obj Refs p where
  init: "reach C Obj Refs p p"
| step: "reach C Obj Refs p q \<Longrightarrow> pstep C Obj Refs q r \<Longrightarrow> reach C Obj Refs p r"

lemma start_proto_inv: "proto_start C Obj p \<Longrightarrow> proto_inv C Obj Refs p"
  unfolding proto_inv_def
  by (intro conjI; simp add: proto_start_def inv_defs at_pc_def in_loop_def pending_def era_out_def less_imp_le)



text \<open>
  A thread has written the record of its current operation: a slot of its log carries the thread's
  current era. A failed exchange leaves the record there for the next turn of the loop.
\<close>

definition recorded :: "client \<Rightarrow> pstate \<Rightarrow> bool" where
  "recorded c p \<longleftrightarrow> (\<exists>k < REDO_CACHELINE_CNT. rl_cur_era (slots p c k) = own p c)"











text \<open>From the write of the record on, through the exchange and the store, the record is there.\<close>

lemma logged_recorded:
  assumes "proto_inv C Obj Refs p" "c \<in> C" "Logged \<le> lo_pc (loc p c)"
  shows "recorded c p"
proof -
  have "slots p c (redo_slot (own p c)) = link_record (op_id (lo_link (loc p c))) (lo_info (loc p c)) (own p c)
      (lo_ref (loc p c)) (lo_refed (loc p c))"
    using assms by (simp add: proto_inv_def inv_log_def)
  then have "rl_cur_era (slots p c (redo_slot (own p c))) = own p c" by (simp add: link_record_def)
  then show ?thesis using redo_slot_bound unfolding recorded_def by blast
qed

section \<open>The counts under interleaving\<close>

text \<open>
  The reference cells that hold an object, and the exchanged operations whose cell is still to be
  written: a link of them is counted and has no cell, an unlink has a cell and is not counted.
\<close>

definition holders :: "u64 set \<Rightarrow> u64 \<Rightarrow> pstate \<Rightarrow> u64 set" where
  "holders Refs b p = {r \<in> Refs. cell (mem p) r = b}"

definition in_flight :: "client set \<Rightarrow> bool \<Rightarrow> u64 \<Rightarrow> pstate \<Rightarrow> client set" where
  "in_flight C link b p = {c \<in> C. at_pc p c Swapped \<and> lo_link (loc p c) = link \<and> lo_refed (loc p c) = b}"

definition inv_cells :: "client set \<Rightarrow> u64 set \<Rightarrow> pstate \<Rightarrow> bool" where
  "inv_cells C Refs p \<longleftrightarrow>
     (\<forall>c \<in> C. \<not> at_pc p c Idle \<longrightarrow> lo_ref (loc p c) \<in> Refs \<and>
        (\<not> at_pc p c Stored \<longrightarrow> cell (mem p) (lo_ref (loc p c)) = (if lo_link (loc p c) then 0 else lo_refed (loc p c)))) \<and>
     (\<forall>c \<in> C. \<forall>d \<in> C. c \<noteq> d \<and> \<not> at_pc p c Idle \<and> \<not> at_pc p d Idle \<longrightarrow> lo_ref (loc p c) \<noteq> lo_ref (loc p d))"

definition inv_count :: "client set \<Rightarrow> u64 set \<Rightarrow> u64 set \<Rightarrow> pstate \<Rightarrow> bool" where
  "inv_count C Obj Refs p \<longleftrightarrow> (\<forall>b \<in> Obj. obj_cnt b (mem p) + card (in_flight C False b p) =
     card (holders Refs b p) + card (in_flight C True b p))"

definition count_inv :: "client set \<Rightarrow> u64 set \<Rightarrow> u64 set \<Rightarrow> pstate \<Rightarrow> bool" where
  "count_inv C Obj Refs p \<longleftrightarrow> proto_inv C Obj Refs p \<and> inv_cells C Refs p \<and> inv_count C Obj Refs p"

text \<open>Finitely many threads and cells, no object at offset 0, and no cell inside another one's header.\<close>

definition finite_system :: "client set \<Rightarrow> u64 set \<Rightarrow> u64 set \<Rightarrow> bool" where
  "finite_system C Obj Refs \<longleftrightarrow> system_ok C Obj Refs \<and> finite C \<and> finite Refs \<and> 0 \<notin> Obj"

lemma count_cong:
  assumes "cell (mem q) = cell (mem p)" "\<forall>c \<in> C. at_pc q c Swapped \<longleftrightarrow> at_pc p c Swapped"
    "\<forall>c \<in> C. at_pc p c Swapped \<longrightarrow> lo_link (loc q c) = lo_link (loc p c) \<and> lo_refed (loc q c) = lo_refed (loc p c)"
    "inv_count C Obj Refs p"
  shows "inv_count C Obj Refs q"
proof -
  have "in_flight C l b q = in_flight C l b p" for l b using assms(2,3) by (auto simp: in_flight_def)
  then show ?thesis using assms(1,4) by (simp add: inv_count_def holders_def obj_cnt_def)
qed

lemma in_flight_insert:
  assumes "finite C" "c \<in> C" "\<not> at_pc p c Swapped"
  shows "card (in_flight C l b (goto c Swapped (swap_word c p))) = card (in_flight C l b p) +
    (if lo_link (loc p c) = l \<and> lo_refed (loc p c) = b then 1 else 0)"
proof -
  have "in_flight C l b (goto c Swapped (swap_word c p)) = (if lo_link (loc p c) = l \<and> lo_refed (loc p c) = b
      then insert c (in_flight C l b p) else in_flight C l b p)"
    using assms(2,3) by (auto simp: in_flight_def at_pc_def)
  moreover have "finite (in_flight C l b p)" "c \<notin> in_flight C l b p"
    using assms by (auto simp: in_flight_def)
  ultimately show ?thesis by simp
qed

lemma in_flight_remove:
  assumes "finite C" "c \<in> C" "at_pc p c Swapped"
  shows "card (in_flight C l b p) = card (in_flight C l b (goto c Stored (store_ref c p))) +
    (if lo_link (loc p c) = l \<and> lo_refed (loc p c) = b then 1 else 0)"
proof -
  let ?q = "goto c Stored (store_ref c p)"
  have "in_flight C l b p = (if lo_link (loc p c) = l \<and> lo_refed (loc p c) = b
      then insert c (in_flight C l b ?q) else in_flight C l b ?q)"
    using assms(2,3) by (auto simp: in_flight_def at_pc_def)
  moreover have "finite (in_flight C l b ?q)" "c \<notin> in_flight C l b ?q"
    using assms by (auto simp: in_flight_def at_pc_def)
  ultimately show ?thesis by simp
qed

text \<open>Steps before the exchange and after the store leave cells and counts as they are.\<close>

lemma count_quiet:
  assumes step: "pstep C Obj Refs p q" and inv: "inv_cells C Refs p" "inv_count C Obj Refs p"
    and c: "\<And>c. c \<in> C \<Longrightarrow> at_pc p c Logged \<Longrightarrow> word p (lo_refed (loc p c)) = lo_info (loc p c) \<Longrightarrow>
        cnt_in_range (lo_link (loc p c)) (lo_info (loc p c)) \<Longrightarrow> q \<noteq> goto c Swapped (swap_word c p)"
      "\<And>c. c \<in> C \<Longrightarrow> at_pc p c Swapped \<Longrightarrow> q \<noteq> goto c Stored (store_ref c p)"
  shows "inv_cells C Refs q \<and> inv_count C Obj Refs q"
proof
  have cells: "cell (mem q) = cell (mem p)"
    using step by (rule pstepE) (use c in \<open>auto simp: step_mem state_simps\<close>)
  show "inv_cells C Refs q"
    using step by (rule pstepE) (use inv c in \<open>auto simp: inv_cells_def at_pc_def step_mem state_simps may_start_def\<close>)
  show "inv_count C Obj Refs q"
    by (rule count_cong[OF cells _ _ inv(2)])
       (use step in \<open>rule pstepE; use c in \<open>auto simp: at_pc_def\<close>\<close>)+
qed

text \<open>The exchange changes the count of its object by one and the other counts not at all.\<close>

lemma swap_obj_cnt:
  assumes sys: "system_ok C Obj Refs" and c: "c \<in> C"
    and same: "word p (lo_refed (loc p c)) = lo_info (loc p c)"
    and range: "cnt_in_range (lo_link (loc p c)) (lo_info (loc p c))"
  shows "obj_cnt b (mem (goto c Swapped (swap_word c p))) =
      (if b = lo_refed (loc p c) then (if lo_link (loc p c) then obj_cnt b (mem p) + 1 else obj_cnt b (mem p) - 1)
       else obj_cnt b (mem p))"
    "\<not> lo_link (loc p c) \<Longrightarrow> 0 < obj_cnt (lo_refed (loc p c)) (mem p)"
  using new_word_fields(3)[OF system_ids(1)[OF sys c c] range, of "lo_era (loc p c)"] same range
  by (simp_all add: obj_cnt_def step_mem state_simps cnt_in_range_def unat_ref_info_cnt)

lemma swap_count:
  assumes fin: "finite_system C Obj Refs" and inv: "count_inv C Obj Refs p" and c: "c \<in> C" "at_pc p c Logged"
    and same: "word p (lo_refed (loc p c)) = lo_info (loc p c)"
    and range: "cnt_in_range (lo_link (loc p c)) (lo_info (loc p c))"
  shows "inv_cells C Refs (goto c Swapped (swap_word c p)) \<and> inv_count C Obj Refs (goto c Swapped (swap_word c p))"
proof
  let ?q = "goto c Swapped (swap_word c p)" and ?l = "loc p c"
  have sys: "system_ok C Obj Refs" using fin by (simp add: finite_system_def)
  have cells: "inv_cells C Refs p" and cnt: "inv_count C Obj Refs p" and run: "inv_running C Obj Refs p"
    using inv by (simp_all add: count_inv_def proto_inv_def)
  have obj: "lo_refed ?l \<in> Obj" using run c by (auto simp: inv_running_def at_pc_def)
  then have head: "obj_info (lo_refed ?l) \<notin> Refs" using sys by (simp add: system_ok_def)
  have word: "cell (mem ?q) = (cell (mem p))(obj_info (lo_refed ?l) := new_word c (lo_link ?l) (lo_info ?l) (lo_era ?l))"
    by (simp add: step_mem state_simps)
  have refs: "cell (mem ?q) r = cell (mem p) r" if "r \<in> Refs" for r
    using that head unfolding word by auto
  show "inv_cells C Refs ?q"
    using cells c refs unfolding inv_cells_def by (auto simp: at_pc_def simp del: goto_sel(1))
  have "finite C" "\<not> at_pc p c Swapped" using fin c(2) by (simp_all add: finite_system_def at_pc_def)
  note fl = in_flight_insert[OF this(1) c(1) this(2)]
  have hold: "holders Refs b ?q = holders Refs b p" for b using refs by (auto simp: holders_def)
  note oc = swap_obj_cnt(1)[OF sys c(1) same range] and pos = swap_obj_cnt(2)[OF sys c(1) same range]
  show "inv_count C Obj Refs ?q"
    unfolding inv_count_def
  proof
    fix b assume "b \<in> Obj"
    then have "obj_cnt b (mem p) + card (in_flight C False b p) = card (holders Refs b p) + card (in_flight C True b p)"
      using cnt by (simp add: inv_count_def)
    then show "obj_cnt b (mem ?q) + card (in_flight C False b ?q) = card (holders Refs b ?q) + card (in_flight C True b ?q)"
      unfolding hold fl oc using pos by auto
  qed
qed

lemma store_obj_cnt:
  assumes sys: "system_ok C Obj Refs" and inv: "proto_inv C Obj Refs p" and c: "c \<in> C" "at_pc p c Swapped"
    and b: "b \<in> Obj"
  shows "obj_cnt b (mem (goto c Stored (store_ref c p))) = obj_cnt b (mem p)"
proof -
  have "lo_ref (loc p c) \<in> Refs" using inv c by (auto simp: proto_inv_def inv_running_def at_pc_def)
  then show ?thesis using sys b by (auto simp: system_ok_def obj_cnt_def step_mem state_simps)
qed

lemma store_count:
  assumes fin: "finite_system C Obj Refs" and inv: "count_inv C Obj Refs p" and c: "c \<in> C" "at_pc p c Swapped"
  shows "inv_cells C Refs (goto c Stored (store_ref c p)) \<and> inv_count C Obj Refs (goto c Stored (store_ref c p))"
proof
  let ?q = "goto c Stored (store_ref c p)" and ?l = "loc p c"
  let ?x = "if lo_link ?l then lo_refed ?l else 0"
  have sys: "system_ok C Obj Refs" and zero: "0 \<notin> Obj" and finite: "finite C" "finite Refs"
    using fin by (simp_all add: finite_system_def)
  have cells: "inv_cells C Refs p" and cnt: "inv_count C Obj Refs p" and run: "inv_running C Obj Refs p"
    using inv by (simp_all add: count_inv_def proto_inv_def)
  have obj: "lo_refed ?l \<in> Obj" and ref: "lo_ref ?l \<in> Refs" using run c by (auto simp: inv_running_def at_pc_def)
  have old: "cell (mem p) (lo_ref ?l) = (if lo_link ?l then 0 else lo_refed ?l)"
    using cells c by (auto simp: inv_cells_def at_pc_def)
  have word: "cell (mem ?q) = (cell (mem p))(lo_ref ?l := ?x)" by (simp add: step_mem state_simps)
  show "inv_cells C Refs ?q"
    using cells c unfolding inv_cells_def word by (auto simp: at_pc_def)
  note fl = in_flight_remove[OF finite(1) c]
  have oc: "obj_cnt b (mem ?q) = obj_cnt b (mem p)" if "b \<in> Obj" for b
    using store_obj_cnt[OF sys _ c that] inv by (simp add: count_inv_def)
  have hold: "card (holders Refs b ?q) + (if \<not> lo_link ?l \<and> lo_refed ?l = b then 1 else 0) =
      card (holders Refs b p) + (if lo_link ?l \<and> lo_refed ?l = b then 1 else 0)" if b: "b \<in> Obj" for b
  proof -
    have fin: "finite (holders Refs b p)" "finite (holders Refs b ?q)" using finite(2) by (simp_all add: holders_def)
    have nz: "b \<noteq> 0" using b zero by blast
    consider "lo_refed ?l = b" "lo_link ?l" | "lo_refed ?l = b" "\<not> lo_link ?l" | "lo_refed ?l \<noteq> b" by blast
    then show ?thesis
    proof cases
      case 1
      then have "holders Refs b ?q = insert (lo_ref ?l) (holders Refs b p)" "lo_ref ?l \<notin> holders Refs b p"
        using ref old nz unfolding holders_def word by auto
      then show ?thesis using 1 fin by simp
    next
      case 2
      then have "holders Refs b p = insert (lo_ref ?l) (holders Refs b ?q)" "lo_ref ?l \<notin> holders Refs b ?q"
        using ref old nz unfolding holders_def word by auto
      then show ?thesis using 2 fin by simp
    next
      case 3
      then have "holders Refs b p = holders Refs b ?q"
        using old nz unfolding holders_def word by (auto split: if_splits)
      then show ?thesis using 3 by simp
    qed
  qed
  show "inv_count C Obj Refs ?q"
    unfolding inv_count_def
  proof
    fix b assume b: "b \<in> Obj"
    then have "obj_cnt b (mem p) + card (in_flight C False b p) = card (holders Refs b p) + card (in_flight C True b p)"
      using cnt by (simp add: inv_count_def)
    then show "obj_cnt b (mem ?q) + card (in_flight C False b ?q) = card (holders Refs b ?q) + card (in_flight C True b ?q)"
      using hold[OF b] unfolding oc[OF b] fl by (auto split: if_splits)
  qed
qed

lemma pstep_count:
  assumes fin: "finite_system C Obj Refs" and step: "pstep C Obj Refs p q" and inv: "count_inv C Obj Refs p"
  shows "count_inv C Obj Refs q"
proof -
  have "system_ok C Obj Refs" "proto_inv C Obj Refs p" using fin inv by (simp_all add: finite_system_def count_inv_def)
  then have proto: "proto_inv C Obj Refs q" using pstep_inv[OF _ step] by blast
  have "inv_cells C Refs q \<and> inv_count C Obj Refs q"
  proof (cases "\<exists>c \<in> C. at_pc p c Logged \<and> word p (lo_refed (loc p c)) = lo_info (loc p c) \<and>
      cnt_in_range (lo_link (loc p c)) (lo_info (loc p c)) \<and> q = goto c Swapped (swap_word c p)")
    case True
    then show ?thesis using swap_count[OF fin inv] by blast
  next
    case no_swap: False
    show ?thesis
    proof (cases "\<exists>c \<in> C. at_pc p c Swapped \<and> q = goto c Stored (store_ref c p)")
      case True
      then show ?thesis using store_count[OF fin inv] by blast
    next
      case False
      then show ?thesis using count_quiet[OF step] no_swap inv unfolding count_inv_def by blast
    qed
  qed
  then show ?thesis using proto by (simp add: count_inv_def)
qed


text \<open>Starting states in which the counts are right, and what holds in every state reached from them.\<close>

definition count_start :: "client set \<Rightarrow> u64 set \<Rightarrow> u64 set \<Rightarrow> pstate \<Rightarrow> bool" where
  "count_start C Obj Refs p \<longleftrightarrow> proto_start C Obj p \<and> (\<forall>b \<in> Obj. obj_cnt b (mem p) = card (holders Refs b p))"

lemma start_count_inv:
  assumes "count_start C Obj Refs p"
  shows "count_inv C Obj Refs p"
proof -
  have idle: "at_pc p c Idle" if "c \<in> C" for c using assms that by (simp add: count_start_def proto_start_def)
  then have "in_flight C l b p = {}" for l b by (auto simp: in_flight_def at_pc_def)
  then show ?thesis
    using assms idle start_proto_inv by (simp add: count_inv_def count_start_def inv_cells_def inv_count_def)
qed

lemma reach_count:
  assumes "reach C Obj Refs p0 p" "finite_system C Obj Refs" "count_start C Obj Refs p0"
  shows "count_inv C Obj Refs p"
  using assms(1) by induction (blast intro: start_count_inv[OF assms(3)] pstep_count[OF assms(2)])+

text \<open>
  C3: In every reachable state the count of an object is the number of cells that refer to it,
  corrected by the operations between their exchange and their store.
\<close>

lemma reachable_count:
  assumes "finite_system C Obj Refs" "count_start C Obj Refs p0" "reach C Obj Refs p0 p" "b \<in> Obj"
  shows "obj_cnt b (mem p) + card (in_flight C False b p) = card (holders Refs b p) + card (in_flight C True b p)"
  using reach_count[OF assms(3,1,2)] assms(4) by (simp add: count_inv_def inv_count_def)

lemma running_refs_inj:
  assumes "inv_cells C Refs p" "A \<subseteq> {c \<in> C. \<not> at_pc p c Idle}"
  shows "inj_on (\<lambda>d. lo_ref (loc p d)) A"
  using assms unfolding inv_cells_def inj_on_def by blast

text \<open>Each unlink in progress still has its own cell, so an unlink never finds the count 0.\<close>

lemma unlink_has_count:
  assumes fin: "finite_system C Obj Refs" and inv: "count_inv C Obj Refs p" and c: "c \<in> C" "\<not> lo_link (loc p c)"
    and pc: "\<not> at_pc p c Idle" "\<not> pending p c"
  shows "0 < obj_cnt (lo_refed (loc p c)) (mem p)"
proof -
  let ?b = "lo_refed (loc p c)" and ?F = "in_flight C False (lo_refed (loc p c)) p"
  have cells: "inv_cells C Refs p" and b: "?b \<in> Obj"
    using inv c pc by (auto simp: count_inv_def proto_inv_def inv_running_def)
  have finite: "finite C" "finite Refs" using fin by (simp_all add: finite_system_def)
  have np: "c \<notin> ?F" using pc by (auto simp: in_flight_def pending_def at_pc_def)
  have "inj_on (\<lambda>d. lo_ref (loc p d)) (insert c ?F)"
    using c pc by (intro running_refs_inj[OF cells]) (auto simp: in_flight_def at_pc_def)
  moreover have "(\<lambda>d. lo_ref (loc p d)) ` insert c ?F \<subseteq> holders Refs ?b p"
    using cells c pc unfolding inv_cells_def holders_def by (auto simp: in_flight_def at_pc_def pending_def)
  moreover have "finite (holders Refs ?b p)" "finite ?F" using finite by (simp_all add: holders_def in_flight_def)
  ultimately have "card (insert c ?F) \<le> card (holders Refs ?b p)" using card_inj_on_le by blast
  then have "card ?F + 1 \<le> card (holders Refs ?b p)" using np \<open>finite ?F\<close> by simp
  then show ?thesis using inv b by (force simp: count_inv_def inv_count_def)
qed

text \<open>So an object whose count is 0 is referred to by committed unlinks in progress only.\<close>

lemma zero_count_holders:
  assumes fin: "finite_system C Obj Refs" and inv: "count_inv C Obj Refs p" and b: "b \<in> Obj" "obj_cnt b (mem p) = 0"
    and r: "r \<in> Refs" "cell (mem p) r = b"
  shows "\<exists>c \<in> C. at_pc p c Swapped \<and> \<not> lo_link (loc p c) \<and> lo_ref (loc p c) = r"
proof -
  have cells: "inv_cells C Refs p" using inv by (simp add: count_inv_def)
  have cnt: "card (in_flight C False b p) = card (holders Refs b p) + card (in_flight C True b p)"
    using inv b unfolding count_inv_def inv_count_def by force
  have finite: "finite (holders Refs b p)" using fin by (simp add: holders_def finite_system_def)
  have "inj_on (\<lambda>d. lo_ref (loc p d)) (in_flight C False b p)"
    by (intro running_refs_inj[OF cells]) (auto simp: in_flight_def at_pc_def)
  then have "card ((\<lambda>d. lo_ref (loc p d)) ` in_flight C False b p) = card (in_flight C False b p)"
    by (rule card_image)
  moreover have "(\<lambda>d. lo_ref (loc p d)) ` in_flight C False b p \<subseteq> holders Refs b p"
    using cells unfolding inv_cells_def holders_def by (auto simp: in_flight_def at_pc_def)
  ultimately have "(\<lambda>d. lo_ref (loc p d)) ` in_flight C False b p = holders Refs b p"
    using cnt by (intro card_seteq[OF finite]; simp)
  then show ?thesis using r by (force simp: holders_def in_flight_def)
qed

section \<open>An undisturbed run\<close>

text \<open>
  C20: With no other thread in between, the seven steps of an operation end with the reference
  written and the count changed by one, and run \<open>link_reference\<close> and \<open>unlink_reference\<close> as they are
  in \<open>Ref_Count\<close>: an unlink that takes the count from 1 to 0 has its release still to come, which
  then starts from the memory the steps have left.
\<close>

lemma solo_run:
  assumes sys: "system_ok C Obj Refs" and c: "c \<in> C" "at_pc p c Idle" "refed \<in> Obj" "ref \<in> Refs"
    and start: "may_start C c link ref refed p" and range: "cnt_in_range link (word p refed)"
  shows "\<exists>q. (pstep C Obj Refs ^^ 7) p q \<and> at_pc q c Idle \<and> (\<forall>d. d \<noteq> c \<longrightarrow> loc q d = loc p d) \<and>
    cell (mem q) ref = (if link then refed else 0) \<and>
    obj_cnt refed (mem q) = (if link then obj_cnt refed (mem p) + 1 else obj_cnt refed (mem p) - 1) \<and>
    (if link then link_reference c ref refed (mem p) = mem q
     else unlink_reference c ref refed (mem p) =
       (if obj_cnt refed (mem p) = 1 then cxl_free c False refed (mem q) else Some (mem q)))"
proof -
  let ?s = "pstep C Obj Refs"
  define p1 where "p1 = begin_op c link ref refed p"
  define p2 where "p2 = goto c Loaded (load_word c p1)"
  define p3 where "p3 = goto c Seen (note_era c p2)"
  define p4 where "p4 = goto c Logged (log_op c p3)"
  define p5 where "p5 = goto c Swapped (swap_word c p4)"
  define p6 where "p6 = goto c Stored (store_ref c p5)"
  define p7 where "p7 = goto c Idle (next_era c p6)"
  note ps = p1_def p2_def p3_def p4_def p5_def p6_def p7_def
  have at: "at_pc p1 c Looping" "at_pc p2 c Loaded" "at_pc p3 c Seen" "at_pc p4 c Logged" "at_pc p5 c Swapped"
    "at_pc p6 c Stored" "at_pc p7 c Idle"
    by (simp_all add: ps at_pc_def)
  have l4: "lo_refed (loc p4 c) = refed" "lo_link (loc p4 c) = link" "lo_info (loc p4 c) = word p refed"
    "lo_ref (loc p4 c) = ref" "cell (mem p4) = cell (mem p)"
    by (simp_all add: ps step_mem state_simps)
  have "?s p p1" unfolding p1_def by (rule pstep.start[OF c start])
  moreover have "?s p1 p2" unfolding p2_def by (rule pstep.load[OF c(1) at(1)])
  moreover have "?s p2 p3" unfolding p3_def by (rule pstep.see[OF c(1) at(2)])
  moreover have "?s p3 p4" unfolding p4_def by (rule pstep.log[OF c(1) at(3)])
  moreover have "?s p4 p5" unfolding p5_def by (rule pstep.swap[OF c(1) at(4)]) (simp_all add: l4 range)
  moreover have "?s p5 p6" unfolding p6_def by (rule pstep.store[OF c(1) at(5)])
  moreover have "?s p6 p7" unfolding p7_def by (rule pstep.finish[OF c(1) at(6)])
  ultimately have run: "(?s ^^ 7) p p7" by (simp add: eval_nat_numeral OO_def) blast
  have others: "loc p7 d = loc p d" if "d \<noteq> c" for d
    using that by (simp add: ps goto_def begin_op_def load_word_def note_era_def log_op_def swap_word_def
        store_ref_def next_era_def Let_def)
  have mem: "mem p7 = (if link then link_reference c ref refed (mem p) else unlink_commit c ref refed (mem p))"
    by (simp add: ps step_mem link_reference_def unlink_commit_def Let_def new_word_def link_record_def op_id_def)
  have ne: "ref \<noteq> obj_info refed" using sys c(3,4) by (auto simp: system_ok_def)
  have l5: "loc p5 c = (loc p4 c)\<lparr>lo_pc := Swapped\<rparr>" by (simp add: p5_def goto_def)
  have cells: "cell (mem p7) = (cell (mem p))(obj_info refed := new_word c link (word p refed) (lo_era (loc p4 c)),
      ref := (if link then refed else 0))"
    unfolding p7_def p6_def
    by (simp add: step_mem state_simps l5) (simp add: p5_def step_mem state_simps l4)
  have cnt: "obj_cnt refed (mem p7) = (if link then obj_cnt refed (mem p) + 1 else obj_cnt refed (mem p) - 1)"
    using new_word_fields(3)[OF system_ids(1)[OF sys c(1) c(1)] range] ne by (simp add: obj_cnt_def cells)
  have "unlink_reference c ref refed (mem p) =
      (if obj_cnt refed (mem p) = 1 then cxl_free c False refed (mem p7) else Some (mem p7))" if "\<not> link"
  proof -
    have "0 < obj_cnt refed (mem p)" using range that by (simp add: cnt_in_range_def obj_cnt_def unat_ref_info_cnt)
    from unlink_reference_cases[OF this] show ?thesis using mem that by simp
  qed
  then show ?thesis using run at(7) others cnt mem cells by (intro exI[of _ p7]) simp
qed

section \<open>Refinement of atomic links and unlinks\<close>

text \<open>
  Runs of a labelled step relation with the labels of their visible steps, and of a function that
  takes one step per label. A simulation between the two carries over to runs: the labels of a run
  are a run of the function.
\<close>

inductive labelled_run :: "('c \<Rightarrow> 'l option \<Rightarrow> 'c \<Rightarrow> bool) \<Rightarrow> 'c \<Rightarrow> 'l list \<Rightarrow> 'c \<Rightarrow> bool" for st p where
  no_step: "labelled_run st p [] p"
| silent: "labelled_run st p ls q \<Longrightarrow> st q None r \<Longrightarrow> labelled_run st p ls r"
| visible: "labelled_run st p ls q \<Longrightarrow> st q (Some l) r \<Longrightarrow> labelled_run st p (ls @ [l]) r"

primrec do_all :: "('l \<Rightarrow> 'a \<Rightarrow> 'a option) \<Rightarrow> 'l list \<Rightarrow> 'a \<Rightarrow> 'a option" where
  "do_all f [] h = Some h"
| "do_all f (l # ls) h = Option.bind (f l h) (do_all f ls)"

lemma do_all_snoc: "do_all f (ls @ [l]) h = Option.bind (do_all f ls h) (f l)"
  by (induction ls arbitrary: h) (simp_all split: bind_split)

locale simulation =
  fixes cstep :: "'c \<Rightarrow> 'l option \<Rightarrow> 'c \<Rightarrow> bool" and astep :: "'l \<Rightarrow> 'a \<Rightarrow> 'a option"
    and rel :: "'c \<Rightarrow> 'a \<Rightarrow> bool"
  assumes sim_silent: "rel p h \<Longrightarrow> cstep p None q \<Longrightarrow> rel q h"
    and sim_visible: "rel p h \<Longrightarrow> cstep p (Some l) q \<Longrightarrow> \<exists>h'. astep l h = Some h' \<and> rel q h'"
begin

lemma run_refines: "labelled_run cstep p ls q \<Longrightarrow> rel p h \<Longrightarrow> \<exists>h'. do_all astep ls h = Some h' \<and> rel q h'"
proof (induction rule: labelled_run.induct)
  case (visible ls q l r)
  then obtain h' where "do_all astep ls h = Some h'" "rel q h'" by blast
  then show ?case using sim_visible[OF _ visible.hyps(2)] by (auto simp: do_all_snoc)
qed (auto intro: sim_silent)

end

text \<open>
  The specification knows the references and the counts: a link fills an empty cell and counts, an
  unlink empties a cell that holds the object and discounts, at once.
\<close>

datatype ref_op = Link_Op client u64 u64 | Unlink_Op client u64 u64

record ref_state =
  rs_cell :: "u64 \<Rightarrow> u64"
  rs_count :: "u64 \<Rightarrow> nat"

fun atomic :: "ref_op \<Rightarrow> ref_state \<Rightarrow> ref_state option" where
  "atomic (Link_Op c r b) h =
     (if rs_cell h r = 0
      then Some \<lparr>rs_cell = (rs_cell h)(r := b), rs_count = (rs_count h)(b := rs_count h b + 1)\<rparr> else None)"
| "atomic (Unlink_Op c r b) h =
     (if rs_cell h r = b \<and> 0 < rs_count h b
      then Some \<lparr>rs_cell = (rs_cell h)(r := 0), rs_count = (rs_count h)(b := rs_count h b - 1)\<rparr> else None)"

definition ref_state_of :: "pstate \<Rightarrow> ref_state" where
  "ref_state_of p = \<lparr>rs_cell = cell (mem p), rs_count = (\<lambda>b. obj_cnt b (mem p))\<rparr>"

text \<open>A step shows the operation whose exchange it is; every other step is silent.\<close>

definition exchanges :: "client \<Rightarrow> pstate \<Rightarrow> pstate \<Rightarrow> bool" where
  "exchanges c p q \<longleftrightarrow> \<not> at_pc p c Swapped \<and> at_pc q c Swapped"

definition op_of :: "pstate \<Rightarrow> client \<Rightarrow> ref_op" where
  "op_of p c = (if lo_link (loc p c) then Link_Op else Unlink_Op) c (lo_ref (loc p c)) (lo_refed (loc p c))"

definition op_step :: "client set \<Rightarrow> u64 set \<Rightarrow> u64 set \<Rightarrow> pstate \<Rightarrow> ref_op option \<Rightarrow> pstate \<Rightarrow> bool" where
  "op_step C Obj Refs p l q \<longleftrightarrow> pstep C Obj Refs p q \<and>
     (case l of None \<Rightarrow> \<forall>c \<in> C. \<not> exchanges c p q | Some oper \<Rightarrow> \<exists>c \<in> C. exchanges c p q \<and> oper = op_of p c)"

text \<open>The cell of an exchanged operation stands for the value the thread is about to store.\<close>

definition final_ref :: "local_state \<Rightarrow> u64" where
  "final_ref l = (if lo_link l then lo_refed l else 0)"

definition ref_view :: "client set \<Rightarrow> u64 set \<Rightarrow> pstate \<Rightarrow> (u64 \<Rightarrow> u64) \<Rightarrow> bool" where
  "ref_view C Refs p h \<longleftrightarrow>
     (\<forall>c \<in> C. at_pc p c Swapped \<longrightarrow> h (lo_ref (loc p c)) = final_ref (loc p c)) \<and>
     (\<forall>r \<in> Refs. (\<forall>c \<in> C. at_pc p c Swapped \<longrightarrow> lo_ref (loc p c) \<noteq> r) \<longrightarrow> h r = cell (mem p) r)"

definition refines :: "client set \<Rightarrow> u64 set \<Rightarrow> u64 set \<Rightarrow> pstate \<Rightarrow> ref_state \<Rightarrow> bool" where
  "refines C Obj Refs p h \<longleftrightarrow> finite_system C Obj Refs \<and> count_inv C Obj Refs p \<and>
     ref_view C Refs p (rs_cell h) \<and> (\<forall>b \<in> Obj. rs_count h b = obj_cnt b (mem p))"

lemma pstep_kinds:
  assumes "pstep C Obj Refs p q"
  shows "(\<exists>c \<in> C. at_pc p c Logged \<and> word p (lo_refed (loc p c)) = lo_info (loc p c) \<and>
       cnt_in_range (lo_link (loc p c)) (lo_info (loc p c)) \<and> q = goto c Swapped (swap_word c p)) \<or>
     (\<exists>c \<in> C. at_pc p c Swapped \<and> q = goto c Stored (store_ref c p)) \<or>
     cell (mem q) = cell (mem p) \<and> (\<forall>c \<in> C. at_pc q c Swapped \<longleftrightarrow> at_pc p c Swapped) \<and>
     (\<forall>c \<in> C. at_pc p c Swapped \<longrightarrow> loc q c = loc p c)"
  using assms
proof (rule pstepE)
  fix c assume "q = goto c Swapped (swap_word c p)" "c \<in> C" "at_pc p c Logged"
    "word p (lo_refed (loc p c)) = lo_info (loc p c)" "cnt_in_range (lo_link (loc p c)) (lo_info (loc p c))"
  then show ?thesis by blast
next
  fix c assume "q = goto c Stored (store_ref c p)" "c \<in> C" "at_pc p c Swapped"
  then show ?thesis by blast
qed (rule disjI2, rule disjI2, auto simp: at_pc_def step_mem state_simps goto_def)+

lemma exchanges_swap: "at_pc p c Logged \<Longrightarrow> exchanges d p (goto c Swapped (swap_word c p)) \<longleftrightarrow> d = c"
  by (auto simp: exchanges_def at_pc_def)

lemma exchanges_store: "\<not> exchanges d p (goto c Stored (store_ref c p))"
  by (auto simp: exchanges_def at_pc_def)

lemma final_ref_goto [simp]: "final_ref (loc (goto c a p) d) = final_ref (loc p d)"
  by (simp add: final_ref_def)

lemma swap_refines:
  assumes rel: "refines C Obj Refs p h" and c: "c \<in> C" "at_pc p c Logged"
    and same: "word p (lo_refed (loc p c)) = lo_info (loc p c)"
    and range: "cnt_in_range (lo_link (loc p c)) (lo_info (loc p c))"
  defines "q \<equiv> goto c Swapped (swap_word c p)"
  shows "\<exists>h'. atomic (op_of p c) h = Some h' \<and> ref_view C Refs q (rs_cell h') \<and>
    (\<forall>b \<in> Obj. rs_count h' b = obj_cnt b (mem q))"
proof -
  let ?l = "loc p c"
  have sys: "system_ok C Obj Refs" and cells: "inv_cells C Refs p" and view: "ref_view C Refs p (rs_cell h)"
    and run: "inv_running C Obj Refs p" and cnt: "\<And>b. b \<in> Obj \<Longrightarrow> rs_count h b = obj_cnt b (mem p)"
    using rel by (simp_all add: refines_def finite_system_def count_inv_def proto_inv_def)
  have obj: "lo_refed ?l \<in> Obj" "lo_ref ?l \<in> Refs" using run c by (auto simp: inv_running_def at_pc_def)
  have other: "lo_ref (loc p d) \<noteq> lo_ref ?l" if "d \<in> C" "at_pc p d Swapped" for d
  proof -
    have "inj_on (\<lambda>d. lo_ref (loc p d)) {c, d}"
      using that c by (intro running_refs_inj[OF cells]) (auto simp: at_pc_def)
    moreover have "d \<noteq> c" using that(2) c(2) by (auto simp: at_pc_def)
    ultimately show ?thesis by auto
  qed
  then have "rs_cell h (lo_ref ?l) = cell (mem p) (lo_ref ?l)" using view obj(2) by (simp add: ref_view_def)
  also have "\<dots> = (if lo_link ?l then 0 else lo_refed ?l)" using cells c by (auto simp: inv_cells_def at_pc_def)
  finally have old: "rs_cell h (lo_ref ?l) = (if lo_link ?l then 0 else lo_refed ?l)" .
  note oc = swap_obj_cnt(1)[OF sys c(1) same range] and pos = swap_obj_cnt(2)[OF sys c(1) same range]
  define h' where "h' = \<lparr>rs_cell = (rs_cell h)(lo_ref ?l := final_ref ?l),
    rs_count = (rs_count h)(lo_refed ?l := (if lo_link ?l then rs_count h (lo_refed ?l) + 1
      else rs_count h (lo_refed ?l) - 1))\<rparr>"
  have "atomic (op_of p c) h = Some h'"
    using old pos cnt[OF obj(1)] by (simp add: op_of_def h'_def final_ref_def)
  moreover have mem: "cell (mem q) r = cell (mem p) r" if "r \<in> Refs" for r
    using that sys obj(1) by (auto simp: q_def step_mem state_simps system_ok_def)
  have "at_pc q d Swapped \<longleftrightarrow> d = c \<or> at_pc p d Swapped" for d by (auto simp: q_def at_pc_def)
  then have "ref_view C Refs q (rs_cell h')"
    using view other mem c(1) unfolding ref_view_def h'_def by (auto simp: q_def simp del: goto_sel(1))
  moreover have "rs_count h' b = obj_cnt b (mem q)" if "b \<in> Obj" for b
    using cnt[OF that] unfolding q_def oc by (auto simp: h'_def)
  ultimately show ?thesis by blast
qed

lemma store_refines:
  assumes rel: "refines C Obj Refs p h" and c: "c \<in> C" "at_pc p c Swapped"
  defines "q \<equiv> goto c Stored (store_ref c p)"
  shows "ref_view C Refs q (rs_cell h) \<and> (\<forall>b \<in> Obj. rs_count h b = obj_cnt b (mem q))"
proof -
  let ?l = "loc p c"
  have cells: "inv_cells C Refs p" and view: "ref_view C Refs p (rs_cell h)"
    and sys: "system_ok C Obj Refs" and inv: "proto_inv C Obj Refs p"
    and cnt: "\<And>b. b \<in> Obj \<Longrightarrow> rs_count h b = obj_cnt b (mem p)"
    using rel by (simp_all add: refines_def count_inv_def finite_system_def)
  have mem: "cell (mem q) = (cell (mem p))(lo_ref ?l := final_ref ?l)"
    by (simp add: q_def step_mem state_simps final_ref_def)
  have at: "at_pc q d Swapped \<longleftrightarrow> d \<noteq> c \<and> at_pc p d Swapped" for d using c(2) by (auto simp: q_def at_pc_def)
  have keep: "lo_ref (loc q d) = lo_ref (loc p d)" "final_ref (loc q d) = final_ref (loc p d)" for d
    by (simp_all add: q_def)
  have "ref_view C Refs q (rs_cell h)"
    using view c unfolding ref_view_def mem at keep by auto
  moreover have "rs_count h b = obj_cnt b (mem q)" if "b \<in> Obj" for b
    using cnt[OF that] store_obj_cnt[OF sys inv c that] by (simp add: q_def)
  ultimately show ?thesis by blast
qed

lemma op_step_refines:
  assumes rel: "refines C Obj Refs p h" and step: "op_step C Obj Refs p l q"
  shows "case l of None \<Rightarrow> refines C Obj Refs q h
    | Some oper \<Rightarrow> \<exists>h'. atomic oper h = Some h' \<and> refines C Obj Refs q h'"
proof -
  have pst: "pstep C Obj Refs p q" using step by (simp add: op_step_def)
  have base: "finite_system C Obj Refs" "count_inv C Obj Refs q"
    using rel pstep_count[OF _ pst] by (auto simp: refines_def)
  from pstep_kinds[OF pst] show ?thesis
  proof (elim disjE)
    assume "\<exists>c \<in> C. at_pc p c Logged \<and> word p (lo_refed (loc p c)) = lo_info (loc p c) \<and>
       cnt_in_range (lo_link (loc p c)) (lo_info (loc p c)) \<and> q = goto c Swapped (swap_word c p)"
    then obtain c where c: "c \<in> C" "at_pc p c Logged" "word p (lo_refed (loc p c)) = lo_info (loc p c)"
      "cnt_in_range (lo_link (loc p c)) (lo_info (loc p c))" and q: "q = goto c Swapped (swap_word c p)" by blast
    have "l = Some (op_of p c)"
      using step c(1) unfolding op_step_def q exchanges_swap[OF c(2)] by (auto split: option.splits)
    then show ?thesis using swap_refines[OF rel c] base unfolding refines_def q by auto
  next
    assume "\<exists>c \<in> C. at_pc p c Swapped \<and> q = goto c Stored (store_ref c p)"
    then obtain c where c: "c \<in> C" "at_pc p c Swapped" and q: "q = goto c Stored (store_ref c p)" by blast
    have "l = None" using step unfolding op_step_def q by (auto simp: exchanges_store split: option.splits)
    then show ?thesis using store_refines[OF rel c] base unfolding refines_def q by simp
  next
    assume quiet: "cell (mem q) = cell (mem p) \<and> (\<forall>c \<in> C. at_pc q c Swapped \<longleftrightarrow> at_pc p c Swapped) \<and>
       (\<forall>c \<in> C. at_pc p c Swapped \<longrightarrow> loc q c = loc p c)"
    then have "l = None" using step unfolding op_step_def by (auto simp: exchanges_def split: option.splits)
    moreover have "ref_view C Refs q (rs_cell h) = ref_view C Refs p (rs_cell h)" "obj_cnt b (mem q) = obj_cnt b (mem p)" for b
      using quiet by (simp_all add: ref_view_def obj_cnt_def)
    ultimately show ?thesis using rel base by (simp add: refines_def)
  qed
qed

interpretation rf: simulation "op_step C Obj Refs" atomic "refines C Obj Refs" for C Obj Refs
  by unfold_locales (use op_step_refines in fastforce)+

lemma reach_labelled: "reach C Obj Refs p0 p \<Longrightarrow> \<exists>ops. labelled_run (op_step C Obj Refs) p0 ops p"
proof (induction rule: reach.induct)
  case (step q r)
  then obtain ops where ops: "labelled_run (op_step C Obj Refs) p0 ops q" by blast
  show ?case
  proof (cases "\<exists>c \<in> C. exchanges c q r")
    case True
    then obtain c where "c \<in> C" "exchanges c q r" by blast
    then have "op_step C Obj Refs q (Some (op_of q c)) r" using step.hyps(2) by (auto simp: op_step_def)
    then show ?thesis using labelled_run.visible[OF ops] by blast
  next
    case False
    then have "op_step C Obj Refs q None r" using step.hyps(2) by (simp add: op_step_def)
    then show ?thesis using labelled_run.silent[OF ops] by blast
  qed
qed (blast intro: labelled_run.no_step)

text \<open>
  C2: Whatever the interleaving, running the operations one by one and at once, in the order of their
  exchanges, is possible and gives the memory of the run: every count of an object is the one the
  atomic operations leave, and so is every cell, up to the cells of exchanged operations whose store
  is still to come.
\<close>

lemma reach_refines:
  assumes "finite_system C Obj Refs" "count_start C Obj Refs p0" "reach C Obj Refs p0 p"
  shows "(\<exists>ops. labelled_run (op_step C Obj Refs) p0 ops p) \<and>
    (\<forall>ops. labelled_run (op_step C Obj Refs) p0 ops p \<longrightarrow>
       (\<exists>h. do_all atomic ops (ref_state_of p0) = Some h \<and> ref_view C Refs p (rs_cell h) \<and>
          (\<forall>b \<in> Obj. rs_count h b = obj_cnt b (mem p))))"
proof -
  have "at_pc p0 c Idle" if "c \<in> C" for c using assms(2) that by (simp add: count_start_def proto_start_def)
  then have "ref_view C Refs p0 (cell (mem p0))" by (auto simp: ref_view_def at_pc_def)
  then have "refines C Obj Refs p0 (ref_state_of p0)"
    using assms start_count_inv by (simp add: refines_def ref_state_of_def)
  then show ?thesis
    using reach_labelled[OF assms(3)] rf.run_refines[of C Obj Refs p0 _ p "ref_state_of p0"]
    unfolding refines_def by meson
qed

section \<open>The counts in reachable states\<close>

text \<open>
  C18: Under any interleaving, an unlink that has not exchanged yet finds a positive count, so the
  count never goes below zero.
\<close>

lemma reachable_unlink_counted:
  assumes "finite_system C Obj Refs" "count_start C Obj Refs p0" "reach C Obj Refs p0 p"
    and "c \<in> C" "\<not> lo_link (loc p c)" "\<not> at_pc p c Idle" "\<not> pending p c"
  shows "0 < obj_cnt (lo_refed (loc p c)) (mem p)"
  by (rule unlink_has_count[OF assms(1) reach_count[OF assms(3,1,2)] assms(4-)])

text \<open>
  C19: An object whose count has reached zero is referred to by no cell other than those of
  committed unlinks about to clear them.
\<close>

lemma reachable_zero_unreferenced:
  assumes "finite_system C Obj Refs" "count_start C Obj Refs p0" "reach C Obj Refs p0 p"
    and "b \<in> Obj" "obj_cnt b (mem p) = 0" "r \<in> Refs" "cell (mem p) r = b"
  shows "\<exists>c \<in> C. at_pc p c Swapped \<and> \<not> lo_link (loc p c) \<and> lo_ref (loc p c) = r"
  by (rule zero_count_holders[OF assms(1) reach_count[OF assms(3,1,2)] assms(4-)])

end
