(* ===== verification/Sweep.thy ===== *)
theory Sweep
  imports Recovery
begin

text \<open>
  The second half of the monitor's loop: a segment is given back exactly when no object on its pages
  is counted and no message queue on them has a sender or a receiver. The lemmas follow the nesting of
  the code: blocks of a page, pages of a segment, segments.
\<close>

section \<open>Counted loops\<close>

lemma for_range_rule:
  assumes "\<And>j s. i \<le> j \<Longrightarrow> j < i + n \<Longrightarrow> P j s \<Longrightarrow> \<exists>s'. f j s = Some s' \<and> P (Suc j) s'" "P i s"
  shows "\<exists>s'. for_range f i n s = Some s' \<and> P (i + n) s'"
  using assms
proof (induction n arbitrary: i s)
  case (Suc n)
  obtain s1 where s1: "f i s = Some s1" "P (Suc i) s1" using Suc.prems(1)[of i s] Suc.prems(2) by auto
  have "\<exists>s'. for_range f (Suc i) n s1 = Some s' \<and> P (Suc i + n) s'"
    using Suc.prems(1) s1(2) by (intro Suc.IH) auto
  then show ?case using s1(1) by simp
qed simp

section \<open>The blocks of a page\<close>

text \<open>The block size of a page as the code reads it, and its blocks.\<close>

definition page_bs :: "nat \<Rightarrow> nat \<Rightarrow> shm \<Rightarrow> u64" where
  "page_bs i k s = ucast (pg_block_size (page s (meta_at (seg_at i) k)))"

definition blocks_of :: "nat \<Rightarrow> nat \<Rightarrow> shm \<Rightarrow> u64 list" where
  "blocks_of i k s = page_blocks (area_at (seg_at i) k) (page_bs i k s)"

text \<open>A descriptor the sweep can walk: unused, a page of small blocks, or a page of message queues.\<close>

definition page_fit :: "nat \<Rightarrow> nat \<Rightarrow> shm \<Rightarrow> bool" where
  "page_fit i k s \<longleftrightarrow> pg_block_size (page s (meta_at (seg_at i) k)) = 0 \<or>
     16 \<le> unat (page_bs i k s) \<and> unat (page_bs i k s) \<le> 2 ^ 16 \<and>
     (pg_is_msg_queue (page s (meta_at (seg_at i) k)) \<longrightarrow> 192 \<le> unat (page_bs i k s))"

definition queue_used :: "u64 \<Rightarrow> shm \<Rightarrow> bool" where
  "queue_used q s \<longleftrightarrow> get_receiver_id (cell s (mq_ids q)) \<noteq> 0 \<or> get_sender_id (cell s (mq_ids q)) \<noteq> 0"

definition page_used :: "nat \<Rightarrow> nat \<Rightarrow> shm \<Rightarrow> bool" where
  "page_used i k s \<longleftrightarrow> pg_block_size (page s (meta_at (seg_at i) k)) \<noteq> 0 \<and>
     (\<exists>b \<in> set (blocks_of i k s). if pg_is_msg_queue (page s (meta_at (seg_at i) k))
        then queue_used b s else 0 < obj_cnt b s)"

definition last_blk :: "u64 \<Rightarrow> u64 \<Rightarrow> u64" where
  "last_blk area bs = blk area bs (block_cnt bs - 1)"

lemma page_first_last:
  assumes "i < MAX_SEGMENT_NUM" "k < PAGES_PER_SEGMENT" "16 \<le> unat (page_bs i k s)" "unat (page_bs i k s) \<le> 2 ^ 16"
  shows "area_ok (area_at (seg_at i) k) (page_bs i k s)"
    "page_first (meta_at (seg_at i) k) s = blk (area_at (seg_at i) k) (page_bs i k s) 0"
    "page_last (meta_at (seg_at i) k) s =
       last_blk (area_at (seg_at i) k) (page_bs i k s)"
proof -
  show ok: "area_ok (area_at (seg_at i) k) (page_bs i k s)" by (rule area_ok_area_at[OF assms])
  have seg: "cxl_ptr_segment (meta_at (seg_at i) k) = seg_at i"
    by (rule cxl_ptr_segment_in[OF in_segment_meta[OF assms(1,2)]])
  show "page_first (meta_at (seg_at i) k) s = blk (area_at (seg_at i) k) (page_bs i k s) 0"
    unfolding page_first_def seg cxl_page_start_meta[OF assms(2)]
    by (simp add: cxl_page_block_at_def blk_def page_bs_def)
  show "page_last (meta_at (seg_at i) k) s =
      last_blk (area_at (seg_at i) k) (page_bs i k s)"
    unfolding page_last_def seg cxl_page_start_meta[OF assms(2)] last_blk_def page_bs_def[symmetric]
    by (rule last_block_eq[OF ok])
qed

lemma blk_le_last:
  assumes "area_ok area bs" "j \<le> block_cnt bs"
  shows "blk area bs j \<le> last_blk area bs \<longleftrightarrow> j < block_cnt bs"
proof -
  have pos: "0 < unat bs" "0 < block_cnt bs" using assms(1) block_cnt_pos by (auto simp: area_ok_def)
  have "unat (blk area bs j) \<le> unat (blk area bs (block_cnt bs - 1)) \<longleftrightarrow> j \<le> block_cnt bs - 1"
    using assms pos by (simp add: unat_blk)
  then show ?thesis using pos by (auto simp: word_le_nat_alt last_blk_def)
qed

text \<open>\<open>live_obj\<close> returns, and says whether a block from \<open>j\<close> on has a positive count.\<close>

lemma live_obj_from:
  assumes ok: "area_ok area bs" and j: "j \<le> block_cnt bs"
  shows "live_obj bs (last_blk area bs) (blk area bs j) s =
    Some (\<exists>m. j \<le> m \<and> m < block_cnt bs \<and> 0 < obj_cnt (blk area bs m) s)"
  using j
proof (induction j rule: inc_induct)
  case base
  then show ?case by (subst live_obj.simps) (simp add: blk_le_last[OF ok])
next
  case (step j)
  have pos: "get_ref_cnt_from_info (cell s (obj_info b)) > 0 \<longleftrightarrow> 0 < obj_cnt b s" for b
    by (simp add: obj_cnt_def word_less_nat_alt)
  have "(\<exists>m. j \<le> m \<and> m < block_cnt bs \<and> 0 < obj_cnt (blk area bs m) s) \<longleftrightarrow>
      0 < obj_cnt (blk area bs j) s \<or> (\<exists>m. Suc j \<le> m \<and> m < block_cnt bs \<and> 0 < obj_cnt (blk area bs m) s)"
    using step.hyps by (metis Suc_leD Suc_leI le_eq_less_or_eq)
  then show ?case
    using step by (subst live_obj.simps) (simp add: blk_le_last[OF ok] pos blk_Suc)
qed

lemma live_obj_spec:
  assumes "area_ok area bs"
  shows "live_obj bs (last_blk area bs) (blk area bs 0) s =
    Some (\<exists>b \<in> set (page_blocks area bs). 0 < obj_cnt b s)"
  using live_obj_from[OF assms, of 0 s] by (auto simp: page_blocks_def)

text \<open>The sweep of a page of objects decides the same; it changes nothing.\<close>

lemma sweep_blocks_objects:
  assumes "\<not> pg_is_msg_queue (page s pg)" "ucast (pg_block_size (page s pg)) = bs"
    and ok: "area_ok area bs" and j: "j \<le> block_cnt bs"
  shows "sweep_blocks pg (last_blk area bs) (blk area bs j) s =
    map_option (\<lambda>live. (live, s)) (live_obj bs (last_blk area bs) (blk area bs j) s)"
  using j
proof (induction j rule: inc_induct)
  case base
  then show ?case by (subst sweep_blocks.simps, subst live_obj.simps) (simp add: blk_le_last[OF ok])
next
  case (step j)
  then show ?case
    using assms(1,2) by (subst sweep_blocks.simps, subst live_obj.simps) (simp add: blk_le_last[OF ok] blk_Suc Let_def)
qed

text \<open>The sweep of a page of message queues clears the unused ones up to the first in use.\<close>

lemma queue_cells:
  assumes "unat (q :: u64) + 192 < 2 ^ 64" "m < 24"
  shows "unat (q + 8 * of_nat m) = unat q + 8 * m"
  using unat_add_small[of q "8 * m"] assms by simp

lemma clear_queue_frame:
  assumes "unat q + 192 < 2 ^ 64" "unat x < unat q \<or> unat q + 192 \<le> unat x"
  shows "cell (clear_cells q 24 s) x = cell s x"
proof -
  have "x \<noteq> q + 8 * of_nat m" if "m < 24" for m
    using queue_cells[OF assms(1) that] assms(2) that by auto
  then show ?thesis by (auto simp: cell_clear_cells)
qed

lemma sweep_blocks_queues:
  assumes "pg_is_msg_queue (page s pg)" "ucast (pg_block_size (page s pg)) = bs"
    and ok: "area_ok area bs" and bs: "192 \<le> unat bs" and j: "j \<le> block_cnt bs"
  shows "\<exists>s'. sweep_blocks pg (last_blk area bs) (blk area bs j) s =
      Some (\<exists>m. j \<le> m \<and> m < block_cnt bs \<and> queue_used (blk area bs m) s, s') \<and>
    page s' = page s \<and> segment s' = segment s \<and> sas s' = sas s \<and> tls s' = tls s \<and> era_tab s' = era_tab s \<and>
    (\<forall>x. unat x < unat (blk area bs j) \<or> unat area + 2 ^ 16 \<le> unat x \<longrightarrow> cell s' x = cell s x) \<and>
    (\<forall>m. j \<le> m \<and> m < block_cnt bs \<longrightarrow> queue_used (blk area bs m) s' = queue_used (blk area bs m) s)"
  using j assms(1,2)
proof (induction j arbitrary: s rule: inc_induct)
  case base
  then show ?case by (subst sweep_blocks.simps) (simp add: blk_le_last[OF ok])
next
  case (step j)
  let ?b = "blk area bs j" and ?l = "last_blk area bs" and ?n = "blk area bs (Suc j)"
  have ub: "unat ?b = unat area + j * unat bs" "unat ?n = unat area + Suc j * unat bs"
    using step by (simp_all add: unat_blk[OF ok])
  have "Suc j * unat bs \<le> block_cnt bs * unat bs" using step.hyps by (intro mult_le_mono1) simp
  then have le16: "Suc j * unat bs \<le> 2 ^ 16" using block_cnt_mult[of bs] by linarith
  have small: "unat ?b + 192 < 2 ^ 64" using ub le16 ok bs by (simp add: area_ok_def)
  have some: "(\<exists>m. j \<le> m \<and> m < block_cnt bs \<and> queue_used (blk area bs m) s) \<longleftrightarrow>
      queue_used ?b s \<or> (\<exists>m. Suc j \<le> m \<and> m < block_cnt bs \<and> queue_used (blk area bs m) s)"
    using step.hyps by (metis Suc_leD Suc_leI le_eq_less_or_eq)
  show ?case
  proof (cases "queue_used ?b s")
    case True
    then show ?thesis
      using step some by (subst sweep_blocks.simps) (auto simp: blk_le_last[OF ok] Let_def queue_used_def)
  next
    case False
    let ?s = "clear_cells ?b 24 s"
    have frame: "cell ?s x = cell s x" if "unat x < unat ?b \<or> unat ?n \<le> unat x" for x
      using that ub bs by (intro clear_queue_frame[OF small]) auto
    have later: "queue_used (blk area bs m) ?s = queue_used (blk area bs m) s" if "Suc j \<le> m" "m < block_cnt bs" for m
    proof -
      have um: "unat (blk area bs m) = unat area + m * unat bs" using that by (simp add: unat_blk[OF ok])
      have "m * unat bs \<le> block_cnt bs * unat bs" "Suc j * unat bs \<le> m * unat bs"
        using that by (intro mult_le_mono1; simp)+
      moreover from this have "m * unat bs \<le> 2 ^ 16" using block_cnt_mult[of bs] by linarith
      ultimately have "unat ?n \<le> unat (blk area bs m)" "unat (blk area bs m) + 16 < 2 ^ 64"
        using um ub ok by (simp_all add: area_ok_def)
      then have "unat ?n \<le> unat (mq_ids (blk area bs m))"
        using unat_add_small[of "blk area bs m" 16] by (simp add: mq_ids_def)
      then show ?thesis using frame by (simp add: queue_used_def)
    qed
    have "page ?s = page s" by (simp add: state_simps)
    then obtain s' where s': "sweep_blocks pg ?l ?n ?s =
        Some (\<exists>m. Suc j \<le> m \<and> m < block_cnt bs \<and> queue_used (blk area bs m) ?s, s')"
      "page s' = page ?s" "segment s' = segment ?s" "sas s' = sas ?s" "tls s' = tls ?s" "era_tab s' = era_tab ?s"
      "\<forall>x. unat x < unat ?n \<or> unat area + 2 ^ 16 \<le> unat x \<longrightarrow> cell s' x = cell ?s x"
      "\<forall>m. Suc j \<le> m \<and> m < block_cnt bs \<longrightarrow> queue_used (blk area bs m) s' = queue_used (blk area bs m) ?s"
      using step.IH[of ?s] step.prems by auto
    have mine: "\<not> queue_used ?b s'"
    proof -
      have "unat (mq_ids ?b) = unat ?b + 16"
        using unat_add_small[of ?b 16] small by (simp add: mq_ids_def)
      then have "unat (mq_ids ?b) < unat ?n" using ub bs by simp
      then have "cell s' (mq_ids ?b) = cell ?s (mq_ids ?b)" using s'(7) by simp
      also have "\<dots> = 0"
      proof -
        have "mq_ids ?b = ?b + 8 * of_nat 2" by (simp add: mq_ids_def)
        then show ?thesis unfolding cell_clear_cells by (metis (mono_tags, lifting) less_numeral_extra(2) numeral_less_iff semiring_norm(76) semiring_norm(78) semiring_norm(81))
      qed
      finally show ?thesis by (simp add: queue_used_def get_sender_id_def get_receiver_id_def get_field_def)
    qed
    have kept: "queue_used (blk area bs m) s' = queue_used (blk area bs m) s" if "j \<le> m" "m < block_cnt bs" for m
      using that mine False later s'(8) by (cases "m = j") auto
    have "sweep_blocks pg ?l ?b s = sweep_blocks pg ?l ?n ?s"
      using False step by (subst sweep_blocks.simps) (simp add: blk_le_last[OF ok] Let_def queue_used_def blk_Suc)
    moreover have "(\<exists>m. Suc j \<le> m \<and> m < block_cnt bs \<and> queue_used (blk area bs m) ?s) \<longleftrightarrow>
        (\<exists>m. Suc j \<le> m \<and> m < block_cnt bs \<and> queue_used (blk area bs m) s)" using later by blast
    moreover have "cell s' x = cell s x" if "unat x < unat ?b \<or> unat area + 2 ^ 16 \<le> unat x" for x
    proof -
      have "unat ?n \<le> unat area + 2 ^ 16" "unat ?b \<le> unat ?n" using ub le16 by simp_all
      then show ?thesis using that s'(7) frame by auto
    qed
    ultimately show ?thesis using s'(1-6) some False kept by (auto simp: state_simps)
  qed
qed

section \<open>The pages of a segment\<close>

text \<open>What a sweep of segment \<open>i\<close> may touch: its own pages' descriptors and cells.\<close>

definition same_outside :: "nat \<Rightarrow> shm \<Rightarrow> shm \<Rightarrow> bool" where
  "same_outside i s s' \<longleftrightarrow> (\<forall>x. \<not> in_segment i x \<longrightarrow> cell s' x = cell s x \<and> page s' x = page s x) \<and>
     tls s' = tls s \<and> era_tab s' = era_tab s"

lemma same_outside_trans: "same_outside i s s1 \<Longrightarrow> same_outside i s1 s2 \<Longrightarrow> same_outside i s s2"
  by (simp add: same_outside_def)

lemma in_segment_unique: "in_segment i x \<Longrightarrow> in_segment j x \<Longrightarrow> i = j"
  using cxl_ptr_segment_in[of i x] cxl_ptr_segment_in[of j x] seg_at_inject by (metis in_segment_lt)

lemma blocks_of_bound:
  assumes "i < MAX_SEGMENT_NUM" "k < PAGES_PER_SEGMENT" "16 \<le> unat (page_bs i k s)" "unat (page_bs i k s) \<le> 2 ^ 16"
    and b: "b \<in> set (blocks_of i k s)" and off: "off < unat (page_bs i k s)"
  shows "in_page i k (b + of_nat off)"
  by (rule block_in_page[OF b[unfolded blocks_of_def] page_first_last(1)[OF assms(1-4)] assms(1,2) off])

lemma page_used_cong:
  assumes i: "i < MAX_SEGMENT_NUM" "k < PAGES_PER_SEGMENT"
    and pg: "page s' (meta_at (seg_at i) k) = page s (meta_at (seg_at i) k)"
    and cell: "\<And>x. in_page i k x \<Longrightarrow> cell s' x = cell s x"
  shows "page_fit i k s' = page_fit i k s" "page_fit i k s \<Longrightarrow> page_used i k s' = page_used i k s"
proof -
  show "page_fit i k s' = page_fit i k s" by (simp add: page_fit_def page_bs_def pg)
  assume fit: "page_fit i k s"
  have bl: "blocks_of i k s' = blocks_of i k s" by (simp add: blocks_of_def page_bs_def pg)
  show "page_used i k s' = page_used i k s"
  proof (cases "pg_block_size (page s (meta_at (seg_at i) k)) = 0")
    case False
    then have bs: "16 \<le> unat (page_bs i k s)" "unat (page_bs i k s) \<le> 2 ^ 16" using fit by (auto simp: page_fit_def)
    have "obj_cnt b s' = obj_cnt b s" if "b \<in> set (blocks_of i k s)" for b
    proof -
      have "in_page i k (b + 8)" using blocks_of_bound[OF i bs that, of 8] bs by simp
      then show ?thesis using cell by (simp add: obj_cnt_def obj_info_def)
    qed
    moreover have "queue_used b s' = queue_used b s"
      if "b \<in> set (blocks_of i k s)" "pg_is_msg_queue (page s (meta_at (seg_at i) k))" for b
    proof -
      have "192 \<le> unat (page_bs i k s)" using fit False that(2) by (auto simp: page_fit_def)
      then have "in_page i k (b + 16)" using blocks_of_bound[OF i bs that(1), of 16] by simp
      then show ?thesis using cell by (simp add: queue_used_def mq_ids_def)
    qed
    ultimately show ?thesis unfolding page_used_def bl pg by auto
  qed (simp add: page_used_def pg)
qed

text \<open>One page: a page in use stops the sweep, an unused one is cleared; other pages are untouched.\<close>

definition page_swept :: "nat \<Rightarrow> nat \<Rightarrow> shm \<Rightarrow> shm \<Rightarrow> bool" where
  "page_swept i k s s' \<longleftrightarrow> (\<forall>x. \<not> in_page i k x \<longrightarrow> cell s' x = cell s x) \<and> page s' = page s \<and>
     segment s' = segment s \<and> sas s' = sas s \<and> tls s' = tls s \<and> era_tab s' = era_tab s"

lemma sweep_one_page:
  assumes i: "i < MAX_SEGMENT_NUM" "k < PAGES_PER_SEGMENT" and fit: "page_fit i k s"
    and used: "pg_block_size (page s (meta_at (seg_at i) k)) \<noteq> 0"
  shows "\<exists>s'. sweep_blocks (meta_at (seg_at i) k) (page_last (meta_at (seg_at i) k) s)
      (page_first (meta_at (seg_at i) k) s) s = Some (page_used i k s, s') \<and> page_swept i k s s' \<and>
    page_used i k s' = page_used i k s"
proof -
  let ?p = "meta_at (seg_at i) k" and ?a = "area_at (seg_at i) k" and ?bs = "page_bs i k s"
  have bs: "16 \<le> unat ?bs" "unat ?bs \<le> 2 ^ 16" using fit used by (auto simp: page_fit_def)
  note fl = page_first_last[OF i bs]
  have bs_eq: "ucast (pg_block_size (page s ?p)) = ?bs" by (simp add: page_bs_def)
  show ?thesis
  proof (cases "pg_is_msg_queue (page s ?p)")
    case True
    then have bs192: "192 \<le> unat ?bs" using fit used by (auto simp: page_fit_def)
    from sweep_blocks_queues[OF True bs_eq fl(1) bs192 le0] obtain s' where s': "sweep_blocks ?p (last_blk ?a ?bs) (blk ?a ?bs 0) s =
        Some (\<exists>m. 0 \<le> m \<and> m < block_cnt ?bs \<and> queue_used (blk ?a ?bs m) s, s')"
      "page s' = page s" "segment s' = segment s" "sas s' = sas s" "tls s' = tls s" "era_tab s' = era_tab s"
      "\<forall>x. unat x < unat (blk ?a ?bs 0) \<or> unat ?a + 2 ^ 16 \<le> unat x \<longrightarrow> cell s' x = cell s x"
      "\<forall>m. 0 \<le> m \<and> m < block_cnt ?bs \<longrightarrow> queue_used (blk ?a ?bs m) s' = queue_used (blk ?a ?bs m) s"
      by (elim exE conjE)
    have "(\<exists>m. 0 \<le> m \<and> m < block_cnt ?bs \<and> queue_used (blk ?a ?bs m) s) = page_used i k s"
      using True used by (auto simp: page_used_def blocks_of_def page_blocks_def)
    moreover have "page_swept i k s s'"
      using s'(2-7) i by (auto simp: page_swept_def in_page_def blk_def not_le)
    moreover have "page_used i k s' = page_used i k s"
    proof -
      have "blocks_of i k s' = blocks_of i k s" by (simp add: blocks_of_def page_bs_def s'(2))
      moreover have "queue_used b s' = queue_used b s" if "b \<in> set (blocks_of i k s)" for b
        using that s'(8) by (auto simp: blocks_of_def page_blocks_def)
      ultimately show ?thesis unfolding page_used_def s'(2) using True by simp
    qed
    ultimately show ?thesis using s'(1) fl(2,3) by auto
  next
    case False
    have "sweep_blocks ?p (last_blk ?a ?bs) (blk ?a ?bs 0) s = Some (page_used i k s, s)"
      using sweep_blocks_objects[OF False bs_eq fl(1), of 0] live_obj_spec[OF fl(1)] False used
      by (simp add: page_used_def blocks_of_def)
    then show ?thesis using fl(2,3) by (auto simp: page_swept_def)
  qed
qed

text \<open>The sweep leaves every page one it can walk, and a page in use one in use.\<close>

definition pages_kept :: "nat \<Rightarrow> shm \<Rightarrow> shm \<Rightarrow> bool" where
  "pages_kept i s s' \<longleftrightarrow> (\<forall>k < PAGES_PER_SEGMENT. page_fit i k s \<longrightarrow>
     page_fit i k s' \<and> (page_used i k s \<longrightarrow> page_used i k s'))"

lemma pages_kept_trans: "pages_kept i s s1 \<Longrightarrow> pages_kept i s1 s2 \<Longrightarrow> pages_kept i s s2"
  by (simp add: pages_kept_def)

lemma page_swept_kept:
  assumes i: "i < MAX_SEGMENT_NUM" and swept: "page_swept i j s s'" and same: "page_used i j s' = page_used i j s"
  shows "pages_kept i s s'"
  unfolding pages_kept_def
proof (intro allI impI)
  fix k assume k: "k < PAGES_PER_SEGMENT" and fit: "page_fit i k s"
  have pg: "page s' = page s" using swept by (simp add: page_swept_def)
  show "page_fit i k s' \<and> (page_used i k s \<longrightarrow> page_used i k s')"
  proof (cases "k = j")
    case True
    then show ?thesis using fit same by (simp add: page_fit_def page_bs_def pg)
  next
    case False
    then have "cell s' x = cell s x" if "in_page i k x" for x
      using in_page_unique[OF that, of i j] swept by (auto simp: page_swept_def)
    then show ?thesis using page_used_cong[OF i k] pg fit by metis
  qed
qed

text \<open>Clearing the descriptor of a page that is not in use.\<close>

lemma clear_page_kept:
  assumes i: "i < MAX_SEGMENT_NUM" and j: "j < PAGES_PER_SEGMENT" and dead: "\<not> page_used i j s"
  shows "pages_kept i s (upd_page (meta_at (seg_at i) j) (\<lambda>_. zero_page) s)"
  unfolding pages_kept_def
proof (intro allI impI)
  fix k assume k: "k < PAGES_PER_SEGMENT" and fit: "page_fit i k s"
  let ?s = "upd_page (meta_at (seg_at i) j) (\<lambda>_. zero_page) s"
  show "page_fit i k ?s \<and> (page_used i k s \<longrightarrow> page_used i k ?s)"
  proof (cases "k = j")
    case True
    then show ?thesis using dead by (simp add: page_fit_def state_simps zero_page_def)
  next
    case False
    then have "page ?s (meta_at (seg_at i) k) = page s (meta_at (seg_at i) k)"
      using i j k by (simp add: state_simps)
    then show ?thesis using page_used_cong[OF i k, of ?s s] fit by (simp add: state_simps)
  qed
qed

lemma sweep_pages_spec:
  assumes i: "i < MAX_SEGMENT_NUM" and "j + n \<le> PAGES_PER_SEGMENT"
    and "\<forall>k. j \<le> k \<and> k < j + n \<longrightarrow> page_fit i k s"
  shows "\<exists>s'. sweep_pages (seg_at i) j n s = Some (\<exists>k. j \<le> k \<and> k < j + n \<and> page_used i k s, s') \<and>
    same_outside i s s' \<and> segment s' = segment s \<and> sas s' = sas s \<and> pages_kept i s s'"
  using assms(2,3)
proof (induction n arbitrary: j s)
  case 0
  then show ?case by (auto simp: same_outside_def pages_kept_def)
next
  case (Suc n)
  let ?p = "meta_at (seg_at i) j"
  have j: "j < PAGES_PER_SEGMENT" and fit: "page_fit i j s" using Suc.prems by auto
  have some: "(\<exists>k. j \<le> k \<and> k < j + Suc n \<and> page_used i k s) \<longleftrightarrow>
      page_used i j s \<or> (\<exists>k. Suc j \<le> k \<and> k < Suc j + n \<and> page_used i k s)"
    by (metis Suc_leD Suc_leI add_Suc add_Suc_right le_add1 le_eq_less_or_eq le_imp_less_Suc)
  show ?case
  proof (cases "pg_block_size (page s ?p) = 0")
    case True
    then have "\<not> page_used i j s" by (simp add: page_used_def)
    then show ?thesis using Suc.IH[of "Suc j" s] Suc.prems some True by (simp add: Let_def)
  next
    case False
    obtain s1 where s1: "sweep_blocks ?p (page_last ?p s) (page_first ?p s) s = Some (page_used i j s, s1)"
      "page_swept i j s s1" "page_used i j s1 = page_used i j s" using sweep_one_page[OF i j fit False] by blast
    note kept = page_swept_kept[OF i s1(2,3)]
    have out: "same_outside i s s1"
      using s1(2) in_page_segment by (auto simp: same_outside_def page_swept_def)
    show ?thesis
    proof (cases "page_used i j s")
      case True
      then show ?thesis using s1 False out some kept by (simp add: Let_def page_swept_def)
    next
      case dead: False
      let ?s = "upd_page ?p (\<lambda>_. zero_page) s1"
      have keep: "page_fit i k ?s = page_fit i k s \<and> (page_fit i k s \<longrightarrow> page_used i k ?s = page_used i k s)"
        if "Suc j \<le> k" "k < Suc j + n" for k
      proof -
        have k: "k < PAGES_PER_SEGMENT" using that Suc.prems(1) by simp
        have "page ?s (meta_at (seg_at i) k) = page s (meta_at (seg_at i) k)"
          using s1(2) i j k that(1) by (simp add: state_simps page_swept_def)
        moreover have "cell ?s x = cell s x" if "in_page i k x" for x
          using s1(2) in_page_unique[OF that, of i j] \<open>Suc j \<le> k\<close> by (auto simp: page_swept_def state_simps)
        ultimately show ?thesis using page_used_cong[OF i k] by blast
      qed
      have fits: "\<forall>k. Suc j \<le> k \<and> k < Suc j + n \<longrightarrow> page_fit i k ?s" using keep Suc.prems(2) by auto
      have "Suc j + n \<le> PAGES_PER_SEGMENT" using Suc.prems(1) by simp
      from Suc.IH[OF this fits] obtain s' where s': "sweep_pages (seg_at i) (Suc j) n ?s =
          Some (\<exists>k. Suc j \<le> k \<and> k < Suc j + n \<and> page_used i k ?s, s')"
        "same_outside i ?s s'" "segment s' = segment ?s" "sas s' = sas ?s" "pages_kept i ?s s'" by blast
      have "pages_kept i s s'"
        using pages_kept_trans[OF pages_kept_trans[OF kept clear_page_kept[OF i j]] s'(5)] dead s1(3) by simp
      have "(\<exists>k. Suc j \<le> k \<and> k < Suc j + n \<and> page_used i k ?s) = (\<exists>k. j \<le> k \<and> k < j + Suc n \<and> page_used i k s)"
        using keep Suc.prems(2) some dead by auto
      moreover have "same_outside i s1 ?s"
        using in_segment_meta[OF i j] by (auto simp: same_outside_def state_simps)
      moreover note \<open>pages_kept i s s'\<close>
      ultimately show ?thesis
        using s' s1 False dead same_outside_trans[OF same_outside_trans[OF out]]
        by (simp add: Let_def state_simps page_swept_def)
    qed
  qed
qed

section \<open>Segments\<close>

definition segment_fit :: "nat \<Rightarrow> shm \<Rightarrow> bool" where
  "segment_fit i s \<longleftrightarrow> (\<forall>k < PAGES_PER_SEGMENT. page_fit i k s)"

definition segment_used :: "nat \<Rightarrow> shm \<Rightarrow> bool" where
  "segment_used i s \<longleftrightarrow> (\<exists>k < PAGES_PER_SEGMENT. page_used i k s)"

definition released_sas :: "cxl_sas \<Rightarrow> cxl_sas" where
  "released_sas x = x\<lparr>sas_state := NORMAL, sas_thread_free := 0, sas_thread_id := 0\<rparr>"

lemma clear_segment_outside:
  assumes "i < MAX_SEGMENT_NUM"
  shows "same_outside i s (clear_segment (seg_at i) s)"
  using assms in_segment_meta[OF assms]
  by (auto simp: same_outside_def state_simps)

lemma pages_kept_segment:
  "pages_kept i s s' \<Longrightarrow> segment_fit i s \<Longrightarrow> segment_fit i s' \<and> (segment_used i s \<longrightarrow> segment_used i s')"
  by (auto simp: pages_kept_def segment_fit_def segment_used_def)

lemma sweep_segment_spec:
  assumes i: "i < MAX_SEGMENT_NUM" and fit: "segment_fit i s"
  shows "\<exists>s'. sweep_segment i s = Some s' \<and> same_outside i s s' \<and>
    sas s' = (if sas_thread_id (sas s (of_nat i)) \<noteq> 0 \<and> \<not> segment_used i s
      then (sas s)(of_nat i := released_sas (sas s (of_nat i))) else sas s) \<and>
    segment_fit i s' \<and> (segment_used i s \<longrightarrow> segment_used i s')"
proof (cases "sas_thread_id (sas s (of_nat i)) = 0")
  case True
  then show ?thesis using fit by (simp add: sweep_segment_def same_outside_def)
next
  case False
  obtain s1 where s1: "sweep_pages (seg_at i) 0 PAGES_PER_SEGMENT s = Some (segment_used i s, s1)"
    "same_outside i s s1" "sas s1 = sas s" "pages_kept i s s1"
    using sweep_pages_spec[OF i, of 0 PAGES_PER_SEGMENT s] fit by (auto simp: segment_fit_def segment_used_def)
  show ?thesis
  proof (cases "segment_used i s")
    case True
    then show ?thesis using s1 False pages_kept_segment[OF s1(4) fit] by (simp add: sweep_segment_def)
  next
    case dead: False
    have "same_outside i s1 (clear_segment (seg_at i) s1)" by (rule clear_segment_outside[OF i])
    then have "same_outside i s (clear_segment (seg_at i) s1)" by (rule same_outside_trans[OF s1(2)])
    moreover have "segment_fit i (clear_segment (seg_at i) s1)"
      by (auto simp: segment_fit_def page_fit_def state_simps zero_page_def)
    ultimately show ?thesis
      using s1 False dead
      by (simp add: sweep_segment_def Let_def state_simps released_sas_def same_outside_def segment_fit_def
          page_fit_def page_bs_def)
  qed
qed

text \<open>Sweeping one segment does not change what the sweep of another one sees.\<close>

lemma segment_used_other:
  assumes "i < MAX_SEGMENT_NUM" "j < MAX_SEGMENT_NUM" "i \<noteq> j" "same_outside i s s'"
  shows "segment_fit j s' = segment_fit j s" "segment_fit j s \<Longrightarrow> segment_used j s' = segment_used j s"
proof -
  have "page_fit j k s' = page_fit j k s \<and> (page_fit j k s \<longrightarrow> page_used j k s' = page_used j k s)"
    if k: "k < PAGES_PER_SEGMENT" for k
  proof -
    have "\<not> in_segment i (meta_at (seg_at j) k)"
      using in_segment_unique[OF _ in_segment_meta[OF assms(2) k]] assms(3) by blast
    then have pg: "page s' (meta_at (seg_at j) k) = page s (meta_at (seg_at j) k)"
      using assms(4) by (simp add: same_outside_def)
    have cells: "cell s' x = cell s x" if "in_page j k x" for x
    proof -
      have "\<not> in_segment i x" using in_segment_unique[OF _ in_page_segment[OF that]] assms(3) by blast
      then show ?thesis using assms(4) by (simp add: same_outside_def)
    qed
    show ?thesis using page_used_cong[OF assms(2) k pg cells] by blast
  qed
  note pages = this
  show fits: "segment_fit j s' = segment_fit j s"
    unfolding segment_fit_def using pages by blast
  assume "segment_fit j s"
  then show "segment_used j s' = segment_used j s"
    unfolding segment_fit_def segment_used_def using pages by blast
qed

lemma of_nat_segment_inject:
  "i < MAX_SEGMENT_NUM \<Longrightarrow> j < MAX_SEGMENT_NUM \<Longrightarrow> (of_nat i :: u64) = of_nat j \<longleftrightarrow> i = j"
  by (simp add: word_unat_eq_iff unat_of_nat layout_simps)

lemma sweep_all_segments:
  assumes "\<forall>i < MAX_SEGMENT_NUM. segment_fit i s"
  shows "\<exists>s'. for_range sweep_segment 0 MAX_SEGMENT_NUM s = Some s' \<and> tls s' = tls s \<and> era_tab s' = era_tab s \<and>
    (\<forall>i < MAX_SEGMENT_NUM. sas s' (of_nat i) =
      (if sas_thread_id (sas s (of_nat i)) \<noteq> 0 \<and> \<not> segment_used i s
       then released_sas (sas s (of_nat i)) else sas s (of_nat i))) \<and>
    (\<forall>i < MAX_SEGMENT_NUM. segment_fit i s' \<and> (segment_used i s \<longrightarrow> segment_used i s'))"
proof -
  define P where "P n s' \<longleftrightarrow> tls s' = tls s \<and> era_tab s' = era_tab s \<and>
     (\<forall>i < MAX_SEGMENT_NUM. sas s' (of_nat i) =
        (if i < n \<and> sas_thread_id (sas s (of_nat i)) \<noteq> 0 \<and> \<not> segment_used i s
         then released_sas (sas s (of_nat i)) else sas s (of_nat i))) \<and>
     (\<forall>i < MAX_SEGMENT_NUM. segment_fit i s' \<and> (segment_used i s \<longrightarrow> segment_used i s') \<and>
        (n \<le> i \<longrightarrow> segment_used i s' = segment_used i s))" for n s'
  have "\<exists>s'. for_range sweep_segment 0 MAX_SEGMENT_NUM s = Some s' \<and> P (0 + MAX_SEGMENT_NUM) s'"
  proof (rule for_range_rule)
    fix n s1 assume n: "0 \<le> n" "n < 0 + MAX_SEGMENT_NUM" and P: "P n s1"
    have n': "n < MAX_SEGMENT_NUM" using n by simp
    have fit: "segment_fit n s1" "segment_used n s1 = segment_used n s" "sas s1 (of_nat n) = sas s (of_nat n)"
      using P n' by (auto simp: P_def)
    obtain s2 where s2: "sweep_segment n s1 = Some s2" "same_outside n s1 s2"
      "sas s2 = (if sas_thread_id (sas s1 (of_nat n)) \<noteq> 0 \<and> \<not> segment_used n s1
        then (sas s1)(of_nat n := released_sas (sas s1 (of_nat n))) else sas s1)"
      "segment_fit n s2" "segment_used n s1 \<longrightarrow> segment_used n s2"
      using sweep_segment_spec[OF n' fit(1)] by blast
    have "segment_fit i s2 \<and> (segment_used i s \<longrightarrow> segment_used i s2) \<and>
        (Suc n \<le> i \<longrightarrow> segment_used i s2 = segment_used i s)" if "i < MAX_SEGMENT_NUM" for i
    proof (cases "i = n")
      case True
      then show ?thesis using s2(4,5) fit(2) by simp
    next
      case False
      then show ?thesis using segment_used_other[OF n' that _ s2(2)] P that by (simp add: P_def)
    qed
    moreover have "sas s2 (of_nat i) =
        (if i < Suc n \<and> sas_thread_id (sas s (of_nat i)) \<noteq> 0 \<and> \<not> segment_used i s
         then released_sas (sas s (of_nat i)) else sas s (of_nat i))" if i: "i < MAX_SEGMENT_NUM" for i
      using P i s2(3) fit of_nat_segment_inject[OF i n'] by (cases "i = n") (auto simp: P_def)
    ultimately have "P (Suc n) s2" using P s2(2) by (simp add: P_def same_outside_def)
    then show "\<exists>s'. sweep_segment n s1 = Some s' \<and> P (Suc n) s'" using s2(1) by blast
  qed (use assms in \<open>simp add: P_def\<close>)
  then show ?thesis by (auto simp: P_def)
qed

section \<open>The monitor\<close>

text \<open>With no thread registered, the first half of the loop does nothing.\<close>

definition no_thread :: "shm \<Rightarrow> bool" where
  "no_thread s \<longleftrightarrow> (\<forall>n < MAX_THREAD. tls_packed_id (tls s (tls_at n)) = 0)"

lemma recover_idle:
  assumes "no_thread s"
  shows "for_range recover_thread 0 MAX_THREAD s = Some s"
proof -
  have "\<exists>s'. for_range recover_thread 0 MAX_THREAD s = Some s' \<and> s' = s"
    by (rule for_range_rule[where P = "\<lambda>_ s'. s' = s"])
       (use assms in \<open>auto simp: recover_thread_def check_tls_def no_thread_def tls_at_def Let_def\<close>)
  then show ?thesis by blast
qed

lemma check_recovery_iff:
  "check_recovery s \<longleftrightarrow> no_thread s \<and> (\<forall>i < MAX_SEGMENT_NUM. sas_thread_id (sas s (of_nat i)) = 0)"
  by (auto simp: check_recovery_def no_thread_def tls_at_def list_all_iff)

text \<open>A round with no thread registered takes no segment that is in use, however often it is repeated.\<close>

definition idle_system :: "shm \<Rightarrow> bool" where
  "idle_system s \<longleftrightarrow> no_thread s \<and> (\<forall>i < MAX_SEGMENT_NUM. segment_fit i s)"

lemma idle_round:
  assumes "idle_system s"
  shows "\<exists>s'. single_recovery_loop s = Some s' \<and> idle_system s' \<and>
    (\<forall>i < MAX_SEGMENT_NUM. segment_used i s \<longrightarrow> segment_used i s' \<and> sas s' (of_nat i) = sas s (of_nat i))"
proof -
  have idle: "no_thread s" "\<forall>i < MAX_SEGMENT_NUM. segment_fit i s" using assms by (simp_all add: idle_system_def)
  obtain s' where s': "for_range sweep_segment 0 MAX_SEGMENT_NUM s = Some s'" "tls s' = tls s"
    "\<forall>i < MAX_SEGMENT_NUM. sas s' (of_nat i) =
      (if sas_thread_id (sas s (of_nat i)) \<noteq> 0 \<and> \<not> segment_used i s
       then released_sas (sas s (of_nat i)) else sas s (of_nat i))"
    "\<forall>i < MAX_SEGMENT_NUM. segment_fit i s' \<and> (segment_used i s \<longrightarrow> segment_used i s')"
    using sweep_all_segments[OF idle(2)] by blast
  then show ?thesis
    using idle(1) recover_idle[OF idle(1)] by (simp add: single_recovery_loop_def idle_system_def no_thread_def)
qed

lemma used_segment_stays:
  assumes "idle_system s"
  shows "\<exists>s'. recovery_loop n s = Some s' \<and> idle_system s' \<and>
    (\<forall>i < MAX_SEGMENT_NUM. segment_used i s \<longrightarrow> segment_used i s' \<and> sas s' (of_nat i) = sas s (of_nat i))"
  using assms
proof (induction n arbitrary: s)
  case (Suc n)
  obtain s1 where s1: "single_recovery_loop s = Some s1" "idle_system s1"
    "\<forall>i < MAX_SEGMENT_NUM. segment_used i s \<longrightarrow> segment_used i s1 \<and> sas s1 (of_nat i) = sas s (of_nat i)"
    using idle_round[OF Suc.prems] by blast
  obtain s2 where s2: "recovery_loop n s1 = Some s2" "idle_system s2"
    "\<forall>i < MAX_SEGMENT_NUM. segment_used i s1 \<longrightarrow> segment_used i s2 \<and> sas s2 (of_nat i) = sas s1 (of_nat i)"
    using Suc.IH[OF s1(2)] by blast
  have "segment_used i s2 \<and> sas s2 (of_nat i) = sas s (of_nat i)" if "i < MAX_SEGMENT_NUM" "segment_used i s" for i
    using s1(3) s2(3) that by metis
  then show ?case using s1(1) s2(1,2) by simp
qed simp

text \<open>
  C15: One round of the monitor while no thread is registered returns and frees exactly the claimed
  segments in which nothing is in use; the others keep their owner. \<open>check_recovery\<close> reports success
  afterwards exactly when nothing in a claimed segment was in use.
\<close>

lemma monitor_round:
  assumes "no_thread s" "\<forall>i < MAX_SEGMENT_NUM. segment_fit i s"
  shows "\<exists>s'. single_recovery_loop s = Some s' \<and> no_thread s' \<and>
    (\<forall>i < MAX_SEGMENT_NUM. sas_thread_id (sas s' (of_nat i)) =
       (if segment_used i s then sas_thread_id (sas s (of_nat i)) else 0)) \<and>
    (check_recovery s' \<longleftrightarrow>
       (\<forall>i < MAX_SEGMENT_NUM. sas_thread_id (sas s (of_nat i)) \<noteq> 0 \<longrightarrow> \<not> segment_used i s))"
proof -
  obtain s' where s': "for_range sweep_segment 0 MAX_SEGMENT_NUM s = Some s'" "tls s' = tls s"
    "\<forall>i < MAX_SEGMENT_NUM. sas s' (of_nat i) =
      (if sas_thread_id (sas s (of_nat i)) \<noteq> 0 \<and> \<not> segment_used i s
       then released_sas (sas s (of_nat i)) else sas s (of_nat i))"
    using sweep_all_segments[OF assms(2)] by blast
  have ids: "sas_thread_id (sas s' (of_nat i)) = (if segment_used i s then sas_thread_id (sas s (of_nat i)) else 0)"
    if "i < MAX_SEGMENT_NUM" for i
    using s'(3) that by (auto simp: released_sas_def)
  have "no_thread s'" using assms(1) s'(2) by (simp add: no_thread_def)
  moreover have "check_recovery s' \<longleftrightarrow>
      (\<forall>i < MAX_SEGMENT_NUM. sas_thread_id (sas s (of_nat i)) \<noteq> 0 \<longrightarrow> \<not> segment_used i s)"
    using ids \<open>no_thread s'\<close> by (auto simp: check_recovery_iff)
  ultimately show ?thesis
    using s'(1) ids recover_idle[OF assms(1)] by (simp add: single_recovery_loop_def)
qed

end
