(* ===== verification/Dead_Thread.thy ===== *)
theory Dead_Thread
  imports Sweep Msg_Transfer
begin

text \<open>
  What the monitor does for one dead thread. Releasing a reference on its behalf gives up one count;
  the walk over a queue it received from visits the pending slots and no others; its pages without a
  counted object are cleared and its segments given back, unless a page of theirs holds an object that
  others still refer to. The lemmas on loops state that they return.
\<close>

section \<open>Releasing one reference\<close>

abbreviation tid_of :: "u64 \<Rightarrow> int" where "tid_of offset \<equiv> uint (tls_id_of offset)"

definition dead_word :: "u64 \<Rightarrow> u64 \<Rightarrow> shm \<Rightarrow> u64" where
  "dead_word offset b s = commit_word (dead_client offset) (get_ref_cnt_from_info (cell s (obj_info b)) - 1)
     (own_era (dead_client offset) s)"

lemma recovery_test_free_null: "cell s ref = 0 \<Longrightarrow> recovery_test_free offset ref s = Some s"
  unfolding recovery_test_free_def by (subst recovery_test_free_at.simps) (simp add: Let_def)

text \<open>An object whose count was already given up is left alone.\<close>

lemma recovery_test_free_zero: "obj_cnt (cell s ref) s = 0 \<Longrightarrow> recovery_test_free offset ref s = Some s"
  unfolding recovery_test_free_def
  by (subst recovery_test_free_at.simps) (simp add: Let_def obj_cnt_def unat_eq_0)

lemma recovery_test_free_shared:
  assumes "cell s ref \<noteq> 0" "1 < obj_cnt (cell s ref) s"
  shows "recovery_test_free offset ref s = Some (recovery_unlink_reference ref (cell s ref) offset s)"
proof -
  have "get_ref_cnt_from_info (cell s (obj_info (cell s ref))) \<noteq> 0"
    "get_ref_cnt_from_info (cell s (obj_info (cell s ref))) - 1 > 0"
    using assms(2) cnt_gt_one[of "cell s ref" s] by (auto simp: obj_cnt_def)
  then show ?thesis
    unfolding recovery_test_free_def
    by (subst recovery_test_free_at.simps) (simp add: Let_def assms(1))
qed

lemma recovery_unlink_shared:
  assumes "1 < obj_cnt b s"
  shows "cell (recovery_unlink_reference ref b offset s) = (cell s)(obj_info b := dead_word offset b s, ref := 0)"
    "page (recovery_unlink_reference ref b offset s) = page s"
    "segment (recovery_unlink_reference ref b offset s) = segment s"
    "sas (recovery_unlink_reference ref b offset s) = sas s"
    "tls (recovery_unlink_reference ref b offset s) = tls s"
proof -
  have "get_ref_cnt_from_info (cell s (obj_info b)) - 1 > 0" using assms cnt_gt_one[of b s] by simp
  then show "cell (recovery_unlink_reference ref b offset s) = (cell s)(obj_info b := dead_word offset b s, ref := 0)"
    "page (recovery_unlink_reference ref b offset s) = page s"
    "segment (recovery_unlink_reference ref b offset s) = segment s"
    "sas (recovery_unlink_reference ref b offset s) = sas s"
    "tls (recovery_unlink_reference ref b offset s) = tls s"
    by (simp_all add: recovery_unlink_reference_def Let_def state_simps ucast_ref_info_cnt dead_word_def
        commit_word_def dead_client_def)
qed

lemma dead_word_cnt:
  assumes "valid_id (tid_of offset)" "0 < obj_cnt b s"
  shows "unat (get_ref_cnt_from_info (dead_word offset b s)) = obj_cnt b s - 1"
proof -
  let ?n = "get_ref_cnt_from_info (cell s (obj_info b))"
  have n: "unat (?n - 1) = obj_cnt b s - 1" using assms(2) by (simp add: unat_dec obj_cnt_def)
  then have "unat (?n - 1) < 2 ^ 16" using obj_cnt_bound[of b s] by linarith
  then show ?thesis
    using commit_word_fields(1)[of "dead_client offset" "?n - 1"] assms(1) n
    by (simp add: dead_word_def dead_client_def)
qed

section \<open>A received queue\<close>

text \<open>
  \<open>after_drain q idx s s'\<close>: the slots \<open>idx\<close> of \<open>q\<close> are empty and the references that were in them are
  no longer counted; the other cells of the queue and everything outside cells and eras are as before.
\<close>

definition slot_refs :: "u64 \<Rightarrow> nat list \<Rightarrow> shm \<Rightarrow> u64 list" where
  "slot_refs q idx s = map (\<lambda>i. cell s (mq_slot q (of_nat i))) idx"

definition drained :: "u64 \<Rightarrow> nat list \<Rightarrow> shm \<Rightarrow> shm \<Rightarrow> bool" where
  "drained q idx s s' \<longleftrightarrow>
     (\<forall>i \<in> set idx. cell s' (mq_slot q (of_nat i)) = 0) \<and>
     (\<forall>x \<in> mq_cells q. x \<notin> (\<lambda>i. mq_slot q (of_nat i)) ` set idx \<longrightarrow> cell s' x = cell s x) \<and>
     (\<forall>b. obj_info b \<notin> mq_cells q \<longrightarrow> obj_cnt b s' + count_list (slot_refs q idx s) b = obj_cnt b s) \<and>
     page s' = page s \<and> segment s' = segment s \<and> sas s' = sas s \<and> tls s' = tls s"

text \<open>The references of the slots are counted at least once more elsewhere, and lie outside the queue.\<close>

definition slots_shared :: "u64 \<Rightarrow> nat list \<Rightarrow> shm \<Rightarrow> bool" where
  "slots_shared q idx s \<longleftrightarrow> distinct idx \<and> (\<forall>i \<in> set idx. i < 16) \<and>
     (\<forall>b \<in> set (slot_refs q idx s). b \<noteq> 0 \<and> obj_info b \<notin> mq_cells q \<and>
        count_list (slot_refs q idx s) b < obj_cnt b s)"

text \<open>The indices from \<open>h\<close> on to \<open>t\<close>, around the ring.\<close>

definition ring_idx_list :: "nat \<Rightarrow> nat \<Rightarrow> nat list" where
  "ring_idx_list h t = ring_list 16 h t (\<lambda>i. i)"

lemma slot_refs_pending:
  "unat (cell s (mq_start q)) = h \<Longrightarrow> unat (cell s (mq_end q)) = t \<Longrightarrow> slot_refs q (ring_idx_list h t) s = mq_pending q s"
  by (simp add: slot_refs_def ring_idx_list_def mq_pending_def ring_list_def)

lemma obj_info_inj: "obj_info a = obj_info b \<longleftrightarrow> a = b"
  by (simp add: obj_info_def)

lemma drain_one:
  assumes id: "valid_id (tid_of offset)" and sh: "slots_shared q (i # idx) s"
  shows "\<exists>s1. free_slot (recovery_test_free offset) q (of_nat i) s = Some s1 \<and> drained q [i] s s1 \<and>
    slots_shared q idx s1 \<and> slot_refs q idx s1 = slot_refs q idx s"
proof -
  let ?slot = "mq_slot q (of_nat i)"
  let ?b = "cell s ?slot"
  let ?s = "recovery_unlink_reference ?slot ?b offset s"
  have cons: "slot_refs q (i # idx) s = ?b # slot_refs q idx s" by (simp add: slot_refs_def)
  have i: "i < 16" "i \<notin> set idx" "distinct idx" and idx: "\<forall>j \<in> set idx. j < 16"
    using sh by (auto simp: slots_shared_def)
  have b: "?b \<noteq> 0" "obj_info ?b \<notin> mq_cells q" and cnt: "count_list (slot_refs q (i # idx) s) ?b < obj_cnt ?b s"
    using sh by (simp_all add: slots_shared_def slot_refs_def)
  then have two: "1 < obj_cnt ?b s" by (simp add: slot_refs_def)
  have run: "free_slot (recovery_test_free offset) q (of_nat i) s = Some ?s"
    using b(1) recovery_test_free_shared[OF b(1) two] by (simp add: free_slot_def)
  note u = recovery_unlink_shared[OF two, of ?slot offset]
  have mem: "?slot \<in> mq_cells q" by (rule mq_cells_mem(5)[OF i(1)])
  have cnts: "obj_cnt x ?s = (if x = ?b then obj_cnt x s - 1 else obj_cnt x s)" if "obj_info x \<notin> mq_cells q" for x
  proof -
    have "obj_info x \<noteq> ?slot" using that mem by metis
    then show ?thesis
      using dead_word_cnt[OF id, of ?b s] two
      unfolding obj_cnt_def u(1) by (auto simp: obj_info_inj)
  qed
  have other: "cell ?s x = cell s x" if "x \<in> mq_cells q" "x \<noteq> ?slot" for x
    using that b(2) unfolding u(1) by auto
  have "drained q [i] s ?s"
    using two cnts other u by (auto simp: drained_def slot_refs_def)
  moreover have refs: "slot_refs q idx ?s = slot_refs q idx s"
  proof -
    have "cell ?s (mq_slot q (of_nat j)) = cell s (mq_slot q (of_nat j))" if "j \<in> set idx" for j
    proof -
      have j: "j < 16" "j \<noteq> i" using that i(2) idx by auto
      then have "mq_slot q (of_nat j) \<noteq> ?slot" using mq_distinct(12)[OF j(1) i(1), of q] by simp
      then show ?thesis by (rule other[OF mq_cells_mem(5)[OF j(1)]])
    qed
    then show ?thesis by (simp add: slot_refs_def)
  qed
  moreover have "slots_shared q idx ?s"
    unfolding slots_shared_def refs
  proof (intro conjI ballI)
    fix x assume x: "x \<in> set (slot_refs q idx s)"
    then have x': "x \<noteq> 0" "obj_info x \<notin> mq_cells q" "count_list (slot_refs q (i # idx) s) x < obj_cnt x s"
      using sh unfolding slots_shared_def cons by auto
    then show "x \<noteq> 0" "obj_info x \<notin> mq_cells q" by simp_all
    show "count_list (slot_refs q idx s) x < obj_cnt x ?s"
      using x'(3) cnts[OF x'(2)] unfolding cons by (auto split: if_splits)
  qed (use i idx in auto)
  ultimately show ?thesis using run by blast
qed

lemma drained_trans:
  assumes "drained q [i] s s1" "drained q idx s1 s2" "slot_refs q idx s1 = slot_refs q idx s"
    and idx: "i < 16" "i \<notin> set idx" "\<forall>j \<in> set idx. j < 16"
  shows "drained q (i # idx) s s2"
proof -
  have ne: "mq_slot q (of_nat i) \<notin> (\<lambda>j. mq_slot q (of_nat j)) ` set idx"
    using idx mq_distinct(12)[OF idx(1)] by auto
  have "cell s2 (mq_slot q (of_nat i)) = 0"
    using assms(1,2) ne mq_cells_mem(5)[OF idx(1), of q] by (simp add: drained_def)
  moreover have "obj_cnt b s2 + count_list (slot_refs q (i # idx) s) b = obj_cnt b s" if "obj_info b \<notin> mq_cells q" for b
  proof -
    have "obj_cnt b s2 + count_list (slot_refs q idx s) b = obj_cnt b s1"
      "obj_cnt b s1 + count_list (slot_refs q [i] s) b = obj_cnt b s"
      using assms(1,2) that by (simp_all add: drained_def assms(3))
    then show ?thesis by (simp add: slot_refs_def split: if_splits)
  qed
  ultimately show ?thesis using assms(1,2) by (simp add: drained_def)
qed

lemma drained_nil: "drained q [] s s"
  by (simp add: drained_def slot_refs_def)

lemma ring_idx_list_step:
  assumes "h < 16" "t < 16"
  shows "ring_idx_list h t = (if h = t then [] else h # ring_idx_list ((h + 1) mod 16) t)"
proof (cases "h = t")
  case False
  then show ?thesis
    using ring_take[OF assms, of "\<lambda>i. i" h] by (simp add: ring_idx_list_def fun_upd_idem)
qed (simp add: ring_idx_list_def ring_list_def ring_len_def)

lemma ring_idx_list_bounds:
  "h < 16 \<Longrightarrow> t < 16 \<Longrightarrow> i \<in> set (ring_idx_list h t) \<Longrightarrow> i < 16"
  by (auto simp: ring_idx_list_def ring_list_def)

lemma unat_of_nat16: "h < 16 \<Longrightarrow> unat (of_nat h :: u64) = h"
  by (simp add: unat_of_nat)

lemma drain_slots_visit:
  assumes id: "valid_id (tid_of offset)" and h: "h < 16" "t < 16"
    and fld: "fld \<in> {mq_start q, mq_end q}" "cell s fld = of_nat t"
    and sh: "slots_shared q (ring_idx_list h t) s"
  shows "\<exists>s'. drain_slots (recovery_test_free offset) q fld (of_nat h) s = Some s' \<and>
    drained q (ring_idx_list h t) s s'"
  using h fld(2) sh
proof (induction "ring_len 16 h t" arbitrary: h s)
  case 0
  then have "h = t" by (auto simp: ring_len_def split: if_splits)
  then show ?case
    using 0 drained_nil by (subst drain_slots.simps) (simp add: ring_idx_list_step)
next
  case (Suc n)
  let ?h = "(h + 1) mod 16"
  have ne: "h \<noteq> t" using Suc.hyps(2) by (auto simp: ring_len_def)
  have list: "ring_idx_list h t = h # ring_idx_list ?h t" using ring_idx_list_step[OF Suc.prems(1,2)] ne by simp
  have len: "n = ring_len 16 ?h t"
    using Suc.hyps(2) Suc.prems(1,2) ne unfolding ring_succ[OF Suc.prems(1)] by (auto simp: ring_len_def)
  obtain s1 where s1: "free_slot (recovery_test_free offset) q (of_nat h) s = Some s1" "drained q [h] s s1"
    "slots_shared q (ring_idx_list ?h t) s1" "slot_refs q (ring_idx_list ?h t) s1 = slot_refs q (ring_idx_list ?h t) s"
    using drain_one[OF id Suc.prems(4)[unfolded list]] by blast
  have "fld \<in> mq_cells q" "fld \<noteq> mq_slot q (of_nat h)"
    using fld(1) mq_cells_mem(1,2)[of q] mq_distinct(8,9)[OF Suc.prems(1), of q] by auto
  then have "cell s1 fld = of_nat t" using s1(2) Suc.prems(3) by (simp add: drained_def)
  then obtain s' where s': "drain_slots (recovery_test_free offset) q fld (of_nat ?h) s1 = Some s'"
    "drained q (ring_idx_list ?h t) s1 s'"
    using Suc.hyps(1)[OF len _ Suc.prems(2) _ s1(3)] by auto
  have "(of_nat h :: u64) \<noteq> of_nat t"
    using ne unat_of_nat16[OF Suc.prems(1)] unat_of_nat16[OF Suc.prems(2)] by metis
  moreover have "((of_nat h :: u64) + 1) mod MESSAGE_BUFFER_SIZE = of_nat ?h"
    using unat_ring_succ[of "of_nat h"] unat_of_nat16[OF Suc.prems(1)] unat_of_nat16[of ?h] Suc.prems(1)
    by (simp add: word_unat_eq_iff)
  ultimately have "drain_slots (recovery_test_free offset) q fld (of_nat h) s = Some s'"
    using s1(1) s'(1) Suc.prems(3) by (subst drain_slots.simps) simp
  moreover have "drained q (ring_idx_list h t) s s'"
    unfolding list
    by (rule drained_trans[OF s1(2) s'(2) s1(4) Suc.prems(1)])
       (use Suc.prems(4) in \<open>auto simp: slots_shared_def list\<close>)
  ultimately show ?case by blast
qed

lemma mq_ids_not_slot: "\<forall>i \<in> set idx. i < 16 \<Longrightarrow> mq_ids q \<notin> (\<lambda>i. mq_slot q (of_nat i)) ` set idx"
proof
  assume idx: "\<forall>i \<in> set idx. i < 16" and "mq_ids q \<in> (\<lambda>i. mq_slot q (of_nat i)) ` set idx"
  then obtain i where "i \<in> set idx" "mq_ids q = mq_slot q (of_nat i)" by blast
  then show False using mq_distinct(10)[of i q] idx by simp
qed

text \<open>
  A queue that is the last of the receiver's list: drained, and its receiver gone.
\<close>

lemma receiver_queue_released:
  assumes id: "valid_id (tid_of offset)" and q: "q \<noteq> 0" "cell s (mq_receiver_next q) = 0" and ok: "mq_ok q s"
    and sh: "slots_shared q (ring_idx_list (unat (cell s (mq_start q))) (unat (cell s (mq_end q)))) s"
  shows "\<exists>s'. receiver_queues (recovery_test_free offset) q s = Some s' \<and>
    get_receiver_id (cell s' (mq_ids q)) = 0 \<and> get_sender_id (cell s' (mq_ids q)) = get_sender_id (cell s (mq_ids q)) \<and>
    (\<forall>b. obj_info b \<notin> mq_cells q \<longrightarrow> obj_cnt b s' + count_list (mq_pending q s) b = obj_cnt b s) \<and>
    (\<forall>i \<in> set (ring_idx_list (unat (cell s (mq_start q))) (unat (cell s (mq_end q)))). cell s' (mq_slot q (of_nat i)) = 0) \<and>
    page s' = page s \<and> segment s' = segment s \<and> sas s' = sas s \<and> tls s' = tls s"
proof -
  let ?h = "unat (cell s (mq_start q))" and ?t = "unat (cell s (mq_end q))"
  let ?idx = "ring_idx_list ?h ?t"
  have b: "?h < 16" "?t < 16" using ok by (simp_all add: mq_ok_def)
  obtain s1 where s1: "drain_slots (recovery_test_free offset) q (mq_end q) (of_nat ?h) s = Some s1" "drained q ?idx s s1"
    using drain_slots_visit[OF id b _ _ sh, of "mq_end q"] by auto
  let ?s = "set_cell (mq_ids q) (set_receiver_id 0 (cell s1 (mq_ids q))) s1"
  have idx: "\<forall>i \<in> set ?idx. i < 16" using ring_idx_list_bounds[OF b] by blast
  have "receiver_queues (recovery_test_free offset) 0 ?s = Some ?s" by (subst receiver_queues.simps) simp
  then have run: "receiver_queues (recovery_test_free offset) q s = Some ?s"
    using s1(1) q by (subst receiver_queues.simps) simp
  have ids: "cell s1 (mq_ids q) = cell s (mq_ids q)"
    using s1(2) mq_ids_not_slot[OF idx] mq_cells_mem(3) by (simp add: drained_def)
  have "obj_cnt b ?s + count_list (mq_pending q s) b = obj_cnt b s" if "obj_info b \<notin> mq_cells q" for b
  proof -
    have "obj_info b \<noteq> mq_ids q" using that mq_cells_mem(3) by metis
    then show ?thesis
      using s1(2) that slot_refs_pending[of s q ?h ?t] by (simp add: drained_def obj_cnt_def state_simps)
  qed
  moreover have "cell ?s (mq_slot q (of_nat i)) = 0" if "i \<in> set ?idx" for i
    using s1(2) that mq_distinct(10) idx by (simp add: drained_def state_simps)
  ultimately show ?thesis
    using run s1(2) ids by (intro exI[of _ ?s]) (simp add: drained_def state_simps)
qed

section \<open>The object pages\<close>

text \<open>
  \<open>held p s\<close>: a block of the page other than the head of its free list, which may be half-allocated,
  has a positive count. Pages are given by the number of their segment and their own.
\<close>

type_synonym page_no = "nat \<times> nat"

abbreviation desc :: "page_no \<Rightarrow> u64" where "desc p \<equiv> meta_at (seg_at (fst p)) (snd p)"

definition valid_page :: "page_no \<Rightarrow> bool" where
  "valid_page p \<longleftrightarrow> fst p < MAX_SEGMENT_NUM \<and> snd p < PAGES_PER_SEGMENT"

definition held :: "page_no \<Rightarrow> shm \<Rightarrow> bool" where
  "held p s \<longleftrightarrow> (\<exists>b \<in> set (blocks_of (fst p) (snd p) s). b \<noteq> pg_free (page s (desc p)) \<and> 0 < obj_cnt b s)"

definition obj_page_ok :: "page_no \<Rightarrow> shm \<Rightarrow> bool" where
  "obj_page_ok p s \<longleftrightarrow> valid_page p \<and> 16 \<le> unat (page_bs (fst p) (snd p) s) \<and>
     unat (page_bs (fst p) (snd p) s) \<le> 2 ^ 16 \<and>
     (pg_free (page s (desc p)) = 0 \<or> pg_free (page s (desc p)) \<in> set (blocks_of (fst p) (snd p) s))"

lemma desc_inject:
  "valid_page p \<Longrightarrow> valid_page p' \<Longrightarrow> desc p = desc p' \<longleftrightarrow> p = p'"
  using meta_at_segment_inject[of "fst p" "fst p'" "snd p" "snd p'"] by (auto simp: valid_page_def prod_eq_iff)

lemma desc_nonnull: "valid_page p \<Longrightarrow> desc p \<noteq> 0"
  by (simp add: valid_page_def)

lemma desc_index: "valid_page p \<Longrightarrow> segment_index (cxl_ptr_segment (desc p)) = of_nat (fst p)"
  by (simp add: valid_page_def cxl_ptr_segment_in[OF in_segment_meta] segment_index_seg_at)

lemma obj_info_block:
  assumes "obj_page_ok p s" "b \<in> set (blocks_of (fst p) (snd p) s)"
  shows "in_page (fst p) (snd p) (obj_info b)"
  using blocks_of_bound[of "fst p" "snd p" s b 8] assms by (simp add: obj_page_ok_def valid_page_def obj_info_def)

lemma block_nonnull:
  assumes "obj_page_ok p s" "b \<in> set (blocks_of (fst p) (snd p) s)"
  shows "b \<noteq> 0"
proof -
  have "in_page (fst p) (snd p) b"
    using blocks_of_bound[of "fst p" "snd p" s b 0] assms by (simp add: obj_page_ok_def valid_page_def)
  then show ?thesis by (auto simp: in_page_def unat_area_at unat_seg_at)
qed

text \<open>The state the loop examines a page in: the head of the free list has no count.\<close>

definition clear_head :: "u64 \<Rightarrow> shm \<Rightarrow> shm" where
  "clear_head pg s = (case get_block_by_offset (pg_free (page s pg)) of
     None \<Rightarrow> s | Some b \<Rightarrow> set_cell (obj_info b) 0 s)"

lemma clear_head_sel [state_simps]:
  "page (clear_head pg s) = page s" "segment (clear_head pg s) = segment s" "sas (clear_head pg s) = sas s"
  "tls (clear_head pg s) = tls s" "era_tab (clear_head pg s) = era_tab s"
  by (simp_all add: clear_head_def state_simps split: option.splits)

lemma live_after_clear:
  assumes ok: "obj_page_ok p s"
  shows "live_obj (page_bs (fst p) (snd p) s) (page_last (desc p) s) (page_first (desc p) s) (clear_head (desc p) s) =
    Some (held p s)"
proof -
  let ?s = "clear_head (desc p) s" and ?f = "pg_free (page s (desc p))"
  note fl = page_first_last[of "fst p" "snd p" s]
  have "live_obj (page_bs (fst p) (snd p) s) (page_last (desc p) s) (page_first (desc p) s) ?s =
      Some (\<exists>b \<in> set (blocks_of (fst p) (snd p) s). 0 < obj_cnt b ?s)"
    using ok fl live_obj_spec[OF fl(1)] by (simp add: obj_page_ok_def valid_page_def blocks_of_def)
  moreover have "0 < obj_cnt b ?s \<longleftrightarrow> b \<noteq> ?f \<and> 0 < obj_cnt b s" if "b \<in> set (blocks_of (fst p) (snd p) s)" for b
    using block_nonnull[OF ok that]
    by (auto simp: clear_head_def get_block_by_offset_def obj_cnt_def state_simps obj_info_inj get_ref_cnt_from_info_def)
  ultimately show ?thesis by (auto simp: held_def)
qed

text \<open>The effect on a list of pages: those not held are cleared, the segments of the others abandoned.\<close>

definition heads :: "page_no list \<Rightarrow> shm \<Rightarrow> u64 set" where
  "heads ps s = (\<lambda>p. pg_free (page s (desc p))) ` set ps"

definition pages_done :: "page_no list \<Rightarrow> shm \<Rightarrow> shm \<Rightarrow> bool" where
  "pages_done ps s s' \<longleftrightarrow>
     (\<forall>x. page s' x = (if \<exists>p \<in> set ps. x = desc p \<and> \<not> held p s then zero_page else page s x)) \<and>
     (\<forall>i. sas s' i = (if \<exists>p \<in> set ps. i = of_nat (fst p) \<and> held p s
        then (sas s i)\<lparr>sas_state := ABANDON\<rparr> else sas s i)) \<and>
     (\<forall>x. (\<forall>p \<in> set ps. \<not> in_page (fst p) (snd p) x) \<longrightarrow> cell s' x = cell s x) \<and>
     (\<forall>b. obj_cnt b s' \<in> {0, obj_cnt b s}) \<and> (\<forall>b. b \<notin> heads ps s \<longrightarrow> obj_cnt b s' = obj_cnt b s) \<and>
     segment s' = segment s \<and> tls s' = tls s \<and> era_tab s' = era_tab s"

lemma held_cong:
  assumes "page s' (desc p) = page s (desc p)" "obj_page_ok p s"
    "\<And>x. in_page (fst p) (snd p) x \<Longrightarrow> cell s' x = cell s x"
  shows "held p s' = held p s" "obj_page_ok p s'"
proof -
  have bl: "blocks_of (fst p) (snd p) s' = blocks_of (fst p) (snd p) s" "page_bs (fst p) (snd p) s' = page_bs (fst p) (snd p) s"
    by (simp_all add: blocks_of_def page_bs_def assms(1))
  show "obj_page_ok p s'" using assms(2) by (simp add: obj_page_ok_def bl assms(1))
  have "obj_cnt b s' = obj_cnt b s" if "b \<in> set (blocks_of (fst p) (snd p) s)" for b
    using assms(3)[OF obj_info_block[OF assms(2) that]] by (simp add: obj_cnt_def)
  then show "held p s' = held p s" by (simp add: held_def bl assms(1))
qed

lemma pages_done_keeps:
  assumes "pages_done ps s s1" "\<forall>p \<in> set ps. valid_page p" "q \<notin> set ps" "obj_page_ok q s"
  shows "page s1 (desc q) = page s (desc q)" "held q s1 = held q s" "obj_page_ok q s1"
proof -
  have q: "valid_page q" using assms(4) by (simp add: obj_page_ok_def)
  show pg: "page s1 (desc q) = page s (desc q)"
    using assms(1-3) desc_inject[OF q] by (auto simp: pages_done_def)
  have cells: "cell s1 x = cell s x" if x: "in_page (fst q) (snd q) x" for x
  proof -
    have "\<not> in_page (fst p) (snd p) x" if "p \<in> set ps" for p
      using in_page_unique[OF x, of "fst p" "snd p"] that assms(3) by (metis prod_eqI)
    then show ?thesis using assms(1) by (simp add: pages_done_def)
  qed
  show "held q s1 = held q s" "obj_page_ok q s1"
    using held_cong[OF pg assms(4) cells] by blast+
qed

lemma either_if:
  assumes "y = (if A then f x else x)" "z = (if B then f y else y)" "\<And>x. f (f x) = f x"
  shows "z = (if A \<or> B then f x else x)"
  using assms by simp

lemma pages_done_append:
  assumes dn: "pages_done ps s s1" "pages_done qs s1 s2"
    and ok: "\<forall>p \<in> set (ps @ qs). obj_page_ok p s" and dist: "distinct (ps @ qs)"
  shows "pages_done (ps @ qs) s s2"
proof -
  have valid: "\<forall>p \<in> set ps. valid_page p" using ok by (simp add: obj_page_ok_def)
  have held: "held q s1 = held q s" if "q \<in> set qs" for q
    by (rule pages_done_keeps(2)[OF dn(1) valid]) (use that dist ok in auto)
  then have h: "(\<exists>p \<in> set qs. P p \<and> held p s1) = (\<exists>p \<in> set qs. P p \<and> held p s)"
    "(\<exists>p \<in> set qs. P p \<and> \<not> held p s1) = (\<exists>p \<in> set qs. P p \<and> \<not> held p s)" for P by auto
  show ?thesis
    unfolding pages_done_def
  proof (intro conjI allI impI)
    fix x
    show "page s2 x = (if \<exists>p \<in> set (ps @ qs). x = desc p \<and> \<not> held p s then zero_page else page s x)"
    proof -
      have "page s1 x = (if \<exists>p \<in> set ps. x = desc p \<and> \<not> held p s then zero_page else page s x)"
        "page s2 x = (if \<exists>p \<in> set qs. x = desc p \<and> \<not> held p s then zero_page else page s1 x)"
        using dn unfolding pages_done_def h by blast+
      then show ?thesis unfolding set_append bex_Un by (rule either_if[where f = "\<lambda>_. zero_page"]) simp
    qed
    show "sas s2 x = (if \<exists>p \<in> set (ps @ qs). x = of_nat (fst p) \<and> held p s
        then (sas s x)\<lparr>sas_state := ABANDON\<rparr> else sas s x)"
    proof -
      have "sas s1 x = (if \<exists>p \<in> set ps. x = of_nat (fst p) \<and> held p s then (sas s x)\<lparr>sas_state := ABANDON\<rparr> else sas s x)"
        "sas s2 x = (if \<exists>p \<in> set qs. x = of_nat (fst p) \<and> held p s then (sas s1 x)\<lparr>sas_state := ABANDON\<rparr> else sas s1 x)"
        using dn unfolding pages_done_def h by blast+
      then show ?thesis unfolding set_append bex_Un by (rule either_if[where f = "\<lambda>x. x\<lparr>sas_state := ABANDON\<rparr>"]) simp
    qed
    assume "\<forall>p \<in> set (ps @ qs). \<not> in_page (fst p) (snd p) x"
    then show "cell s2 x = cell s x" using dn by (simp add: pages_done_def)
  next
    fix b
    have "obj_cnt b s1 \<in> {0, obj_cnt b s}" "obj_cnt b s2 \<in> {0, obj_cnt b s1}"
      using dn unfolding pages_done_def by blast+
    then show "obj_cnt b s2 \<in> {0, obj_cnt b s}" by auto
    assume b: "b \<notin> heads (ps @ qs) s"
    have "pg_free (page s1 (desc q)) = pg_free (page s (desc q))" if "q \<in> set qs" for q
      by (subst pages_done_keeps(1)[OF dn(1) valid]) (use that dist ok in auto)
    then have "b \<notin> heads ps s" "b \<notin> heads qs s1" using b by (simp_all add: heads_def image_Un cong: image_cong)
    then have "obj_cnt b s1 = obj_cnt b s" "obj_cnt b s2 = obj_cnt b s1" using dn unfolding pages_done_def by blast+
    then show "obj_cnt b s2 = obj_cnt b s" by simp
  qed (use dn in \<open>simp_all add: pages_done_def\<close>)
qed

lemma dead_page_step:
  assumes ok: "obj_page_ok p s"
  defines "s1 \<equiv> clear_head (desc p) s"
  defines "s2 \<equiv> if held p s then set_sas_state ABANDON (desc p) s1 else recovery_cxl_page_free (desc p) s1"
  shows "dead_obj_pages offset (Some (desc p)) s =
      dead_obj_pages offset (get_page_by_offset (pg_next (page s (desc p)))) s2"
    and "pages_done [p] s s2"
proof -
  have bs: "ucast (pg_block_size (page s (desc p))) = page_bs (fst p) (snd p) s" by (simp add: page_bs_def)
  then have nz: "pg_block_size (page s (desc p)) \<noteq> 0" using ok by (auto simp: obj_page_ok_def)
  have pfl: "page_last (desc p) s1 = page_last (desc p) s" "page_first (desc p) s1 = page_first (desc p) s"
    by (simp_all add: s1_def page_last_def page_first_def state_simps)
  show "dead_obj_pages offset (Some (desc p)) s =
      dead_obj_pages offset (get_page_by_offset (pg_next (page s (desc p)))) s2"
    using live_after_clear[OF ok] nz
    by (subst dead_obj_pages.simps)
       (simp add: clear_head_def[symmetric] bs pfl[unfolded s1_def] state_simps s1_def s2_def Let_def)
  have idx: "segment_index (cxl_ptr_segment (desc p)) = of_nat (fst p)"
    using ok by (intro desc_index) (simp add: obj_page_ok_def)
  have "cell s1 x = cell s x" if "\<not> in_page (fst p) (snd p) x" for x
    using that ok obj_info_block[OF ok]
    by (auto simp: s1_def clear_head_def get_block_by_offset_def state_simps obj_page_ok_def)
  moreover have "obj_cnt b s2 \<in> {0, obj_cnt b s}" for b
    by (auto simp: s2_def s1_def clear_head_def set_sas_state_def recovery_cxl_page_free_def obj_cnt_def
        state_simps obj_info_inj get_ref_cnt_from_info_def split: option.splits)
  moreover have "obj_cnt b s2 = obj_cnt b s" if "b \<notin> heads [p] s" for b
    using that by (auto simp: heads_def s2_def s1_def clear_head_def set_sas_state_def recovery_cxl_page_free_def
        obj_cnt_def get_block_by_offset_def state_simps obj_info_inj)
  ultimately show "pages_done [p] s s2"
    by (auto simp: pages_done_def s2_def set_sas_state_def recovery_cxl_page_free_def state_simps idx s1_def)
qed

lemma dead_obj_pages_spec:
  assumes "chain (\<lambda>x. pg_next (page s x)) first (map desc ps)" "\<forall>p \<in> set ps. obj_page_ok p s" "distinct ps"
  shows "\<exists>s'. dead_obj_pages offset (get_page_by_offset first) s = Some s' \<and> pages_done ps s s'"
  using assms
proof (induction ps arbitrary: first s)
  case Nil
  then have "dead_obj_pages offset (get_page_by_offset first) s = Some s"
    by (subst dead_obj_pages.simps) (simp add: get_page_by_offset_def)
  then show ?case by (simp add: pages_done_def)
next
  case (Cons p ps)
  have ok: "obj_page_ok p s" using Cons.prems(2) by simp
  define s2 where "s2 = (if held p s then set_sas_state ABANDON (desc p) (clear_head (desc p) s)
     else recovery_cxl_page_free (desc p) (clear_head (desc p) s))"
  note step = dead_page_step(1)[OF ok, of offset, folded s2_def] dead_page_step(2)[OF ok, folded s2_def]
  have valid: "\<forall>p' \<in> set [p]. valid_page p'" using ok by (simp add: obj_page_ok_def)
  have keep: "page s2 (desc q) = page s (desc q)" "obj_page_ok q s2" if "q \<in> set ps" for q
  proof -
    have "q \<notin> set [p]" "obj_page_ok q s" using that Cons.prems(2,3) by auto
    note k = pages_done_keeps[OF step(2) valid this]
    show "page s2 (desc q) = page s (desc q)" by (rule k(1))
    show "obj_page_ok q s2" by (rule k(3))
  qed
  have "chain (\<lambda>x. pg_next (page s x)) (pg_next (page s (desc p))) (map desc ps)"
    using Cons.prems(1) by simp
  then have ch: "chain (\<lambda>x. pg_next (page s2 x)) (pg_next (page s (desc p))) (map desc ps)"
    by (rule iffD1[OF chain_cong, rotated]) (use keep(1) in auto)
  have ok2: "\<forall>q \<in> set ps. obj_page_ok q s2" using keep(2) by blast
  have "distinct ps" using Cons.prems(3) by simp
  then obtain s' where s': "dead_obj_pages offset (get_page_by_offset (pg_next (page s (desc p)))) s2 = Some s'"
    "pages_done ps s2 s'"
    using Cons.IH[OF ch ok2] by blast
  have "get_page_by_offset first = Some (desc p)"
    using Cons.prems(1) by (auto simp: get_page_by_offset_def)
  then have "dead_obj_pages offset (get_page_by_offset first) s = Some s'" using step(1) s'(1) by simp
  moreover have "pages_done ([p] @ ps) s s'"
    by (rule pages_done_append[OF step(2) s'(2)]) (use Cons.prems in auto)
  ultimately show ?case by auto
qed

text \<open>The loop over the bins; \<open>ps i\<close> are the pages on bin \<open>i\<close>.\<close>

definition bin_chain :: "u64 \<Rightarrow> nat \<Rightarrow> page_no list \<Rightarrow> shm \<Rightarrow> bool" where
  "bin_chain offset i ps s \<longleftrightarrow>
     chain (\<lambda>x. pg_next (page s x)) (pq_first (tls_pages (tls s offset) i)) (map desc ps)"

definition all_pages :: "(nat \<Rightarrow> page_no list) \<Rightarrow> nat \<Rightarrow> page_no list" where
  "all_pages ps n = concat (map ps [2..<n])"

lemma all_pages_Suc: "2 \<le> n \<Longrightarrow> all_pages ps (Suc n) = all_pages ps n @ ps n"
  by (simp add: all_pages_def)

lemma set_all_pages: "p \<in> set (all_pages ps n) \<longleftrightarrow> (\<exists>i. 2 \<le> i \<and> i < n \<and> p \<in> set (ps i))"
  by (auto simp: all_pages_def)

lemma all_pages_split: "2 \<le> j \<Longrightarrow> j < n \<Longrightarrow> \<exists>rest. all_pages ps n = all_pages ps (Suc j) @ rest"
  using upt_add_eq_append[of 2 "Suc j" "n - Suc j"] by (auto simp: all_pages_def simp del: upt_Suc)

definition dead_bins :: "u64 \<Rightarrow> shm \<Rightarrow> shm option" where
  "dead_bins offset s = for_range (\<lambda>i s. dead_obj_pages offset
     (get_page_by_offset (pq_first (get_pq (offset, Bin i) s))) s) 2 (CXL_BIN_SIZE - 2) s"

lemma dead_bins_spec:
  assumes chains: "\<forall>i. 2 \<le> i \<and> i < CXL_BIN_SIZE \<longrightarrow> bin_chain offset i (ps i) s"
    and ok: "\<forall>p \<in> set (all_pages ps CXL_BIN_SIZE). obj_page_ok p s"
    and dist: "distinct (all_pages ps CXL_BIN_SIZE)"
  shows "\<exists>s'. dead_bins offset s = Some s' \<and> pages_done (all_pages ps CXL_BIN_SIZE) s s'"
proof -
  have "\<exists>s'. dead_bins offset s = Some s' \<and> pages_done (all_pages ps (2 + (CXL_BIN_SIZE - 2))) s s'"
    unfolding dead_bins_def
  proof (rule for_range_rule[where P = "\<lambda>n. pages_done (all_pages ps n) s"])
    fix j s1 assume j: "2 \<le> j" "j < 2 + (CXL_BIN_SIZE - 2)" and P: "pages_done (all_pages ps j) s s1"
    have jn: "j < CXL_BIN_SIZE" using j by (simp add: layout_simps)
    obtain rest where rest: "all_pages ps CXL_BIN_SIZE = all_pages ps (Suc j) @ rest" using all_pages_split[OF j(1) jn] by blast
    then have dj: "distinct (all_pages ps j @ ps j)" using dist all_pages_Suc[OF j(1)] by auto
    have okj: "\<forall>p \<in> set (all_pages ps j @ ps j). obj_page_ok p s"
      using ok unfolding rest all_pages_Suc[OF j(1)] by auto
    then have valid: "\<forall>p \<in> set (all_pages ps j). valid_page p" by (simp add: obj_page_ok_def)
    have keep: "page s1 (desc q) = page s (desc q)" "obj_page_ok q s1" if "q \<in> set (ps j)" for q
    proof -
      have "q \<notin> set (all_pages ps j)" "obj_page_ok q s" using that dj okj by auto
      note k = pages_done_keeps[OF P valid this]
      show "page s1 (desc q) = page s (desc q)" by (rule k(1))
      show "obj_page_ok q s1" by (rule k(3))
    qed
    have "tls s1 = tls s" using P by (simp add: pages_done_def)
    moreover have "chain (\<lambda>x. pg_next (page s x)) (pq_first (tls_pages (tls s offset) j)) (map desc (ps j))"
      using chains j(1) jn by (simp add: bin_chain_def)
    then have "chain (\<lambda>x. pg_next (page s1 x)) (pq_first (tls_pages (tls s offset) j)) (map desc (ps j))"
      by (rule iffD1[OF chain_cong, rotated]) (use keep(1) in auto)
    ultimately obtain s2 where s2: "dead_obj_pages offset (get_page_by_offset (pq_first (get_pq (offset, Bin j) s1))) s1 = Some s2"
      "pages_done (ps j) s1 s2"
      using dead_obj_pages_spec[of s1 "pq_first (tls_pages (tls s offset) j)" "ps j" offset] keep(2) dj by auto
    have "pages_done (all_pages ps (Suc j)) s s2"
      unfolding all_pages_Suc[OF j(1)] by (rule pages_done_append[OF P s2(2) okj dj])
    then show "\<exists>s2. dead_obj_pages offset (get_page_by_offset (pq_first (get_pq (offset, Bin j) s1))) s1 = Some s2 \<and>
        pages_done (all_pages ps (Suc j)) s s2" using s2(1) by blast
  qed (simp add: all_pages_def pages_done_def)
  then show ?thesis by (simp add: layout_simps)
qed

section \<open>The segments\<close>

definition to_release :: "u32 \<Rightarrow> cxl_sas \<Rightarrow> bool" where
  "to_release tid x \<longleftrightarrow> sas_thread_id x = tid \<and> sas_state x \<noteq> ABANDON"

lemma free_dead_segments:
  shows "\<exists>s'. for_range (free_dead_segment offset) 0 MAX_SEGMENT_NUM s = Some s' \<and> tls s' = tls s \<and> cell s' = cell s \<and>
    (\<forall>x. page s' x \<in> {zero_page, page s x}) \<and>
    (\<forall>x. (\<forall>i < MAX_SEGMENT_NUM. to_release (tls_id_of offset) (sas s (of_nat i)) \<longrightarrow> \<not> in_segment i x) \<longrightarrow> page s' x = page s x) \<and>
    (\<forall>i < MAX_SEGMENT_NUM. sas s' (of_nat i) = (if to_release (tls_id_of offset) (sas s (of_nat i))
       then (sas s (of_nat i))\<lparr>sas_thread_id := 0\<rparr> else sas s (of_nat i)))"
proof -
  define P where "P n s' \<longleftrightarrow> tls s' = tls s \<and> cell s' = cell s \<and> (\<forall>x. page s' x \<in> {zero_page, page s x}) \<and>
    (\<forall>x. (\<forall>i < MAX_SEGMENT_NUM. to_release (tls_id_of offset) (sas s (of_nat i)) \<longrightarrow> \<not> in_segment i x) \<longrightarrow> page s' x = page s x) \<and>
     (\<forall>i < MAX_SEGMENT_NUM. sas s' (of_nat i) = (if i < n \<and> to_release (tls_id_of offset) (sas s (of_nat i))
       then (sas s (of_nat i))\<lparr>sas_thread_id := 0\<rparr> else sas s (of_nat i)))" for n and s' :: shm
  have "\<exists>s'. for_range (free_dead_segment offset) 0 MAX_SEGMENT_NUM s = Some s' \<and> P (0 + MAX_SEGMENT_NUM) s'"
  proof (rule for_range_rule)
    fix n s1 assume n: "0 \<le> n" "n < 0 + MAX_SEGMENT_NUM" and P: "P n s1"
    have n': "n < MAX_SEGMENT_NUM" using n by simp
    have here: "sas s1 (of_nat n) = sas s (of_nat n)" using P n' by (simp add: P_def)
    show "\<exists>s2. free_dead_segment offset n s1 = Some s2 \<and> P (Suc n) s2"
    proof (cases "to_release (tls_id_of offset) (sas s (of_nat n))")
      case True
      let ?s = "upd_sas (of_nat n) (\<lambda>x. x\<lparr>sas_thread_id := 0\<rparr>) (clear_segment (seg_at n) s1)"
      have "free_dead_segment offset n s1 = Some ?s"
        using True here n' by (simp add: free_dead_segment_def to_release_def recovery_cxl_segment_free_def
            Let_def state_simps segment_index_seg_at)
      moreover have "sas ?s (of_nat i) = (if i < Suc n \<and> to_release (tls_id_of offset) (sas s (of_nat i))
          then (sas s (of_nat i))\<lparr>sas_thread_id := 0\<rparr> else sas s (of_nat i))" if i: "i < MAX_SEGMENT_NUM" for i
        using P i True here of_nat_segment_inject[OF i n'] by (cases "i = n") (auto simp: P_def state_simps)
      moreover have "page ?s x \<in> {zero_page, page s x}" for x using P by (simp add: P_def state_simps)
      moreover have "page ?s x = page s x"
        if x: "\<forall>i < MAX_SEGMENT_NUM. to_release (tls_id_of offset) (sas s (of_nat i)) \<longrightarrow> \<not> in_segment i x" for x
      proof -
        have "\<not> in_segment n x" using x n' True here by simp
        then have "page (clear_segment (seg_at n) s1) x = page s1 x"
          using clear_segment_outside[OF n', of s1] by (simp add: same_outside_def)
        then show ?thesis using P x by (simp add: P_def state_simps)
      qed
      ultimately show ?thesis using P by (simp add: P_def state_simps)
    next
      case False
      have "free_dead_segment offset n s1 = Some s1"
        using False here by (auto simp: free_dead_segment_def to_release_def)
      moreover have "sas s1 (of_nat i) = (if i < Suc n \<and> to_release (tls_id_of offset) (sas s (of_nat i))
          then (sas s (of_nat i))\<lparr>sas_thread_id := 0\<rparr> else sas s (of_nat i))" if i: "i < MAX_SEGMENT_NUM" for i
        using P i False here by (cases "i = n") (auto simp: P_def)
      ultimately show ?thesis using P by (simp add: P_def)
    qed
  qed (simp add: P_def)
  then show ?thesis by (auto simp: P_def)
qed

text \<open>
  The object pages and then the segments: those with an object that is still referred to are abandoned
  and keep their owner, and the others are given back.
\<close>

definition released_id :: "u64 \<Rightarrow> page_no set \<Rightarrow> shm \<Rightarrow> nat \<Rightarrow> u32" where
  "released_id offset held_pages s i =
     (if to_release (tls_id_of offset) (sas s (of_nat i)) \<and> i \<notin> fst ` held_pages
      then 0 else sas_thread_id (sas s (of_nat i)))"

lemma dead_pages_segments:
  assumes chains: "\<forall>i. 2 \<le> i \<and> i < CXL_BIN_SIZE \<longrightarrow> bin_chain offset i (ps i) s"
    and ok: "\<forall>p \<in> set (all_pages ps CXL_BIN_SIZE). obj_page_ok p s"
    and dist: "distinct (all_pages ps CXL_BIN_SIZE)"
  shows "\<exists>s1 s2. dead_bins offset s = Some s1 \<and> for_range (free_dead_segment offset) 0 MAX_SEGMENT_NUM s1 = Some s2 \<and>
    tls s2 = tls s \<and> (\<forall>x. page s2 x \<in> {zero_page, page s x}) \<and> (\<forall>b. obj_cnt b s2 \<in> {0, obj_cnt b s}) \<and>
    (\<forall>i < MAX_SEGMENT_NUM. sas_thread_id (sas s2 (of_nat i)) =
       released_id offset {p \<in> set (all_pages ps CXL_BIN_SIZE). held p s} s i) \<and>
    (\<forall>x. (\<forall>p \<in> set (all_pages ps CXL_BIN_SIZE). \<not> in_page (fst p) (snd p) x) \<longrightarrow> cell s2 x = cell s x) \<and>
    (\<forall>b. b \<notin> heads (all_pages ps CXL_BIN_SIZE) s \<longrightarrow> obj_cnt b s2 = obj_cnt b s) \<and>
    (\<forall>p. valid_page p \<longrightarrow> (if p \<in> set (all_pages ps CXL_BIN_SIZE) then held p s
       else \<not> to_release (tls_id_of offset) (sas s (of_nat (fst p)))) \<longrightarrow> page s2 (desc p) = page s (desc p))"
proof -
  let ?ps = "set (all_pages ps CXL_BIN_SIZE)"
  obtain s1 where s1: "dead_bins offset s = Some s1" "pages_done (all_pages ps CXL_BIN_SIZE) s s1"
    using dead_bins_spec[OF chains ok dist] by blast
  obtain s2 where s2: "for_range (free_dead_segment offset) 0 MAX_SEGMENT_NUM s1 = Some s2" "tls s2 = tls s1" "cell s2 = cell s1"
    "\<forall>x. page s2 x \<in> {zero_page, page s1 x}"
    "\<forall>x. (\<forall>i < MAX_SEGMENT_NUM. to_release (tls_id_of offset) (sas s1 (of_nat i)) \<longrightarrow> \<not> in_segment i x) \<longrightarrow> page s2 x = page s1 x"
    "\<forall>i < MAX_SEGMENT_NUM. sas s2 (of_nat i) = (if to_release (tls_id_of offset) (sas s1 (of_nat i))
       then (sas s1 (of_nat i))\<lparr>sas_thread_id := 0\<rparr> else sas s1 (of_nat i))"
    using free_dead_segments by blast
  have "sas_thread_id (sas s2 (of_nat i)) = released_id offset {p \<in> ?ps. held p s} s i" if i: "i < MAX_SEGMENT_NUM" for i
  proof -
    have "(of_nat i :: u64) = of_nat (fst p) \<longleftrightarrow> fst p = i" if "p \<in> ?ps" for p
      using ok that of_nat_segment_inject[OF i, of "fst p"] by (auto simp: obj_page_ok_def valid_page_def)
    then have "sas s1 (of_nat i) = (if \<exists>p \<in> ?ps. fst p = i \<and> held p s
        then (sas s (of_nat i))\<lparr>sas_state := ABANDON\<rparr> else sas s (of_nat i))"
      using s1(2) unfolding pages_done_def by (metis (no_types, lifting))
    moreover have "(\<exists>p \<in> ?ps. fst p = i \<and> held p s) \<longleftrightarrow> i \<in> fst ` {p \<in> ?ps. held p s}" by force
    ultimately show ?thesis using s2(6)[rule_format, OF i] by (simp add: to_release_def released_id_def)
  qed
  moreover have "page s2 (desc p) = page s (desc p)"
    if p: "valid_page p" "if p \<in> ?ps then held p s else \<not> to_release (tls_id_of offset) (sas s (of_nat (fst p)))" for p
  proof -
    have valid: "\<forall>q \<in> ?ps. valid_page q" using ok by (simp add: obj_page_ok_def)
    have "\<not> (\<exists>q \<in> ?ps. desc p = desc q \<and> \<not> held q s)" using p valid desc_inject[OF p(1)] by auto
    moreover have "page s1 (desc p) = (if \<exists>q \<in> ?ps. desc p = desc q \<and> \<not> held q s then zero_page else page s (desc p))"
      using s1(2) unfolding pages_done_def by blast
    ultimately have p1: "page s1 (desc p) = page s (desc p)" by (simp only: if_False)
    have sas1: "sas s1 (of_nat (fst p)) = (if \<exists>q \<in> ?ps. (of_nat (fst p) :: u64) = of_nat (fst q) \<and> held q s
        then (sas s (of_nat (fst p)))\<lparr>sas_state := ABANDON\<rparr> else sas s (of_nat (fst p)))"
      using s1(2) unfolding pages_done_def by blast
    have "\<not> to_release (tls_id_of offset) (sas s1 (of_nat (fst p)))"
    proof (cases "p \<in> ?ps")
      case True
      then show ?thesis using sas1 p(2) by (auto simp: to_release_def)
    next
      case False
      then show ?thesis using sas1 p(2) by (auto simp: to_release_def split: if_splits)
    qed
    moreover have "in_segment (fst p) (desc p)" using p(1) by (intro in_segment_meta) (simp_all add: valid_page_def)
    ultimately have "page s2 (desc p) = page s1 (desc p)" using s2(5) in_segment_unique by blast
    then show ?thesis using p1 by simp
  qed
  moreover have "obj_cnt b s2 = obj_cnt b s" if "b \<notin> heads (all_pages ps CXL_BIN_SIZE) s" for b
    using s1(2) s2(3) that by (simp add: pages_done_def obj_cnt_def)
  moreover have "page s2 x \<in> {zero_page, page s x}" for x
  proof -
    have "page s1 x \<in> {zero_page, page s x}" using s1(2) by (simp add: pages_done_def)
    then show ?thesis using s2(4)[rule_format, of x] by auto
  qed
  moreover have "obj_cnt b s2 \<in> {0, obj_cnt b s}" for b
    using s1(2) s2(3) by (simp add: pages_done_def obj_cnt_def)
  ultimately show ?thesis
    using s1 s2(1-3) by (intro exI[of _ s1] exI[of _ s2]) (simp only: pages_done_def, blast)
qed

lemma recovery_run:
  assumes tbr: "dead_tbr_pages offset (get_page_by_offset (pq_first (tls_pages (tls s offset) 0))) s = Some s1"
    and queues: "tls_sender_queue (tls s1 offset) = 0" "tls_receiver_queue (tls s1 offset) = 0"
    and bins: "dead_bins offset s1 = Some s2" and segs: "for_range (free_dead_segment offset) 0 MAX_SEGMENT_NUM s2 = Some s3"
    and pid: "tls_packed_id (tls s3 offset) = pid"
  shows "recovery_garbage_collection offset pid s =
    Some (upd_tls offset (\<lambda>t. t\<lparr>tls_packed_id := 0\<rparr>) (upd_tls offset reset_queues s3))"
proof -
  have bin: "cxl_page_queue True 16 = Some (Bin 0)" by (simp add: cxl_page_queue_def)
  have none: "sender_queues (recovery_test_free offset) 0 s1 = Some s1"
    "receiver_queues (recovery_test_free offset) 0 s1 = Some s1"
    by (subst sender_queues.simps receiver_queues.simps; simp)+
  have "tls_packed_id (tls (upd_tls offset reset_queues s3) offset) = pid"
    using pid by (simp add: state_simps reset_queues_def)
  then show ?thesis
    using none tbr bins[unfolded dead_bins_def] segs
    by (simp add: recovery_garbage_collection_def bin queues Let_def)
qed

text \<open>
  The whole recovery of a thread that holds object pages and nothing else: it returns; the
  thread state is free again; of its segments, those with an object that is still referred to are
  abandoned and keep their owner, and the others are given back.
\<close>

lemma dead_thread_recovered:
  assumes tbr: "pq_first (tls_pages (tls s offset) 0) = 0"
    and queues: "tls_sender_queue (tls s offset) = 0" "tls_receiver_queue (tls s offset) = 0"
    and pid: "tls_packed_id (tls s offset) = pid"
    and chains: "\<forall>i. 2 \<le> i \<and> i < CXL_BIN_SIZE \<longrightarrow> bin_chain offset i (ps i) s"
    and ok: "\<forall>p \<in> set (all_pages ps CXL_BIN_SIZE). obj_page_ok p s"
    and dist: "distinct (all_pages ps CXL_BIN_SIZE)"
  shows "\<exists>s'. recovery_garbage_collection offset pid s = Some s' \<and>
    tls s' = (tls s)(offset := (reset_queues (tls s offset))\<lparr>tls_packed_id := 0\<rparr>) \<and>
    (\<forall>i < MAX_SEGMENT_NUM. sas_thread_id (sas s' (of_nat i)) =
       released_id offset {p \<in> set (all_pages ps CXL_BIN_SIZE). held p s} s i) \<and>
    (\<forall>x. (\<forall>p \<in> set (all_pages ps CXL_BIN_SIZE). \<not> in_page (fst p) (snd p) x) \<longrightarrow> cell s' x = cell s x)"
proof -
  obtain s1 s2 where s: "dead_bins offset s = Some s1" "for_range (free_dead_segment offset) 0 MAX_SEGMENT_NUM s1 = Some s2"
    "tls s2 = tls s" "\<forall>i < MAX_SEGMENT_NUM. sas_thread_id (sas s2 (of_nat i)) =
       released_id offset {p \<in> set (all_pages ps CXL_BIN_SIZE). held p s} s i"
    "\<forall>x. (\<forall>p \<in> set (all_pages ps CXL_BIN_SIZE). \<not> in_page (fst p) (snd p) x) \<longrightarrow> cell s2 x = cell s x"
    using dead_pages_segments[OF chains ok dist] by blast
  have "dead_tbr_pages offset None s = Some s" by (subst dead_tbr_pages.simps) simp
  then have "recovery_garbage_collection offset pid s =
      Some (upd_tls offset (\<lambda>t. t\<lparr>tls_packed_id := 0\<rparr>) (upd_tls offset reset_queues s2))"
    using queues s(1-3) pid by (intro recovery_run) (simp_all add: tbr get_page_by_offset_def)
  then show ?thesis using s(3-5) by (simp add: state_simps)
qed

end
