(* ===== verification/Dead_Roots.thy ===== *)
theory Dead_Roots
  imports Dead_Thread
begin

text \<open>
  The root references of a dead thread: the walk over their pages gives up each reference exactly once.
\<close>

section \<open>Giving up references\<close>

text \<open>
  The header of an object, and a set of objects whose headers do not overlap. \<open>gave_up Obj refs bs s s'\<close>:
  the counts went down by the references in \<open>bs\<close>, and of the data only headers and the cells \<open>refs\<close>
  changed.
\<close>

definition obj_cells :: "u64 \<Rightarrow> u64 set" where
  "obj_cells b = {b, obj_info b, obj_emb b}"

definition apart :: "u64 set \<Rightarrow> bool" where
  "apart Obj \<longleftrightarrow> 0 \<notin> Obj \<and> (\<forall>x \<in> Obj. \<forall>y \<in> Obj. x \<noteq> y \<longrightarrow> obj_cells x \<inter> obj_cells y = {})"

definition headers :: "u64 set \<Rightarrow> u64 set" where
  "headers Obj = (\<Union>b \<in> Obj. obj_cells b)"

definition gave_up :: "u64 set \<Rightarrow> u64 set \<Rightarrow> u64 list \<Rightarrow> shm \<Rightarrow> shm \<Rightarrow> bool" where
  "gave_up Obj refs bs s s' \<longleftrightarrow>
     (\<forall>b \<in> Obj. obj_cnt b s' + count_list bs b = obj_cnt b s \<and> cell s' (obj_emb b) \<in> {0, cell s (obj_emb b)}) \<and>
     (\<forall>x. x \<notin> headers Obj \<longrightarrow> x \<notin> refs \<longrightarrow> cell s' x = cell s x) \<and>
     (\<forall>i. sas_thread_id (sas s' i) = sas_thread_id (sas s i) \<and> sas_state (sas s' i) = sas_state (sas s i)) \<and>
     segment s' = segment s \<and> tls s' = tls s"

lemma gave_up_none: "gave_up Obj refs [] s s"
  by (simp add: gave_up_def)

lemma gave_up_trans:
  assumes "gave_up Obj refs bs s s1" "gave_up Obj refs' bs' s1 s2"
  shows "gave_up Obj (refs \<union> refs') (bs @ bs') s s2"
proof -
  have "obj_cnt b s2 + count_list (bs @ bs') b = obj_cnt b s" if "b \<in> Obj" for b
  proof -
    have "obj_cnt b s2 + count_list bs' b = obj_cnt b s1" "obj_cnt b s1 + count_list bs b = obj_cnt b s"
      using assms that by (simp_all add: gave_up_def)
    then show ?thesis by simp
  qed
  moreover have "cell s2 (obj_emb b) \<in> {0, cell s (obj_emb b)}" if "b \<in> Obj" for b
  proof -
    have "cell s2 (obj_emb b) \<in> {0, cell s1 (obj_emb b)}" "cell s1 (obj_emb b) \<in> {0, cell s (obj_emb b)}"
      using assms that by (simp_all add: gave_up_def)
    then show ?thesis by auto
  qed
  ultimately show ?thesis using assms by (simp add: gave_up_def)
qed

text \<open>The blocks of a page are such objects.\<close>

lemma obj_cellsE:
  assumes "x \<in> obj_cells b"
  obtains d where "x = b + of_nat d" "d \<in> {0, 8, 16}"
  using assms that[of 0] that[of 8] that[of 16] by (auto simp: obj_cells_def obj_info_def obj_emb_def)

lemma block_cells_in:
  assumes "b \<in> set (page_blocks (area_at (seg_at i) k) bs)" "area_ok (area_at (seg_at i) k) bs"
    "i < MAX_SEGMENT_NUM" "k < PAGES_PER_SEGMENT" "24 \<le> unat bs" "x \<in> obj_cells b"
  shows "in_page i k x"
proof -
  obtain d where d: "x = b + of_nat d" "d \<in> {0, 8, 16}"
    by (rule obj_cellsE[OF assms(6)])
  then have "d < unat bs" using assms(5) by auto
  then show ?thesis using block_in_page[OF assms(1-4)] d(1) by simp
qed

lemma page_blocks_apart:
  assumes ok: "area_ok a bs" and bs: "24 \<le> unat bs"
  shows "apart (set (page_blocks a bs))"
  unfolding apart_def
proof (intro conjI ballI impI)
  have pos: "b \<noteq> 0" if "b \<in> set (page_blocks a bs)" for b
    by (rule page_blocksE[OF that ok]) (use ok in \<open>auto simp: area_ok_def\<close>)
  then show "0 \<notin> set (page_blocks a bs)" by blast
  fix b c assume b: "b \<in> set (page_blocks a bs)" and c: "c \<in> set (page_blocks a bs)" and ne: "b \<noteq> c"
  obtain j where j: "unat b = unat a + j * unat bs" "unat b + unat bs \<le> unat a + 2 ^ 16"
    by (rule page_blocksE[OF b ok])
  obtain l where l: "unat c = unat a + l * unat bs" "unat c + unat bs \<le> unat a + 2 ^ 16"
    by (rule page_blocksE[OF c ok])
  have "b + of_nat d \<noteq> c + of_nat e" if de: "d < unat bs" "e < unat bs" for d e
  proof
    assume eq: "b + of_nat d = c + of_nat e"
    have "unat (b + of_nat d) = unat b + d" "unat (c + of_nat e) = unat c + e"
      using j l ok de by (intro unat_add_small; simp add: area_ok_def)+
    then have "j * unat bs + d = l * unat bs + e" using eq j(1) l(1) by simp
    then have "(j * unat bs + d) div unat bs = (l * unat bs + e) div unat bs" by simp
    then have "j = l" using de by simp
    then show False using ne j(1) l(1) by (simp add: word_unat_eq_iff)
  qed
  moreover have "d < unat bs" if "d \<in> {0, 8, 16}" for d using that bs by auto
  ultimately show "obj_cells b \<inter> obj_cells c = {}" by (auto elim!: obj_cellsE)
qed

section \<open>Releasing a reference to an object without embedded ones\<close>

text \<open>\<open>recovery_unlink_reference\<close> up to the test of the count.\<close>

definition dead_commit :: "u64 \<Rightarrow> u64 \<Rightarrow> u64 \<Rightarrow> shm \<Rightarrow> shm" where
  "dead_commit ref b offset s = bump_era (dead_client offset) (set_cell ref 0
     (set_cell (obj_info b) (dead_word offset b s) (see_era (dead_client offset) (cell s (obj_info b)) s)))"

lemma dead_commit_sel [state_simps]:
  "cell (dead_commit ref b offset s) = (cell s)(obj_info b := dead_word offset b s, ref := 0)"
  "page (dead_commit ref b offset s) = page s" "segment (dead_commit ref b offset s) = segment s"
  "sas (dead_commit ref b offset s) = sas s" "tls (dead_commit ref b offset s) = tls s"
  by (simp_all add: dead_commit_def state_simps)

lemma recovery_unlink_commit:
  "recovery_unlink_reference ref b offset s =
     (if 1 < obj_cnt b s then dead_commit ref b offset s
      else if obj_cnt b s = 1 then recovery_cxl_free False b offset (dead_commit ref b offset s)
      else recovery_unlink_reference ref b offset s)"
proof -
  let ?n = "get_ref_cnt_from_info (cell s (obj_info b))"
  have "0 < ?n - 1 \<longleftrightarrow> 1 < obj_cnt b s" if "0 < obj_cnt b s"
    using that by (simp add: word_less_nat_alt unat_dec obj_cnt_def)
  then show ?thesis
    by (auto simp: recovery_unlink_reference_def dead_commit_def Let_def ucast_ref_info_cnt dead_word_def
        commit_word_def dead_client_def)
qed

lemma recovery_test_free_leaf:
  assumes "cell s ref = b" "b \<noteq> 0" "0 < obj_cnt b s" "cell s (obj_emb b) = 0"
  shows "recovery_test_free offset ref s = Some (recovery_unlink_reference ref b offset s)"
proof (cases "1 < obj_cnt b s")
  case True
  then show ?thesis using recovery_test_free_shared[of s ref] assms by simp
next
  case False
  let ?n = "get_ref_cnt_from_info (cell s (obj_info b))"
  have n: "?n \<noteq> 0" "\<not> 0 < ?n - 1"
    using False assms(3) cnt_gt_one[of b s] by (auto simp: obj_cnt_def)
  have "recovery_test_free_at offset (Inr (b, 0)) s = Some s"
    by (subst recovery_test_free_at.simps) (simp add: assms(4))
  then show ?thesis
    unfolding recovery_test_free_def
    by (subst recovery_test_free_at.simps) (use n assms(1,2) in \<open>simp add: Let_def\<close>)
qed

lemma recovery_cxl_free_object:
  "x \<notin> obj_cells b \<Longrightarrow> cell (recovery_cxl_free False b offset s) x = cell s x"
  "cell (recovery_cxl_free False b offset s) (obj_info b) = 0"
  "cell (recovery_cxl_free False b offset s) (obj_emb b) = 0"
  "page (recovery_cxl_free False b offset s) = page s"
  "segment (recovery_cxl_free False b offset s) = segment s"
  "tls (recovery_cxl_free False b offset s) = tls s"
  "sas_thread_id (sas (recovery_cxl_free False b offset s) i) = sas_thread_id (sas s i)"
  "sas_state (sas (recovery_cxl_free False b offset s) i) = sas_state (sas s i)"
  by (auto simp: recovery_cxl_free_def clear_block_def Let_def state_simps cell_clear_cells obj_cells_def
      obj_info_def obj_emb_def less_Suc_eq numeral_3_eq_3)

lemma obj_cells_apart:
  assumes "apart Obj" "x \<in> Obj" "y \<in> Obj" "x \<noteq> y" "a \<in> obj_cells x"
  shows "a \<notin> obj_cells y"
  using assms by (auto simp: apart_def)

lemma obj_cells_mem [simp]: "b \<in> obj_cells b" "obj_info b \<in> obj_cells b" "obj_emb b \<in> obj_cells b"
  by (simp_all add: obj_cells_def)

lemma obj_cells_distinct [simp]: "obj_info b \<noteq> obj_emb b" "b \<noteq> obj_info b" "b \<noteq> obj_emb b"
  "obj_emb b \<noteq> obj_info b" "obj_info b \<noteq> b" "obj_emb b \<noteq> b"
  by (simp_all add: obj_info_def obj_emb_def)

lemma headers_mem:
  assumes "b \<in> Obj"
  shows "b \<in> headers Obj" "obj_info b \<in> headers Obj" "obj_emb b \<in> headers Obj"
  using assms obj_cells_mem unfolding headers_def by blast+

text \<open>
  Whether the reference was the last one or not: one count less, and its cell is empty. The header of
  an object is cleared with the last one.
\<close>

lemma recovery_unlink_counted:
  assumes id: "valid_id (tid_of offset)" and b: "0 < obj_cnt b s" and ref: "ref \<notin> obj_cells b"
  defines "s' \<equiv> recovery_unlink_reference ref b offset s"
  shows "x \<notin> obj_cells b \<Longrightarrow> x \<noteq> ref \<Longrightarrow> cell s' x = cell s x" "cell s' ref = 0" "obj_cnt b s' + 1 = obj_cnt b s"
    "cell s' (obj_emb b) = (if 1 < obj_cnt b s then cell s (obj_emb b) else 0)"
    "page s' = page s" "segment s' = segment s" "tls s' = tls s"
    "sas_thread_id (sas s' i) = sas_thread_id (sas s i)" "sas_state (sas s' i) = sas_state (sas s i)"
proof -
  let ?s1 = "dead_commit ref b offset s"
  have unl: "s' = (if 1 < obj_cnt b s then ?s1 else recovery_cxl_free False b offset ?s1)"
    unfolding s'_def using b by (subst recovery_unlink_commit) simp
  show "cell s' x = cell s x" if "x \<notin> obj_cells b" "x \<noteq> ref"
    using that by (auto simp: unl recovery_cxl_free_object state_simps)
  show "cell s' ref = 0" using ref by (simp add: unl recovery_cxl_free_object state_simps)
  have ne: "obj_info b \<noteq> ref" "obj_emb b \<noteq> ref" using ref by auto
  show "cell s' (obj_emb b) = (if 1 < obj_cnt b s then cell s (obj_emb b) else 0)"
    using ne by (simp add: unl recovery_cxl_free_object state_simps)
  show "obj_cnt b s' + 1 = obj_cnt b s"
  proof (cases "1 < obj_cnt b s")
    case True
    then show ?thesis using dead_word_cnt[OF id b] ne by (simp add: unl state_simps obj_cnt_def)
  next
    case False
    then have "cell s' (obj_info b) = 0" by (simp add: unl recovery_cxl_free_object)
    then have "obj_cnt b s' = 0" by (simp add: obj_cnt_def get_ref_cnt_from_info_def)
    then show ?thesis using False b by simp
  qed
  show "page s' = page s" "segment s' = segment s" "tls s' = tls s"
    "sas_thread_id (sas s' i) = sas_thread_id (sas s i)" "sas_state (sas s' i) = sas_state (sas s i)"
    by (simp_all add: unl recovery_cxl_free_object state_simps)
qed

lemma release_leaf:
  assumes id: "valid_id (tid_of offset)" and Obj: "apart Obj" "b \<in> Obj"
    and b: "cell s ref = b" "0 < obj_cnt b s" "cell s (obj_emb b) = 0" and ref: "ref \<notin> headers Obj"
  shows "\<exists>s'. recovery_test_free offset ref s = Some s' \<and> gave_up Obj {ref} [b] s s' \<and>
    cell s' ref = 0 \<and> page s' = page s"
proof -
  let ?s = "recovery_unlink_reference ref b offset s"
  have ne: "ref \<notin> obj_cells x" if "x \<in> Obj" for x using that ref by (auto simp: headers_def)
  note u = recovery_unlink_counted[OF id b(2) ne[OF Obj(2)]]
  have run: "recovery_test_free offset ref s = Some ?s"
    using Obj b by (intro recovery_test_free_leaf) (auto simp: apart_def)
  have "obj_cnt x ?s = obj_cnt x s \<and> cell ?s (obj_emb x) = cell s (obj_emb x)" if "x \<in> Obj" "x \<noteq> b" for x
    using u(1) obj_cells_apart[OF Obj(1) that(1) Obj(2) that(2)] ne[OF that(1)] by (metis obj_cnt_def obj_cells_mem(2,3))
  moreover have "cell ?s x = cell s x" if "x \<notin> headers Obj" "x \<noteq> ref" for x
    by (rule u(1)) (use that Obj(2) in \<open>auto simp: headers_def\<close>)
  ultimately have "gave_up Obj {ref} [b] s ?s"
    using u(3,4,6-9) b(3) by (auto simp: gave_up_def)
  then show ?thesis using run u(2,5) by blast
qed

section \<open>A page of root references\<close>

abbreviation data_area :: "page_no \<Rightarrow> u64" where "data_area p \<equiv> area_at (seg_at (fst p)) (snd p)"

definition root_blk :: "page_no \<Rightarrow> nat \<Rightarrow> u64" where "root_blk p j = blk (data_area p) 16 j"

definition own_block :: "page_no \<Rightarrow> u64 \<Rightarrow> bool" where
  "own_block p r \<longleftrightarrow> root_blk p 0 \<le> r \<and> r \<le> last_blk (data_area p) 16"

definition root_page_ok :: "u64 \<Rightarrow> page_no \<Rightarrow> shm \<Rightarrow> bool" where
  "root_page_ok offset p s \<longleftrightarrow> valid_page p \<and> pg_block_size (page s (desc p)) = 16 \<and>
     ucast (sg_thread_id (segment s (seg_at (fst p)))) = tls_id_of offset"

text \<open>
  The object a block of the page refers to, if it is a root reference in use that was completed: not to
  the head of a free list, which was allocated but not taken, and not to the page itself.
\<close>

definition root_target :: "page_no \<Rightarrow> shm \<Rightarrow> nat \<Rightarrow> u64 list" where
  "root_target p s j = (let r = cell s (root_blk p j)
     in if get_in_use (cell s (root_blk p j + 8)) = 1 \<and> r \<noteq> 0 \<and>
          r \<noteq> pg_free (page s (cxl_ptr_page r)) \<and> \<not> own_block p r then [r] else [])"

definition roots_from :: "page_no \<Rightarrow> shm \<Rightarrow> nat \<Rightarrow> u64 list" where
  "roots_from p s j = concat (map (root_target p s) [j..<block_cnt 16])"

text \<open>The references of a list can be given up: the objects are counted often enough, and refer to nothing.\<close>

definition releasable :: "u64 set \<Rightarrow> u64 list \<Rightarrow> shm \<Rightarrow> bool" where
  "releasable Obj bs s \<longleftrightarrow>
     (\<forall>b \<in> set bs. b \<in> Obj \<and> cell s (obj_emb b) = 0 \<and> count_list bs b \<le> obj_cnt b s)"

lemma releasable_later:
  assumes "releasable Obj (bs @ bs') s" "gave_up Obj refs bs s s1"
  shows "releasable Obj bs' s1"
  unfolding releasable_def
proof (intro ballI conjI)
  fix b assume b: "b \<in> set bs'"
  then have r: "b \<in> Obj" "cell s (obj_emb b) = 0" "count_list (bs @ bs') b \<le> obj_cnt b s"
    using assms(1) by (simp_all add: releasable_def)
  have "obj_cnt b s1 + count_list bs b = obj_cnt b s \<and> cell s1 (obj_emb b) \<in> {0, cell s (obj_emb b)}"
    using assms(2) r(1) unfolding gave_up_def by blast
  then show "b \<in> Obj" "cell s1 (obj_emb b) = 0" "count_list bs' b \<le> obj_cnt b s1" using r by auto
qed

lemma releasable_front:
  assumes "releasable Obj (bs @ bs') s"
  shows "releasable Obj bs s"
  unfolding releasable_def
proof (intro ballI conjI)
  fix b assume "b \<in> set bs"
  then have "b \<in> Obj" "cell s (obj_emb b) = 0" "count_list (bs @ bs') b \<le> obj_cnt b s"
    using assms by (simp_all add: releasable_def)
  then show "b \<in> Obj" "cell s (obj_emb b) = 0" "count_list bs b \<le> obj_cnt b s" by simp_all
qed

lemma area_ok_root: "valid_page p \<Longrightarrow> area_ok (data_area p) 16"
  by (rule area_ok_area_at) (simp_all add: valid_page_def)

lemma root_blk_in:
  assumes "valid_page p" "j < block_cnt 16"
  shows "in_page (fst p) (snd p) (root_blk p j)" "in_page (fst p) (snd p) (root_blk p j + 8)"
proof -
  have "root_blk p j \<in> set (page_blocks (data_area p) 16)" using assms(2) by (simp add: root_blk_def page_blocks_def)
  note b = block_in_page[OF this area_ok_root[OF assms(1)]]
  show "in_page (fst p) (snd p) (root_blk p j)" using b[of 0] assms(1) by (simp add: valid_page_def)
  show "in_page (fst p) (snd p) (root_blk p j + 8)" using b[of 8] assms(1) by (simp add: valid_page_def)
qed

lemma root_blk_apart:
  assumes "valid_page p" "j < block_cnt 16" "m < block_cnt 16" "j \<noteq> m"
  shows "{root_blk p j, root_blk p j + 8} \<inter> {root_blk p m, root_blk p m + 8} = {}"
proof -
  have *: "root_blk p j + of_nat d \<noteq> root_blk p m + of_nat e"
    if "d < 16" "e < 16" "j < block_cnt 16" "m < block_cnt 16" "j \<noteq> m" for j m d e
  proof -
    have u: "unat (root_blk p x + of_nat y) = unat (data_area p) + x * 16 + y" if "x < block_cnt 16" "y < 16" for x y
    proof -
      have "unat (root_blk p x) = unat (data_area p) + x * 16"
        using that unat_blk[OF area_ok_root[OF assms(1)], of x] by (simp add: root_blk_def)
      moreover have "unat (root_blk p x) + y < 2 ^ 64"
        using area_ok_root[OF assms(1)] that calculation by (simp add: area_ok_def block_cnt_def)
      ultimately show ?thesis by (simp add: unat_add_small)
    qed
    have "j * 16 + d \<noteq> m * 16 + e" using that by (cases "j < m") linarith+
    then show ?thesis using u[of j d] u[of m e] that by auto
  qed
  show ?thesis
    using *[of 0 0 j m] *[of 0 8 j m] *[of 8 0 j m] *[of 8 8 j m] assms(2-) by simp
qed

lemma root_free:
  assumes "root_page_ok offset p s" "j < block_cnt 16"
  shows "recovery_cxl_free True (root_blk p j) offset s = clear_cells (root_blk p j) 2 s"
proof -
  have v: "valid_page p" using assms(1) by (simp add: root_page_ok_def)
  note b = root_blk_in(1)[OF v assms(2)]
  show ?thesis
    using assms(1) by (simp add: recovery_cxl_free_def Let_def clear_block_def state_simps root_page_ok_def
        cxl_ptr_page_in[OF b] cxl_ptr_segment_in[OF in_page_segment[OF b]])
qed

text \<open>No object header lies in the page.\<close>

definition off_page :: "u64 set \<Rightarrow> page_no \<Rightarrow> bool" where
  "off_page Obj p \<longleftrightarrow> (\<forall>x \<in> headers Obj. \<not> in_page (fst p) (snd p) x)"

lemma dead_tbr_step:
  assumes id: "valid_id (tid_of offset)" and Obj: "apart Obj" "off_page Obj p"
    and pg: "root_page_ok offset p s" "j < block_cnt 16" "get_in_use (cell s (root_blk p j + 8)) = 1"
    and rel: "releasable Obj (root_target p s j) s"
  shows "\<exists>s'. dead_tbr offset (root_blk p 0) (last_blk (data_area p) 16) (root_blk p j) s = Some s' \<and>
    gave_up Obj {root_blk p j, root_blk p j + 8} (root_target p s j) s s' \<and> page s' = page s \<and>
    cell s' (root_blk p j + 8) = 0"
proof -
  let ?b = "root_blk p j"
  let ?r = "cell s ?b"
  let ?named = "?r \<noteq> 0 \<and> ?r \<noteq> pg_free (page s (cxl_ptr_page ?r)) \<and> \<not> own_block p ?r"
  have v: "valid_page p" using pg(1) by (simp add: root_page_ok_def)
  have off: "?b \<notin> headers Obj" "?b + 8 \<notin> headers Obj"
    using Obj(2) root_blk_in[OF v pg(2)] by (auto simp: off_page_def)
  have tgt: "root_target p s j = (if ?named then [?r] else [])"
    using pg(3) by (simp add: root_target_def Let_def)
  have "\<exists>s1. (if ?named then recovery_test_free offset ?b s else Some s) = Some s1 \<and>
      gave_up Obj {?b} (root_target p s j) s s1 \<and> page s1 = page s"
  proof (cases ?named)
    case True
    then have "?r \<in> Obj" "0 < obj_cnt ?r s" "cell s (obj_emb ?r) = 0" using rel tgt by (auto simp: releasable_def)
    from release_leaf[OF id Obj(1) this(1) refl this(2,3) off(1)] show ?thesis using True tgt by auto
  next
    case False
    then show ?thesis using tgt gave_up_none by auto
  qed
  then obtain s1 where s1: "(if ?named then recovery_test_free offset ?b s else Some s) = Some s1"
    "gave_up Obj {?b} (root_target p s j) s s1" "page s1 = page s" by blast
  let ?s2 = "set_cell (?b + 8) (set_in_use 0 (cell s1 (?b + 8))) s1"
  let ?s = "clear_cells ?b 2 ?s2"
  have "root_page_ok offset p ?s2"
    using pg(1) s1(2,3) by (simp add: root_page_ok_def state_simps gave_up_def)
  then have "dead_tbr offset (root_blk p 0) (last_blk (data_area p) 16) ?b s = Some ?s"
    using s1(1) pg(2) by (simp add: dead_tbr_def Let_def root_free own_block_def)
  moreover have cell: "cell ?s x = (if x = ?b \<or> x = ?b + 8 then 0 else cell s1 x)" for x
    by (auto simp: cell_clear_cells state_simps less_Suc_eq numeral_2_eq_2)
  moreover have "gave_up Obj {?b, ?b + 8} [] s1 ?s"
  proof -
    have "obj_info x \<in> headers Obj" "obj_emb x \<in> headers Obj" if "x \<in> Obj" for x
      by (rule headers_mem[OF that])+
    then have "cell ?s (obj_info x) = cell s1 (obj_info x)" "cell ?s (obj_emb x) = cell s1 (obj_emb x)" if "x \<in> Obj" for x
      using that off cell by metis+
    then show ?thesis using cell by (simp add: gave_up_def state_simps obj_cnt_def)
  qed
  from gave_up_trans[OF s1(2) this] have "gave_up Obj {?b, ?b + 8} (root_target p s j) s ?s"
    by (simp add: insert_commute)
  ultimately show ?thesis using s1(3) by (intro exI[of _ ?s]) (simp add: state_simps)
qed

text \<open>From block \<open>j\<close> to the last.\<close>

definition cells_from :: "page_no \<Rightarrow> nat \<Rightarrow> u64 set" where
  "cells_from p j = (\<Union>m \<in> {j..<block_cnt 16}. {root_blk p m, root_blk p m + 8})"

lemma cells_from_Suc:
  "j < block_cnt 16 \<Longrightarrow> cells_from p j = {root_blk p j, root_blk p j + 8} \<union> cells_from p (Suc j)"
proof -
  assume "j < block_cnt 16"
  then have "{j..<block_cnt 16} = insert j {Suc j..<block_cnt 16}" by auto
  then show ?thesis by (simp only: cells_from_def UN_insert)
qed

lemma cells_from_in: "valid_page p \<Longrightarrow> x \<in> cells_from p j \<Longrightarrow> in_page (fst p) (snd p) x"
  using root_blk_in[of p] by (auto simp: cells_from_def)

lemma roots_from_Suc: "j < block_cnt 16 \<Longrightarrow> roots_from p s j = root_target p s j @ roots_from p s (Suc j)"
  by (simp add: roots_from_def upt_rec[of j])

lemma gave_up_cell:
  "gave_up Obj refs bs s s' \<Longrightarrow> x \<notin> headers Obj \<Longrightarrow> x \<notin> refs \<Longrightarrow> cell s' x = cell s x"
  by (simp add: gave_up_def)

lemma root_target_cong:
  assumes "cell s' (root_blk p m) = cell s (root_blk p m)" "cell s' (root_blk p m + 8) = cell s (root_blk p m + 8)"
    "page s' (cxl_ptr_page (cell s (root_blk p m))) = page s (cxl_ptr_page (cell s (root_blk p m)))"
  shows "root_target p s' m = root_target p s m"
  by (simp add: root_target_def assms)

lemma dead_tbr_walk:
  assumes id: "valid_id (tid_of offset)" and Obj: "apart Obj" "off_page Obj p"
    and "j \<le> block_cnt 16" "root_page_ok offset p s" "releasable Obj (roots_from p s j) s"
  shows "\<exists>s'. dead_tbr_blocks offset (desc p) (root_blk p 0) (last_blk (data_area p) 16) (root_blk p j) s = Some s' \<and>
    gave_up Obj (cells_from p j) (roots_from p s j) s s' \<and> page s' = page s \<and>
    (\<forall>m. j \<le> m \<longrightarrow> m < block_cnt 16 \<longrightarrow> get_in_use (cell s' (root_blk p m + 8)) \<noteq> 1)"
  using assms(4-)
proof (induction j arbitrary: s rule: inc_induct)
  case base
  have ok: "area_ok (data_area p) 16" using base(1) by (intro area_ok_root) (simp add: root_page_ok_def)
  have "\<not> root_blk p (block_cnt 16) \<le> last_blk (data_area p) 16"
    using blk_le_last[OF ok, of "block_cnt 16"] by (simp add: root_blk_def)
  then show ?case
    by (subst dead_tbr_blocks.simps) (simp add: gave_up_none roots_from_def)
next
  case (step j)
  let ?b = "root_blk p j"
  have j: "j < block_cnt 16" by (rule step.hyps(2))
  have v: "valid_page p" and bs: "pg_block_size (page s (desc p)) = 16"
    using step.prems(1) by (simp_all add: root_page_ok_def)
  have le: "?b \<le> last_blk (data_area p) 16"
    using blk_le_last[OF area_ok_root[OF v], of j] j by (simp add: root_blk_def)
  have nxt: "?b + ucast (pg_block_size (page s (desc p))) = root_blk p (Suc j)"
    by (simp add: bs root_blk_def blk_Suc)
  have split: "roots_from p s j = root_target p s j @ roots_from p s (Suc j)" by (rule roots_from_Suc[OF j])
  have rel: "releasable Obj (root_target p s j) s"
    by (rule releasable_front[OF step.prems(2)[unfolded split]])
  have "\<exists>s1. (if get_in_use (cell s (?b + 8)) = 1
        then dead_tbr offset (root_blk p 0) (last_blk (data_area p) 16) ?b s else Some s) = Some s1 \<and>
      gave_up Obj {?b, ?b + 8} (root_target p s j) s s1 \<and> page s1 = page s \<and>
      get_in_use (cell s1 (?b + 8)) \<noteq> 1"
  proof (cases "get_in_use (cell s (?b + 8)) = 1")
    case True
    then show ?thesis using dead_tbr_step[OF id Obj step.prems(1) j True rel] by (auto simp: get_in_use_def get_field_def)
  next
    case False
    then show ?thesis using gave_up_none by (simp add: root_target_def Let_def)
  qed
  then obtain s1 where s1: "(if get_in_use (cell s (?b + 8)) = 1
        then dead_tbr offset (root_blk p 0) (last_blk (data_area p) 16) ?b s else Some s) = Some s1"
      "gave_up Obj {?b, ?b + 8} (root_target p s j) s s1" "page s1 = page s" "get_in_use (cell s1 (?b + 8)) \<noteq> 1"
    by blast
  have off: "x \<notin> headers Obj" if "in_page (fst p) (snd p) x" for x using Obj(2) that by (auto simp: off_page_def)
  have "root_target p s1 m = root_target p s m" if "m < block_cnt 16" "m \<noteq> j" for m
    using gave_up_cell[OF s1(2)] off[OF root_blk_in(1)[OF v that(1)]] off[OF root_blk_in(2)[OF v that(1)]]
      root_blk_apart[OF v that(1) j that(2)] s1(3)
    by (intro root_target_cong) auto
  then have same: "roots_from p s1 (Suc j) = roots_from p s (Suc j)"
    unfolding roots_from_def by (intro arg_cong[where f = concat] map_cong) auto
  have ok1: "root_page_ok offset p s1" using step.prems(1) s1(2,3) by (simp add: root_page_ok_def gave_up_def)
  have rel1: "releasable Obj (roots_from p s1 (Suc j)) s1"
    unfolding same by (rule releasable_later[OF step.prems(2)[unfolded split] s1(2)])
  obtain s' where s': "dead_tbr_blocks offset (desc p) (root_blk p 0) (last_blk (data_area p) 16) (root_blk p (Suc j)) s1 = Some s'"
    "gave_up Obj (cells_from p (Suc j)) (roots_from p s (Suc j)) s1 s'" "page s' = page s1"
    "\<forall>m. Suc j \<le> m \<longrightarrow> m < block_cnt 16 \<longrightarrow> get_in_use (cell s' (root_blk p m + 8)) \<noteq> 1"
    using step.IH[OF ok1 rel1] unfolding same by blast
  have "dead_tbr_blocks offset (desc p) (root_blk p 0) (last_blk (data_area p) 16) ?b s = Some s'"
    using s1(1) s'(1) le nxt by (subst dead_tbr_blocks.simps) (auto simp: Let_def split: if_splits)
  moreover have "gave_up Obj (cells_from p j) (roots_from p s j) s s'"
    unfolding split cells_from_Suc[OF j] by (rule gave_up_trans[OF s1(2) s'(2)])
  moreover have "cell s' (?b + 8) = cell s1 (?b + 8)"
  proof (rule gave_up_cell[OF s'(2)])
    show "?b + 8 \<notin> headers Obj" by (rule off[OF root_blk_in(2)[OF v j]])
    show "?b + 8 \<notin> cells_from p (Suc j)"
      using root_blk_apart[OF v j] by (fastforce simp: cells_from_def)
  qed
  ultimately show ?case using s1(3,4) s'(3,4) by (metis Suc_leI le_neq_implies_less)
qed

section \<open>All pages of root references\<close>

text \<open>
  \<open>roots_known\<close>: a root reference in use is empty, half-made inside its own page, or names an object. The
  objects lie on other pages.
\<close>

definition roots_known :: "u64 set \<Rightarrow> page_no \<Rightarrow> shm \<Rightarrow> bool" where
  "roots_known Obj p s \<longleftrightarrow> (\<forall>j < block_cnt 16. get_in_use (cell s (root_blk p j + 8)) = 1 \<longrightarrow>
     cell s (root_blk p j) = 0 \<or> own_block p (cell s (root_blk p j)) \<or> cell s (root_blk p j) \<in> Obj)"

definition on_pages :: "u64 set \<Rightarrow> bool" where
  "on_pages Obj \<longleftrightarrow> (\<forall>b \<in> Obj. \<exists>q. in_page (fst q) (snd q) b)"

definition all_roots :: "page_no list \<Rightarrow> shm \<Rightarrow> u64 list" where
  "all_roots ps s = concat (map (\<lambda>p. roots_from p s 0) ps)"

definition roots_ok :: "u64 \<Rightarrow> u64 set \<Rightarrow> page_no list \<Rightarrow> shm \<Rightarrow> bool" where
  "roots_ok offset Obj ps s \<longleftrightarrow> distinct ps \<and>
     (\<forall>p \<in> set ps. root_page_ok offset p s \<and> roots_known Obj p s \<and> off_page Obj p) \<and>
     releasable Obj (all_roots ps s) s"

lemma off_page_desc:
  assumes "on_pages Obj" "off_page Obj p" "b \<in> Obj" "valid_page p"
  shows "cxl_ptr_page b \<noteq> desc p"
proof -
  obtain q where q: "in_page (fst q) (snd q) b" using assms(1,3) by (auto simp: on_pages_def)
  have v: "valid_page q" using q by (simp add: in_page_def valid_page_def)
  have "q \<noteq> p" using q headers_mem(1)[OF assms(3)] assms(2) by (auto simp: off_page_def)
  then show ?thesis using desc_inject[OF v assms(4)] by (simp add: cxl_ptr_page_in[OF q])
qed

text \<open>The pages after one that is done are as they were.\<close>

lemma root_page_keeps:
  assumes Obj: "on_pages Obj" "off_page Obj p" and ne: "p \<noteq> q"
    and p: "valid_page p" and q: "root_page_ok offset q s" "roots_known Obj q s"
    and cells: "\<And>x. in_page (fst q) (snd q) x \<Longrightarrow> cell s1 x = cell s x"
    and meta: "segment s1 = segment s" "\<And>x. x \<noteq> desc p \<Longrightarrow> page s1 x = page s x"
  shows "root_page_ok offset q s1" "roots_known Obj q s1" "j < block_cnt 16 \<Longrightarrow> root_target q s1 j = root_target q s j"
proof -
  have v: "valid_page q" using q(1) by (simp add: root_page_ok_def)
  have dq: "desc q \<noteq> desc p" using desc_inject[OF v p] ne by simp
  note same = cells[OF root_blk_in(1)[OF v]] cells[OF root_blk_in(2)[OF v]]
  show "root_page_ok offset q s1"
    using q(1) meta dq by (simp add: root_page_ok_def)
  show "roots_known Obj q s1" using q(2) same by (simp add: roots_known_def)
  show "root_target q s1 j = root_target q s j" if j: "j < block_cnt 16"
  proof (cases "cell s (root_blk q j) \<in> Obj")
    case True
    then show ?thesis
      using meta(2) off_page_desc[OF Obj(1,2) True p] same[OF j] by (intro root_target_cong) auto
  next
    case False
    then show ?thesis using q(2) j same[OF j] by (auto simp: root_target_def roots_known_def Let_def)
  qed
qed

lemma roots_from_cong:
  "(\<And>j. j < block_cnt 16 \<Longrightarrow> root_target q s1 j = root_target q s j) \<Longrightarrow> roots_from q s1 0 = roots_from q s 0"
  unfolding roots_from_def by (intro arg_cong[where f = concat] map_cong) auto

lemma gave_up_other_page:
  assumes "gave_up Obj (cells_from p 0) bs s s1" "valid_page p" "off_page Obj q" "p \<noteq> q" "in_page (fst q) (snd q) x"
  shows "cell s1 x = cell s x"
proof (rule gave_up_cell[OF assms(1)])
  show "x \<notin> headers Obj" using assms(3,5) by (auto simp: off_page_def)
  show "x \<notin> cells_from p 0" using in_page_unique[OF assms(5)] cells_from_in[OF assms(2)] assms(4) by (metis prod_eqI)
qed

text \<open>The effect of the loop over the pages.\<close>

definition roots_done :: "u64 set \<Rightarrow> page_no list \<Rightarrow> shm \<Rightarrow> shm \<Rightarrow> bool" where
  "roots_done Obj ps s s' \<longleftrightarrow>
     gave_up Obj (\<Union>p \<in> set ps. cells_from p 0) (all_roots ps s) s s' \<and>
     (\<forall>x. page s' x = (if x \<in> desc ` set ps then zero_page else page s x))"

lemma dead_tbr_pages_spec:
  assumes id: "valid_id (tid_of offset)" and Obj: "apart Obj" "on_pages Obj"
    and "chain (\<lambda>x. pg_next (page s x)) first (map desc ps)" "roots_ok offset Obj ps s"
  shows "\<exists>s'. dead_tbr_pages offset (get_page_by_offset first) s = Some s' \<and> roots_done Obj ps s s'"
  using assms(4-)
proof (induction ps arbitrary: first s)
  case Nil
  then have "dead_tbr_pages offset (get_page_by_offset first) s = Some s"
    by (subst dead_tbr_pages.simps) (simp add: get_page_by_offset_def)
  then show ?case by (simp add: roots_done_def all_roots_def gave_up_none)
next
  case (Cons p ps)
  let ?blocks = "dead_tbr_blocks offset (desc p) (root_blk p 0) (last_blk (data_area p) 16) (root_blk p 0) s"
  have pg: "root_page_ok offset p s" "off_page Obj p" and v: "valid_page p"
    using Cons.prems(2) by (auto simp: roots_ok_def root_page_ok_def)
  have split: "all_roots (p # ps) s = roots_from p s 0 @ all_roots ps s" by (simp add: all_roots_def)
  have rel: "releasable Obj (roots_from p s 0 @ all_roots ps s) s"
    using Cons.prems(2) by (simp add: roots_ok_def split)
  obtain s1 where s1: "?blocks = Some s1" "gave_up Obj (cells_from p 0) (roots_from p s 0) s s1" "page s1 = page s"
    using dead_tbr_walk[OF id Obj(1) pg(2) _ pg(1) releasable_front[OF rel]] by blast
  let ?s = "recovery_cxl_page_free (desc p) s1"
  have pages: "page ?s = (page s)(desc p := zero_page)" by (simp add: recovery_cxl_page_free_def state_simps s1(3))
  have gone: "gave_up Obj (cells_from p 0) (roots_from p s 0) s ?s"
    using s1(2) by (simp add: gave_up_def recovery_cxl_page_free_def state_simps obj_cnt_def)
  have keep: "root_page_ok offset q ?s" "roots_known Obj q ?s" "roots_from q ?s 0 = roots_from q s 0" "off_page Obj q"
    "desc q \<noteq> desc p" if "q \<in> set ps" for q
  proof -
    have q: "root_page_ok offset q s" "roots_known Obj q s" "off_page Obj q" "p \<noteq> q"
      using that Cons.prems(2) by (auto simp: roots_ok_def)
    have "segment ?s = segment s" using gone by (simp add: gave_up_def)
    note k = root_page_keeps[OF Obj(2) pg(2) q(4) v q(1,2) gave_up_other_page[OF gone v q(3,4)] this]
    show "root_page_ok offset q ?s" "roots_known Obj q ?s" by (rule k; simp add: pages)+
    show "roots_from q ?s 0 = roots_from q s 0" by (rule roots_from_cong, rule k) (simp_all add: pages)
    show "off_page Obj q" by (rule q(3))
    show "desc q \<noteq> desc p" using desc_inject[of q p] q v by (simp add: root_page_ok_def)
  qed
  have roots: "all_roots ps ?s = all_roots ps s"
    unfolding all_roots_def by (intro arg_cong[where f = concat] map_cong) (simp_all add: keep)
  have "roots_ok offset Obj ps ?s"
    using Cons.prems(2) keep releasable_later[OF rel gone] by (simp add: roots_ok_def roots)
  moreover have "chain (\<lambda>x. pg_next (page ?s x)) (pg_next (page s (desc p))) (map desc ps)"
  proof -
    have "chain (\<lambda>x. pg_next (page s x)) (pg_next (page s (desc p))) (map desc ps)" using Cons.prems(1) by simp
    then show ?thesis by (rule iffD1[OF chain_cong, rotated]) (use keep(5) pages in auto)
  qed
  ultimately obtain s' where s': "dead_tbr_pages offset (get_page_by_offset (pg_next (page s (desc p)))) ?s = Some s'"
    "roots_done Obj ps ?s s'"
    using Cons.IH by blast
  have bs: "page_bs (fst p) (snd p) s = 16" using pg(1) by (simp add: root_page_ok_def page_bs_def)
  have fl: "page_first (desc p) s = root_blk p 0" "page_last (desc p) s = last_blk (data_area p) 16"
    using page_first_last(2,3)[of "fst p" "snd p" s] v by (simp_all add: bs valid_page_def root_blk_def)
  have "get_page_by_offset first = Some (desc p)"
    using Cons.prems(1) desc_nonnull[OF v] by (auto simp: get_page_by_offset_def)
  then have "dead_tbr_pages offset (get_page_by_offset first) s = Some s'"
    using s1(1) s'(1) pg(1) fl by (subst dead_tbr_pages.simps) (simp add: Let_def root_page_ok_def)
  moreover have "roots_done Obj (p # ps) s s'"
    using gave_up_trans[OF gone, of "\<Union>p \<in> set ps. cells_from p 0" "all_roots ps s" s'] s'(2)
    by (simp add: roots_done_def split roots pages)
  ultimately show ?case by blast
qed

section \<open>A thread with root references and objects\<close>

text \<open>The pages with an object that is referred to from elsewhere too.\<close>

definition shared_pages :: "page_no set \<Rightarrow> u64 list \<Rightarrow> shm \<Rightarrow> page_no set" where
  "shared_pages ps roots s = {p \<in> ps. \<exists>b \<in> set (blocks_of (fst p) (snd p) s).
     b \<noteq> pg_free (page s (desc p)) \<and> count_list roots b < obj_cnt b s}"

lemma roots_done_page:
  assumes "roots_done Obj rs s s1" "\<forall>p \<in> set rs. valid_page p" "q \<notin> set rs" "obj_page_ok q s"
  shows "page s1 (desc q) = page s (desc q)" "obj_page_ok q s1"
    "blocks_of (fst q) (snd q) s1 = blocks_of (fst q) (snd q) s"
proof -
  have "valid_page q" using assms(4) by (simp add: obj_page_ok_def)
  then have "desc q \<notin> desc ` set rs" using desc_inject assms(2,3) by blast
  then show pg: "page s1 (desc q) = page s (desc q)" using assms(1) by (simp add: roots_done_def)
  show bl: "blocks_of (fst q) (snd q) s1 = blocks_of (fst q) (snd q) s" by (simp add: blocks_of_def page_bs_def pg)
  show "obj_page_ok q s1" using assms(4) by (simp add: obj_page_ok_def bl page_bs_def pg)
qed

lemma roots_done_held:
  assumes "roots_done Obj rs s s1" "page s1 (desc q) = page s (desc q)" "set (blocks_of (fst q) (snd q) s) \<subseteq> Obj"
  shows "held q s1 \<longleftrightarrow> (\<exists>b \<in> set (blocks_of (fst q) (snd q) s).
    b \<noteq> pg_free (page s (desc q)) \<and> count_list (all_roots rs s) b < obj_cnt b s)"
proof -
  have bl: "blocks_of (fst q) (snd q) s1 = blocks_of (fst q) (snd q) s" by (simp add: blocks_of_def page_bs_def assms(2))
  have "0 < obj_cnt b s1 \<longleftrightarrow> count_list (all_roots rs s) b < obj_cnt b s"
    if "b \<in> set (blocks_of (fst q) (snd q) s)" for b
  proof -
    have "obj_cnt b s1 + count_list (all_roots rs s) b = obj_cnt b s"
      using assms(1,3) that unfolding roots_done_def gave_up_def by blast
    then show ?thesis by linarith
  qed
  then show ?thesis by (simp add: held_def bl assms(2))
qed

lemma dead_thread_effect:
  assumes id: "valid_id (tid_of offset)" and Obj: "apart Obj" "on_pages Obj"
    and queues: "tls_sender_queue (tls s offset) = 0" "tls_receiver_queue (tls s offset) = 0"
    and pid: "tls_packed_id (tls s offset) = pid"
    and roots: "chain (\<lambda>x. pg_next (page s x)) (pq_first (tls_pages (tls s offset) 0)) (map desc rs)"
      "roots_ok offset Obj rs s"
    and chains: "\<forall>i. 2 \<le> i \<and> i < CXL_BIN_SIZE \<longrightarrow> bin_chain offset i (ps i) s"
    and pages: "\<forall>p \<in> set (all_pages ps CXL_BIN_SIZE). p \<notin> set rs \<and> obj_page_ok p s \<and>
      set (blocks_of (fst p) (snd p) s) \<subseteq> Obj"
    and dist: "distinct (all_pages ps CXL_BIN_SIZE)"
  shows "\<exists>s'. recovery_garbage_collection offset pid s = Some s' \<and>
    tls s' = (tls s)(offset := (reset_queues (tls s offset))\<lparr>tls_packed_id := 0\<rparr>) \<and>
    (\<forall>i < MAX_SEGMENT_NUM. sas_thread_id (sas s' (of_nat i)) =
       released_id offset (shared_pages (set (all_pages ps CXL_BIN_SIZE)) (all_roots rs s) s) s i) \<and>
    (\<forall>b \<in> Obj. (\<forall>p \<in> set (all_pages ps CXL_BIN_SIZE). b \<noteq> pg_free (page s (desc p))) \<longrightarrow>
       obj_cnt b s' + count_list (all_roots rs s) b = obj_cnt b s) \<and>
    (\<forall>b \<in> Obj. obj_cnt b s' + count_list (all_roots rs s) b \<in> {count_list (all_roots rs s) b, obj_cnt b s}) \<and>
    (\<forall>x. page s' x \<in> {zero_page, page s x}) \<and> (\<forall>p \<in> set rs. page s' (desc p) = zero_page)"
proof -
  let ?ps = "set (all_pages ps CXL_BIN_SIZE)" and ?roots = "all_roots rs s"
  obtain s1 where s1: "dead_tbr_pages offset (get_page_by_offset (pq_first (tls_pages (tls s offset) 0))) s = Some s1"
    "roots_done Obj rs s s1"
    using dead_tbr_pages_spec[OF id Obj roots] by blast
  then have gone: "gave_up Obj (\<Union>p \<in> set rs. cells_from p 0) ?roots s s1" by (simp add: roots_done_def)
  then have tls: "tls s1 = tls s" by (simp add: gave_up_def)
  have valid: "\<forall>p \<in> set rs. valid_page p" using roots(2) by (auto simp: roots_ok_def root_page_ok_def)
  have keep: "page s1 (desc p) = page s (desc p)" "obj_page_ok p s1" if "p \<in> ?ps" for p
    using roots_done_page(1,2)[OF s1(2) valid] pages that by blast+
  have chains1: "\<forall>i. 2 \<le> i \<and> i < CXL_BIN_SIZE \<longrightarrow> bin_chain offset i (ps i) s1"
  proof (intro allI impI)
    fix i assume i: "2 \<le> i \<and> i < CXL_BIN_SIZE"
    have "page s1 (desc p) = page s (desc p)" if "p \<in> set (ps i)" for p
      using that i by (intro keep(1)) (simp only: set_all_pages, blast)
    then have "\<forall>x \<in> set (map desc (ps i)). pg_next (page s1 x) = pg_next (page s x)" by simp
    from chain_cong[OF this] show "bin_chain offset i (ps i) s1"
      using chains i by (simp add: bin_chain_def tls)
  qed
  have ok1: "\<forall>p \<in> ?ps. obj_page_ok p s1" using keep(2) by blast
  obtain s2 s3 where s: "dead_bins offset s1 = Some s2" "for_range (free_dead_segment offset) 0 MAX_SEGMENT_NUM s2 = Some s3"
    "tls s3 = tls s1" "\<forall>x. page s3 x \<in> {zero_page, page s1 x}" "\<forall>b. obj_cnt b s3 \<in> {0, obj_cnt b s1}"
    "\<forall>i < MAX_SEGMENT_NUM. sas_thread_id (sas s3 (of_nat i)) = released_id offset {p \<in> ?ps. held p s1} s1 i"
    "\<forall>b. b \<notin> heads (all_pages ps CXL_BIN_SIZE) s1 \<longrightarrow> obj_cnt b s3 = obj_cnt b s1"
    using dead_pages_segments[OF chains1 ok1 dist] by blast
  have run: "recovery_garbage_collection offset pid s =
      Some (upd_tls offset (\<lambda>t. t\<lparr>tls_packed_id := 0\<rparr>) (upd_tls offset reset_queues s3))"
    by (rule recovery_run[OF s1(1) _ _ s(1,2)]) (simp_all add: tls s(3) queues pid)
  have "{p \<in> ?ps. held p s1} = shared_pages ?ps ?roots s"
    using roots_done_held[OF s1(2) keep(1)] pages by (auto simp: shared_pages_def)
  moreover have "released_id offset hp s1 i = released_id offset hp s i" for hp i
    using gone by (simp add: released_id_def to_release_def gave_up_def)
  moreover have "obj_cnt b s3 + count_list ?roots b = obj_cnt b s"
    if "b \<in> Obj" "\<forall>p \<in> ?ps. b \<noteq> pg_free (page s (desc p))" for b
  proof -
    have "b \<notin> heads (all_pages ps CXL_BIN_SIZE) s1" using that(2) keep(1) by (auto simp: heads_def)
    then have "obj_cnt b s3 = obj_cnt b s1" using s(7) by blast
    then show ?thesis using gone that(1) by (simp add: gave_up_def)
  qed
  moreover have "obj_cnt b s3 + count_list ?roots b \<in> {count_list ?roots b, obj_cnt b s}" if "b \<in> Obj" for b
  proof -
    have "obj_cnt b s1 + count_list ?roots b = obj_cnt b s" using gone that by (simp add: gave_up_def)
    then show ?thesis using s(5)[rule_format, of b] by auto
  qed
  moreover have "page s3 x \<in> {zero_page, page s x}" "x \<in> desc ` set rs \<Longrightarrow> page s3 x = zero_page" for x
    using s(4)[rule_format, of x] s1(2) by (auto simp: roots_done_def split: if_splits)
  ultimately show ?thesis using run s(3,6) tls by (simp add: state_simps obj_cnt_def)
qed

text \<open>
  C10: The recovery of a dead thread that has no message queue and whose root references lead to objects
  without embedded references: it returns; every object loses exactly the references the thread had to
  it, except that the count of the free block at the head of each of the thread's object pages is
  cleared; and of the thread's segments those are given back in which no object is referred to from
  elsewhere and which were not marked abandoned before.
\<close>

lemma dead_thread_released:
  assumes id: "valid_id (tid_of offset)" and Obj: "apart Obj" "on_pages Obj"
    and queues: "tls_sender_queue (tls s offset) = 0" "tls_receiver_queue (tls s offset) = 0"
    and pid: "tls_packed_id (tls s offset) = pid"
    and roots: "chain (\<lambda>x. pg_next (page s x)) (pq_first (tls_pages (tls s offset) 0)) (map desc rs)"
      "roots_ok offset Obj rs s"
    and chains: "\<forall>i. 2 \<le> i \<and> i < CXL_BIN_SIZE \<longrightarrow> bin_chain offset i (ps i) s"
    and pages: "\<forall>p \<in> set (all_pages ps CXL_BIN_SIZE). p \<notin> set rs \<and> obj_page_ok p s \<and>
      set (blocks_of (fst p) (snd p) s) \<subseteq> Obj"
    and dist: "distinct (all_pages ps CXL_BIN_SIZE)"
  shows "\<exists>s'. recovery_garbage_collection offset pid s = Some s' \<and>
    tls s' = (tls s)(offset := (reset_queues (tls s offset))\<lparr>tls_packed_id := 0\<rparr>) \<and>
    (\<forall>i < MAX_SEGMENT_NUM. sas_thread_id (sas s' (of_nat i)) =
       released_id offset (shared_pages (set (all_pages ps CXL_BIN_SIZE)) (all_roots rs s) s) s i) \<and>
    (\<forall>b \<in> Obj. (\<forall>p \<in> set (all_pages ps CXL_BIN_SIZE). b \<noteq> pg_free (page s (desc p))) \<longrightarrow>
       obj_cnt b s' + count_list (all_roots rs s) b = obj_cnt b s)"
  using dead_thread_effect[OF assms] by blast

end
