(* ===== verification/Graph_Release.thy ===== *)
theory Graph_Release
  imports Dead_Roots
begin

text \<open>
  Objects that refer to objects. The count of an object is the number of reference cells that name it;
  releasing a reference on behalf of a dead thread returns, keeps this invariant, and with the last
  reference to an object releases the references embedded in it, whatever the sharing.
\<close>

section \<open>The graph of objects\<close>

text \<open>
  The objects, the number of references embedded in each, the reference cells outside objects, and a
  rank that falls along references, so that there is no cycle.
\<close>

record obj_graph =
  gr_obj :: "u64 set"
  gr_emb :: "u64 \<Rightarrow> nat"
  gr_ext :: "u64 set"
  gr_rank :: "u64 \<Rightarrow> nat"

definition emb_ref :: "u64 \<Rightarrow> nat \<Rightarrow> u64" where
  "emb_ref b i = b + (sizeof_CXLObj + of_nat i * 8)"

definition emb_cells :: "obj_graph \<Rightarrow> u64 \<Rightarrow> u64 set" where
  "emb_cells g b = emb_ref b ` {..<gr_emb g b}"

definition ref_cells :: "obj_graph \<Rightarrow> u64 set" where
  "ref_cells g = gr_ext g \<union> (\<Union>b \<in> gr_obj g. emb_cells g b)"

definition graph_ok :: "obj_graph \<Rightarrow> bool" where
  "graph_ok g \<longleftrightarrow> apart (gr_obj g) \<and> finite (gr_obj g) \<and> finite (gr_ext g) \<and>
     headers (gr_obj g) \<inter> ref_cells g = {} \<and>
     (\<forall>x \<in> gr_obj g. gr_emb g x < 2 ^ 60 \<and> emb_cells g x \<inter> gr_ext g = {} \<and>
        (\<forall>y \<in> gr_obj g. x \<noteq> y \<longrightarrow> emb_cells g x \<inter> emb_cells g y = {}))"

definition referrers :: "obj_graph \<Rightarrow> u64 \<Rightarrow> shm \<Rightarrow> u64 set" where
  "referrers g b s = {r \<in> ref_cells g. cell s r = b}"

definition heap_ok :: "obj_graph \<Rightarrow> shm \<Rightarrow> bool" where
  "heap_ok g s \<longleftrightarrow>
     (\<forall>r \<in> ref_cells g. cell s r = 0 \<or> cell s r \<in> gr_obj g) \<and>
     (\<forall>b \<in> gr_obj g. obj_cnt b s = card (referrers g b s)) \<and>
     (\<forall>b \<in> gr_obj g. if obj_cnt b s = 0 then \<forall>r \<in> emb_cells g b. cell s r = 0
        else cell s (obj_emb b) = of_nat (gr_emb g b)) \<and>
     (\<forall>b \<in> gr_obj g. \<forall>r \<in> emb_cells g b. cell s r \<noteq> 0 \<longrightarrow> gr_rank g (cell s r) < gr_rank g b)"

text \<open>\<open>kept g R s s'\<close>: no count grew, and the references in an object that is still counted are the same, outside \<open>R\<close>.\<close>

definition kept :: "obj_graph \<Rightarrow> u64 set \<Rightarrow> shm \<Rightarrow> shm \<Rightarrow> bool" where
  "kept g R s s' \<longleftrightarrow> (\<forall>b \<in> gr_obj g. obj_cnt b s' \<le> obj_cnt b s \<and>
     (obj_cnt b s' \<noteq> 0 \<longrightarrow> (\<forall>x \<in> emb_cells g b. x \<notin> R \<longrightarrow> cell s' x = cell s x)))"

lemma kept_refl: "kept g R s s"
  by (simp add: kept_def)

lemma kept_trans:
  assumes "kept g R s s1" "kept g R' s1 s2"
  shows "kept g (R \<union> R') s s2"
  unfolding kept_def
proof (intro ballI conjI impI)
  fix b assume b: "b \<in> gr_obj g"
  note k = bspec[OF assms(1)[unfolded kept_def] b] bspec[OF assms(2)[unfolded kept_def] b]
  show "obj_cnt b s2 \<le> obj_cnt b s" using k by linarith
  fix x assume "obj_cnt b s2 \<noteq> 0" and x: "x \<in> emb_cells g b" "x \<notin> R \<union> R'"
  then have "obj_cnt b s1 \<noteq> 0" using k by linarith
  then show "cell s2 x = cell s x" using k x \<open>obj_cnt b s2 \<noteq> 0\<close> by simp
qed

lemma kept_mono: "kept g R s s' \<Longrightarrow> R \<subseteq> R' \<Longrightarrow> kept g R' s s'"
  by (auto simp: kept_def)

text \<open>
  \<open>shrinks g k R s s'\<close>: references were only removed, outside objects only those in \<open>R\<close>, and objects of
  rank \<open>k\<close> and above were left alone apart from the cells in \<open>R\<close>.
\<close>

definition same_meta :: "shm \<Rightarrow> shm \<Rightarrow> bool" where
  "same_meta s s' \<longleftrightarrow> page s' = page s \<and> segment s' = segment s \<and> tls s' = tls s \<and>
     (\<forall>i. sas_thread_id (sas s' i) = sas_thread_id (sas s i) \<and> sas_state (sas s' i) = sas_state (sas s i))"

definition shrinks :: "obj_graph \<Rightarrow> nat \<Rightarrow> u64 set \<Rightarrow> shm \<Rightarrow> shm \<Rightarrow> bool" where
  "shrinks g k R s s' \<longleftrightarrow> heap_ok g s' \<and> same_meta s s' \<and> kept g R s s' \<and>
     (\<forall>x \<in> ref_cells g. cell s' x \<in> {0, cell s x}) \<and>
     (\<forall>x. x \<notin> R \<longrightarrow> x \<notin> (\<Union>b \<in> {b \<in> gr_obj g. gr_rank g b < k}. obj_cells b \<union> emb_cells g b) \<longrightarrow> cell s' x = cell s x)"

lemma shrinks_refl: "heap_ok g s \<Longrightarrow> shrinks g k R s s"
  by (simp add: shrinks_def same_meta_def kept_refl)

lemma shrinks_trans:
  assumes "shrinks g k R s s1" "shrinks g k R' s1 s2"
  shows "shrinks g k (R \<union> R') s s2"
proof -
  have "cell s2 x \<in> {0, cell s x}" if "x \<in> ref_cells g" for x
  proof -
    have "cell s2 x \<in> {0, cell s1 x}" "cell s1 x \<in> {0, cell s x}" using assms that by (simp_all add: shrinks_def)
    then show ?thesis by auto
  qed
  moreover have "kept g (R \<union> R') s s2" using assms by (intro kept_trans[of g R s s1]) (simp_all add: shrinks_def)
  ultimately show ?thesis using assms by (simp add: shrinks_def same_meta_def)
qed

lemma shrinks_mono:
  assumes "shrinks g k R s s'" "k \<le> k'" "R \<subseteq> R'"
  shows "shrinks g k' R' s s'"
  using assms kept_mono unfolding shrinks_def by (auto dest: less_le_trans)

lemma shrinks_cell:
  assumes "shrinks g k R s s'" "x \<notin> R"
    "\<And>b. b \<in> gr_obj g \<Longrightarrow> gr_rank g b < k \<Longrightarrow> x \<notin> obj_cells b \<and> x \<notin> emb_cells g b"
  shows "cell s' x = cell s x"
  using assms unfolding shrinks_def by blast

section \<open>What the graph says about cells\<close>

lemma graph_okD:
  assumes "graph_ok g"
  shows "apart (gr_obj g)" "finite (ref_cells g)"
    "x \<in> headers (gr_obj g) \<Longrightarrow> x \<notin> ref_cells g"
    "b \<in> gr_obj g \<Longrightarrow> r \<in> emb_cells g b \<Longrightarrow> r \<in> ref_cells g"
    "b \<in> gr_obj g \<Longrightarrow> r \<in> emb_cells g b \<Longrightarrow> r \<notin> gr_ext g"
    "b \<in> gr_obj g \<Longrightarrow> c \<in> gr_obj g \<Longrightarrow> r \<in> emb_cells g b \<Longrightarrow> r \<in> emb_cells g c \<Longrightarrow> b = c"
    "b \<in> gr_obj g \<Longrightarrow> gr_emb g b < 2 ^ 60"
proof -
  show "b \<in> gr_obj g \<Longrightarrow> c \<in> gr_obj g \<Longrightarrow> r \<in> emb_cells g b \<Longrightarrow> r \<in> emb_cells g c \<Longrightarrow> b = c"
    using assms unfolding graph_ok_def by blast
qed (use assms in \<open>auto simp: graph_ok_def ref_cells_def emb_cells_def\<close>)

lemma header_not_ref:
  "graph_ok g \<Longrightarrow> b \<in> gr_obj g \<Longrightarrow> r \<in> ref_cells g \<Longrightarrow> r \<notin> obj_cells b"
  using graph_okD(3)[of g r] by (auto simp: headers_def)

lemma referrers_finite: "graph_ok g \<Longrightarrow> finite (referrers g b s)"
  using graph_okD(2)[of g] by (simp add: referrers_def)

text \<open>The references in an object without a count may go.\<close>

lemma kept_drop:
  assumes "graph_ok g" "b \<in> gr_obj g" "kept g (emb_cells g b \<union> R) s s'" "obj_cnt b s' = 0"
  shows "kept g R s s'"
  unfolding kept_def
proof (intro ballI conjI impI)
  fix c assume c: "c \<in> gr_obj g"
  note k = bspec[OF assms(3)[unfolded kept_def] c]
  show "obj_cnt c s' \<le> obj_cnt c s" using k by blast
  fix x assume live: "obj_cnt c s' \<noteq> 0" and x: "x \<in> emb_cells g c" "x \<notin> R"
  have "c \<noteq> b" using live assms(4) by auto
  then have "x \<notin> emb_cells g b" using graph_okD(6)[OF assms(1,2) c _ x(1)] by blast
  then show "cell s' x = cell s x" using k live x by blast
qed

lemma heap_okD:
  assumes "heap_ok g s"
  shows "r \<in> ref_cells g \<Longrightarrow> cell s r \<noteq> 0 \<Longrightarrow> cell s r \<in> gr_obj g"
    "b \<in> gr_obj g \<Longrightarrow> obj_cnt b s = card (referrers g b s)"
    "b \<in> gr_obj g \<Longrightarrow> obj_cnt b s \<noteq> 0 \<Longrightarrow> cell s (obj_emb b) = of_nat (gr_emb g b)"
    "b \<in> gr_obj g \<Longrightarrow> obj_cnt b s = 0 \<Longrightarrow> r \<in> emb_cells g b \<Longrightarrow> cell s r = 0"
    "b \<in> gr_obj g \<Longrightarrow> r \<in> emb_cells g b \<Longrightarrow> cell s r \<noteq> 0 \<Longrightarrow> gr_rank g (cell s r) < gr_rank g b"
proof -
  show "r \<in> ref_cells g \<Longrightarrow> cell s r \<noteq> 0 \<Longrightarrow> cell s r \<in> gr_obj g"
    "b \<in> gr_obj g \<Longrightarrow> obj_cnt b s = card (referrers g b s)"
    "b \<in> gr_obj g \<Longrightarrow> r \<in> emb_cells g b \<Longrightarrow> cell s r \<noteq> 0 \<Longrightarrow> gr_rank g (cell s r) < gr_rank g b"
    using assms unfolding heap_ok_def by blast+
  have "b \<in> gr_obj g \<Longrightarrow> (if obj_cnt b s = 0 then \<forall>r \<in> emb_cells g b. cell s r = 0
        else cell s (obj_emb b) = of_nat (gr_emb g b))"
    using assms unfolding heap_ok_def by blast
  then show "b \<in> gr_obj g \<Longrightarrow> obj_cnt b s \<noteq> 0 \<Longrightarrow> cell s (obj_emb b) = of_nat (gr_emb g b)"
    "b \<in> gr_obj g \<Longrightarrow> obj_cnt b s = 0 \<Longrightarrow> r \<in> emb_cells g b \<Longrightarrow> cell s r = 0" by simp_all
qed

lemma referred_counted:
  assumes "graph_ok g" "heap_ok g s" "r \<in> ref_cells g" "cell s r \<noteq> 0"
  shows "0 < obj_cnt (cell s r) s"
proof -
  have "r \<in> referrers g (cell s r) s" using assms(3) by (simp add: referrers_def)
  then have "0 < card (referrers g (cell s r) s)" using referrers_finite[OF assms(1)] by (auto simp: card_gt_0_iff)
  then show ?thesis using heap_okD(1,2)[OF assms(2)] assms(3,4) by simp
qed

section \<open>One reference\<close>

text \<open>The last reference may be given up when nothing is embedded in the object any more.\<close>

lemma unlink_shrinks:
  assumes id: "valid_id (tid_of offset)" and g: "graph_ok g" "heap_ok g s"
    and r: "r \<in> ref_cells g" "cell s r = b" "b \<noteq> 0"
    and last: "obj_cnt b s = 1 \<Longrightarrow> \<forall>x \<in> emb_cells g b. cell s x = 0"
  defines "s' \<equiv> recovery_unlink_reference r b offset s"
  shows "shrinks g (Suc (gr_rank g b)) {r} s s'" "cell s' r = 0" "obj_cnt b s' = obj_cnt b s - 1"
proof -
  have b: "b \<in> gr_obj g" using heap_okD(1)[OF g(2) r(1)] r(2,3) by simp
  have pos: "0 < obj_cnt b s" using referred_counted[OF g r(1)] r(2,3) by simp
  note u = recovery_unlink_counted[OF id pos header_not_ref[OF g(1) b r(1)], folded s'_def]
  show "cell s' r = 0" by (rule u(2))
  show dec: "obj_cnt b s' = obj_cnt b s - 1" using u(3) by simp
  have refs: "cell s' x = (if x = r then 0 else cell s x)" if "x \<in> ref_cells g" for x
    using u(1,2) header_not_ref[OF g(1) b that] by simp
  have hdr: "cell s' y = cell s y" if "c \<in> gr_obj g" "c \<noteq> b" "y \<in> obj_cells c" for c y
    using u(1) obj_cells_apart[OF graph_okD(1)[OF g(1)] that(1) b that(2,3)] header_not_ref[OF g(1) that(1) r(1)] that(3) by metis
  then have cnt_other: "obj_cnt c s' = obj_cnt c s" if "c \<in> gr_obj g" "c \<noteq> b" for c
    using that by (simp add: obj_cnt_def)
  have "heap_ok g s'"
    unfolding heap_ok_def
  proof (intro conjI ballI)
    fix x assume x: "x \<in> ref_cells g"
    show "cell s' x = 0 \<or> cell s' x \<in> gr_obj g" using refs[OF x] heap_okD(1)[OF g(2) x] by auto
  next
    fix c assume c: "c \<in> gr_obj g"
    have c0: "c \<noteq> 0" using graph_okD(1)[OF g(1)] c by (auto simp: apart_def)
    have set: "referrers g c s' = referrers g c s - (if c = b then {r} else {})"
      using refs c0 r(2) by (auto simp: referrers_def split: if_splits)
    show "obj_cnt c s' = card (referrers g c s')"
    proof (cases "c = b")
      case True
      have "r \<in> referrers g b s" using r by (simp add: referrers_def)
      then have "card (referrers g b s - {r}) + 1 = card (referrers g b s)"
        using referrers_finite[OF g(1)] by (metis add.commute card_Suc_Diff1 plus_1_eq_Suc)
      then show ?thesis using True set u(3) heap_okD(2)[OF g(2) b] by simp
    next
      case False
      then show ?thesis using set cnt_other[OF c] heap_okD(2)[OF g(2) c] by simp
    qed
    show "if obj_cnt c s' = 0 then \<forall>r \<in> emb_cells g c. cell s' r = 0 else cell s' (obj_emb c) = of_nat (gr_emb g c)"
    proof (cases "c = b")
      case True
      show ?thesis
      proof (cases "obj_cnt b s = 1")
        case one: True
        then show ?thesis using True u(3) last refs graph_okD(4)[OF g(1) b] by simp
      next
        case False
        then show ?thesis using True u(3,4) pos heap_okD(3)[OF g(2) b] by simp
      qed
    next
      case False
      then show ?thesis
        using cnt_other[OF c] hdr[OF c] heap_okD(3,4)[OF g(2) c] refs graph_okD(4)[OF g(1) c] by simp
    qed
  next
    fix c x assume c: "c \<in> gr_obj g" and x: "x \<in> emb_cells g c"
    have "cell s' x \<noteq> 0 \<longrightarrow> cell s' x = cell s x" using refs[OF graph_okD(4)[OF g(1) c x]] by simp
    then show "cell s' x \<noteq> 0 \<longrightarrow> gr_rank g (cell s' x) < gr_rank g c" using heap_okD(5)[OF g(2) c x] by auto
  qed
  moreover have "cell s' x = cell s x"
    if "x \<noteq> r" "x \<notin> (\<Union>c \<in> {c \<in> gr_obj g. gr_rank g c < Suc (gr_rank g b)}. obj_cells c \<union> emb_cells g c)" for x
    using u(1) that b by auto
  moreover have "kept g {r} s s'"
    unfolding kept_def
  proof (intro ballI conjI impI)
    fix c assume c: "c \<in> gr_obj g"
    show "obj_cnt c s' \<le> obj_cnt c s" using cnt_other[OF c] dec by (cases "c = b") simp_all
    fix x assume "x \<in> emb_cells g c" "x \<notin> {r}"
    then show "cell s' x = cell s x" using refs[OF graph_okD(4)[OF g(1) c]] by simp
  qed
  ultimately show "shrinks g (Suc (gr_rank g b)) {r} s s'"
    using refs u(5-9) by (simp add: shrinks_def same_meta_def)
qed

section \<open>The recursion\<close>

lemma embedded_cell:
  assumes "graph_ok g" "heap_ok g s" "b \<in> gr_obj g" "r \<in> emb_cells g b" "cell s r = c" "c \<noteq> 0"
  shows "c \<in> gr_obj g" "gr_rank g c < gr_rank g b"
  using heap_okD(1)[OF assms(2) graph_okD(4)[OF assms(1,3,4)]] heap_okD(5)[OF assms(2,3,4)] assms(5,6) by auto

lemma emb_ref_in: "i < gr_emb g b \<Longrightarrow> emb_ref b i \<in> emb_cells g b"
  by (simp add: emb_cells_def)

text \<open>The loop over the embedded references of \<open>b\<close>, when each single one can be released.\<close>

lemma release_embedded:
  assumes g: "graph_ok g" and b: "b \<in> gr_obj g"
    and one: "\<And>s r. heap_ok g s \<Longrightarrow> r \<in> ref_cells g \<Longrightarrow> cell s r \<noteq> 0 \<Longrightarrow> gr_rank g (cell s r) < gr_rank g b \<Longrightarrow>
      \<exists>s'. recovery_test_free offset r s = Some s' \<and> shrinks g (Suc (gr_rank g (cell s r))) {r} s s' \<and> cell s' r = 0"
    and "i \<le> gr_emb g b" "heap_ok g s" "cell s (obj_emb b) = of_nat (gr_emb g b)"
  shows "\<exists>s'. recovery_test_free_at offset (Inr (b, of_nat i)) s = Some s' \<and>
    shrinks g (gr_rank g b) (emb_cells g b) s s' \<and> (\<forall>j. i \<le> j \<longrightarrow> j < gr_emb g b \<longrightarrow> cell s' (emb_ref b j) = 0)"
  using assms(4-)
proof (induction i arbitrary: s rule: inc_induct)
  case base
  then show ?case
    by (subst recovery_test_free_at.simps) (simp add: shrinks_refl)
next
  case (step i)
  let ?r = "emb_ref b i"
  have r: "?r \<in> emb_cells g b" by (rule emb_ref_in[OF step.hyps(2)])
  have ref: "?r \<in> ref_cells g" by (rule graph_okD(4)[OF g b r])
  have "\<exists>s1. recovery_test_free offset ?r s = Some s1 \<and> shrinks g (gr_rank g b) {?r} s s1 \<and> cell s1 ?r = 0"
  proof (cases "cell s ?r = 0")
    case True
    then show ?thesis using recovery_test_free_null shrinks_refl[OF step.prems(1)] by blast
  next
    case False
    have rk: "gr_rank g (cell s ?r) < gr_rank g b" by (rule embedded_cell(2)[OF g step.prems(1) b r refl False])
    obtain s1 where s1: "recovery_test_free offset ?r s = Some s1"
      "shrinks g (Suc (gr_rank g (cell s ?r))) {?r} s s1" "cell s1 ?r = 0"
      using one[OF step.prems(1) ref False rk] by blast
    have "shrinks g (gr_rank g b) {?r} s s1" by (rule shrinks_mono[OF s1(2)]) (use rk in simp_all)
    then show ?thesis using s1(1,3) by blast
  qed
  then obtain s1 where s1: "recovery_test_free offset ?r s = Some s1" "shrinks g (gr_rank g b) {?r} s s1" "cell s1 ?r = 0"
    by blast
  have hp: "heap_ok g s1" using s1(2) by (simp add: shrinks_def)
  have "cell s1 (obj_emb b) = cell s (obj_emb b)"
  proof (rule shrinks_cell[OF s1(2)])
    show "obj_emb b \<notin> {?r}" using header_not_ref[OF g b ref] obj_cells_mem(3)[of b] by (metis singletonD)
    fix c assume c: "c \<in> gr_obj g" "gr_rank g c < gr_rank g b"
    then have "c \<noteq> b" by auto
    then show "obj_emb b \<notin> obj_cells c \<and> obj_emb b \<notin> emb_cells g c"
      using obj_cells_apart[OF graph_okD(1)[OF g] b c(1), of "obj_emb b"] headers_mem(3)[OF b] graph_okD(3,4)[OF g] c(1) by auto
  qed
  then have "cell s1 (obj_emb b) = of_nat (gr_emb g b)" using step.prems(2) by simp
  then obtain s' where s': "recovery_test_free_at offset (Inr (b, of_nat (Suc i))) s1 = Some s'"
    "shrinks g (gr_rank g b) (emb_cells g b) s1 s'" "\<forall>j. Suc i \<le> j \<longrightarrow> j < gr_emb g b \<longrightarrow> cell s' (emb_ref b j) = 0"
    using step.IH[OF hp] by blast
  have lt: "(of_nat i :: u64) < of_nat (gr_emb g b)"
    using step.hyps(2) graph_okD(7)[OF g b] by (simp add: word_less_nat_alt unat_of_nat)
  have "recovery_test_free_at offset (Inr (b, of_nat i)) s = Some s'"
    using s1(1) s'(1) lt step.prems(2)
    by (subst recovery_test_free_at.simps) (simp add: recovery_test_free_def emb_ref_def add.commute)
  moreover have "shrinks g (gr_rank g b) (emb_cells g b) s s'"
    by (rule shrinks_mono[OF shrinks_trans[OF s1(2) s'(2)]]) (use r in auto)
  moreover have "cell s' ?r = 0" using s'(2) s1(3) ref by (auto simp: shrinks_def)
  ultimately show ?case using s'(3) by (metis Suc_leI le_neq_implies_less)
qed

lemma release_graph:
  assumes id: "valid_id (tid_of offset)" and g: "graph_ok g"
    and "heap_ok g s" "r \<in> ref_cells g" "cell s r \<noteq> 0"
  shows "\<exists>s'. recovery_test_free offset r s = Some s' \<and> shrinks g (Suc (gr_rank g (cell s r))) {r} s s' \<and> cell s' r = 0"
  using assms(3-)
proof (induction "gr_rank g (cell s r)" arbitrary: s r rule: less_induct)
  case less
  let ?b = "cell s r"
  note heap = less.prems(1) and r = less.prems(2) and b0 = less.prems(3)
  have b: "?b \<in> gr_obj g" by (rule heap_okD(1)[OF heap r b0])
  have pos: "0 < obj_cnt ?b s" by (rule referred_counted[OF g heap r b0])
  show ?case
  proof (cases "1 < obj_cnt ?b s")
    case True
    have "recovery_test_free offset r s = Some (recovery_unlink_reference r ?b offset s)"
      by (rule recovery_test_free_shared[OF b0 True])
    then show ?thesis using unlink_shrinks[OF id g heap r refl b0] True by auto
  next
    case False
    then have one: "obj_cnt ?b s = 1" using pos by simp
    have emb: "cell s (obj_emb ?b) = of_nat (gr_emb g ?b)" using heap_okD(3)[OF heap b] one by simp
    obtain s1 where s1: "recovery_test_free_at offset (Inr (?b, of_nat 0)) s = Some s1"
      "shrinks g (gr_rank g ?b) (emb_cells g ?b) s s1" "\<forall>j < gr_emb g ?b. cell s1 (emb_ref ?b j) = 0"
      using release_embedded[OF g b less.hyps, of 0 s] heap emb by auto
    have self: "r \<notin> emb_cells g ?b" using embedded_cell(2)[OF g heap b _ refl b0] by blast
    have keep_r: "cell s1 r = ?b"
    proof (rule shrinks_cell[OF s1(2) self])
      fix c assume c: "c \<in> gr_obj g" "gr_rank g c < gr_rank g ?b"
      have "r \<notin> emb_cells g c" using embedded_cell(2)[OF g heap c(1) _ refl b0] c(2) by fastforce
      then show "r \<notin> obj_cells c \<and> r \<notin> emb_cells g c" using header_not_ref[OF g c(1) r] by simp
    qed
    have "cell s1 (obj_info ?b) = cell s (obj_info ?b)"
    proof (rule shrinks_cell[OF s1(2)])
      have hdr: "obj_info ?b \<notin> emb_cells g c" if "c \<in> gr_obj g" for c
        using headers_mem(2)[OF b] graph_okD(3,4)[OF g] that by blast
      then show "obj_info ?b \<notin> emb_cells g ?b" using b by blast
      fix c assume c: "c \<in> gr_obj g" "gr_rank g c < gr_rank g ?b"
      then have "c \<noteq> ?b" by auto
      then show "obj_info ?b \<notin> obj_cells c \<and> obj_info ?b \<notin> emb_cells g c"
        using obj_cells_apart[OF graph_okD(1)[OF g] b c(1), of "obj_info ?b"] hdr[OF c(1)] by auto
    qed
    then have one1: "obj_cnt ?b s1 = 1" using one by (simp add: obj_cnt_def)
    have heap1: "heap_ok g s1" using s1(2) by (simp add: shrinks_def)
    have last: "\<forall>x \<in> emb_cells g ?b. cell s1 x = 0" using s1(3) by (auto simp: emb_cells_def)
    let ?s = "recovery_unlink_reference r ?b offset s1"
    note u = unlink_shrinks[OF id g heap1 r keep_r b0 last]
    have "get_ref_cnt_from_info (cell s (obj_info ?b)) \<noteq> 0" "\<not> 0 < get_ref_cnt_from_info (cell s (obj_info ?b)) - 1"
      using False pos cnt_gt_one[of ?b s] by (auto simp: obj_cnt_def)
    then have "recovery_test_free offset r s = Some ?s"
      unfolding recovery_test_free_def
      by (subst recovery_test_free_at.simps) (use b0 s1(1) keep_r in \<open>simp add: Let_def\<close>)
    moreover have "shrinks g (Suc (gr_rank g ?b)) {r} s ?s"
    proof -
      have "shrinks g (Suc (gr_rank g ?b)) (emb_cells g ?b \<union> {r}) s ?s"
        by (rule shrinks_trans[OF shrinks_mono[OF s1(2)] u(1)]) simp_all
      moreover from this have "kept g {r} s ?s"
        unfolding shrinks_def by (intro kept_drop[OF g b, of "{r}"]) (simp_all add: u(3) one1)
      ultimately show ?thesis using b unfolding shrinks_def by auto
    qed
    ultimately show ?thesis using u(2) by blast
  qed
qed

end
