(* ===== verification/Graph_Roots.thy ===== *)
theory Graph_Roots
  imports Graph_Release
begin

text \<open>
  The walk over the root references of a dead thread on a graph of objects: the counts stay exact, and
  in the end none of its root references is left.
\<close>

section \<open>Giving up references of a graph\<close>

definition body :: "obj_graph \<Rightarrow> u64 set" where
  "body g = (\<Union>b \<in> gr_obj g. obj_cells b \<union> emb_cells g b)"

text \<open>
  \<open>gave g X s s'\<close>: references were only removed, and outside the objects only the cells \<open>X\<close> changed;
  segments keep their owners, and those that were abandoned still are.
\<close>

definition sas_kept :: "shm \<Rightarrow> shm \<Rightarrow> bool" where
  "sas_kept s s' \<longleftrightarrow> (\<forall>i. sas_thread_id (sas s' i) = sas_thread_id (sas s i) \<and>
     (sas_state (sas s i) = ABANDON \<longrightarrow> sas_state (sas s' i) = ABANDON))"

lemma sas_kept_trans: "sas_kept s s1 \<Longrightarrow> sas_kept s1 s2 \<Longrightarrow> sas_kept s s2"
  by (simp add: sas_kept_def)

lemma sas_kept_same: "sas s' = sas s \<Longrightarrow> sas_kept s s'"
  by (simp add: sas_kept_def)

lemma sas_kept_abandon: "sas s' = sas (set_sas_state ABANDON x s) \<Longrightarrow> sas_kept s s'"
  by (simp add: sas_kept_def set_sas_state_def state_simps)

definition gave :: "obj_graph \<Rightarrow> u64 set \<Rightarrow> shm \<Rightarrow> shm \<Rightarrow> bool" where
  "gave g X s s' \<longleftrightarrow> heap_ok g s' \<and> (\<forall>x \<in> ref_cells g. cell s' x \<in> {0, cell s x}) \<and>
     (\<forall>x. x \<notin> X \<longrightarrow> x \<notin> body g \<longrightarrow> cell s' x = cell s x) \<and> segment s' = segment s \<and> tls s' = tls s \<and>
     kept g X s s' \<and> sas_kept s s'"

lemma gave_refl: "heap_ok g s \<Longrightarrow> gave g X s s"
  by (simp add: gave_def kept_refl sas_kept_same)

lemma gave_trans:
  assumes "gave g X s s1" "gave g Y s1 s2"
  shows "gave g (X \<union> Y) s s2"
proof -
  have "cell s2 x \<in> {0, cell s x}" if "x \<in> ref_cells g" for x
  proof -
    have "cell s2 x \<in> {0, cell s1 x}" "cell s1 x \<in> {0, cell s x}" using assms that by (simp_all add: gave_def)
    then show ?thesis by auto
  qed
  moreover have "kept g (X \<union> Y) s s2" using assms by (intro kept_trans[of g X s s1]) (simp_all add: gave_def)
  moreover have "sas_kept s s2" using assms sas_kept_trans by (auto simp: gave_def)
  ultimately show ?thesis using assms by (simp add: gave_def)
qed

lemma gave_mono: "gave g X s s' \<Longrightarrow> X \<subseteq> Y \<Longrightarrow> gave g Y s s'"
  using kept_mono by (auto simp: gave_def)

lemma gave_heap: "gave g X s s' \<Longrightarrow> heap_ok g s'"
  by (simp add: gave_def)

lemma gave_cell: "gave g X s s' \<Longrightarrow> x \<notin> X \<Longrightarrow> x \<notin> body g \<Longrightarrow> cell s' x = cell s x"
  by (simp add: gave_def)

lemma gave_zero: "gave g X s s' \<Longrightarrow> x \<in> ref_cells g \<Longrightarrow> cell s x = 0 \<Longrightarrow> cell s' x = 0"
  unfolding gave_def by fastforce

lemma heap_ok_cong:
  assumes "heap_ok g s" "\<And>x. x \<in> ref_cells g \<or> x \<in> body g \<Longrightarrow> cell s' x = cell s x"
  shows "heap_ok g s'"
proof -
  have refs: "cell s' x = cell s x" if "x \<in> ref_cells g" for x using assms(2) that by blast
  have obj: "cell s' x = cell s x" if "b \<in> gr_obj g" "x \<in> obj_cells b \<union> emb_cells g b" for b x
    using assms(2) that by (auto simp: body_def)
  have "referrers g b s' = referrers g b s" for b using refs by (auto simp: referrers_def)
  moreover have "obj_cnt b s' = obj_cnt b s" "cell s' (obj_emb b) = cell s (obj_emb b)"
    "\<forall>x \<in> emb_cells g b. cell s' x = cell s x" if "b \<in> gr_obj g" for b
    using obj[OF that] by (simp_all add: obj_cnt_def)
  ultimately show ?thesis using assms(1) refs by (simp add: heap_ok_def)
qed

lemma kept_same:
  assumes "\<And>x. x \<in> body g \<Longrightarrow> cell s' x = cell s x"
  shows "kept g X s s'"
  unfolding kept_def
proof (intro ballI conjI impI)
  fix b assume b: "b \<in> gr_obj g"
  have "obj_info b \<in> body g" using b obj_cells_mem(2)[of b] unfolding body_def by blast
  then show "obj_cnt b s' \<le> obj_cnt b s" using assms by (simp add: obj_cnt_def)
  fix x assume "x \<in> emb_cells g b"
  then show "cell s' x = cell s x" using b assms by (auto simp: body_def)
qed

lemma gave_write:
  assumes "heap_ok g s" "\<And>x. x \<in> ref_cells g \<or> x \<in> body g \<Longrightarrow> cell s' x = cell s x"
    "\<And>x. x \<notin> X \<Longrightarrow> cell s' x = cell s x" "segment s' = segment s" "tls s' = tls s" "sas_kept s s'"
  shows "gave g X s s'"
  using assms heap_ok_cong[OF assms(1,2)] kept_same[of g s' s X] by (simp add: gave_def)

lemma shrinks_gave: "shrinks g k R s s' \<Longrightarrow> gave g R s s'"
  unfolding shrinks_def gave_def same_meta_def body_def sas_kept_def by auto

lemma headers_body: "headers (gr_obj g) \<subseteq> body g"
  by (auto simp: headers_def body_def)

lemma release_ref:
  assumes "valid_id (tid_of offset)" "graph_ok g" "heap_ok g s" "r \<in> ref_cells g" "cell s r \<noteq> 0"
  shows "\<exists>s'. recovery_test_free offset r s = Some s' \<and> gave g {r} s s' \<and> page s' = page s \<and> cell s' r = 0"
proof -
  obtain s' where s': "recovery_test_free offset r s = Some s'" "shrinks g (Suc (gr_rank g (cell s r))) {r} s s'" "cell s' r = 0"
    using release_graph[OF assms] by blast
  then show ?thesis using shrinks_gave[OF s'(2)] by (auto simp: shrinks_def same_meta_def)
qed

section \<open>A page of root references\<close>

definition graph_off :: "obj_graph \<Rightarrow> page_no \<Rightarrow> bool" where
  "graph_off g p \<longleftrightarrow> (\<forall>x \<in> body g. \<not> in_page (fst p) (snd p) x) \<and> (\<forall>j < block_cnt 16. root_blk p j + 8 \<notin> ref_cells g)"

text \<open>The references of the page that count are the completed ones in use.\<close>

definition root_fit :: "obj_graph \<Rightarrow> page_no \<Rightarrow> shm \<Rightarrow> nat \<Rightarrow> bool" where
  "root_fit g p s j \<longleftrightarrow> (root_blk p j \<in> ref_cells g \<and> cell s (root_blk p j) \<noteq> 0 \<longleftrightarrow> root_target p s j \<noteq> [])"

lemma graph_off_page: "graph_off g p \<Longrightarrow> off_page (gr_obj g) p"
  using headers_body[of g] by (auto simp: graph_off_def off_page_def)

lemma dead_tbr_graph:
  assumes id: "valid_id (tid_of offset)" and g: "graph_ok g" "heap_ok g s" "graph_off g p"
    and pg: "root_page_ok offset p s" "j < block_cnt 16" "get_in_use (cell s (root_blk p j + 8)) = 1"
    and fit: "root_fit g p s j"
  shows "\<exists>s'. dead_tbr offset (root_blk p 0) (last_blk (data_area p) 16) (root_blk p j) s = Some s' \<and>
    gave g {root_blk p j, root_blk p j + 8} s s' \<and> page s' = page s \<and> cell s' (root_blk p j) = 0"
proof -
  let ?b = "root_blk p j"
  let ?r = "cell s ?b"
  let ?named = "?r \<noteq> 0 \<and> ?r \<noteq> pg_free (page s (cxl_ptr_page ?r)) \<and> \<not> own_block p ?r"
  have v: "valid_page p" using pg(1) by (simp add: root_page_ok_def)
  have off: "?b \<notin> body g" "?b + 8 \<notin> body g" "?b + 8 \<notin> ref_cells g"
    using g(3) root_blk_in[OF v pg(2)] pg(2) by (auto simp: graph_off_def)
  have tgt: "?named \<longleftrightarrow> ?b \<in> ref_cells g \<and> ?r \<noteq> 0"
    using pg(3) fit by (simp add: root_fit_def root_target_def Let_def)
  have "\<exists>s1. (if ?named then recovery_test_free offset ?b s else Some s) = Some s1 \<and>
      gave g {?b} s s1 \<and> page s1 = page s \<and> (?b \<in> ref_cells g \<longrightarrow> cell s1 ?b = 0)"
  proof (cases ?named)
    case True
    then have "?b \<in> ref_cells g" "?r \<noteq> 0" using tgt by simp_all
    then obtain s1 where "recovery_test_free offset ?b s = Some s1" "gave g {?b} s s1" "page s1 = page s" "cell s1 ?b = 0"
      using release_ref[OF id g(1,2)] by blast
    then show ?thesis using True by simp
  next
    case False
    then show ?thesis using tgt gave_refl[OF g(2)] by auto
  qed
  then obtain s1 where s1: "(if ?named then recovery_test_free offset ?b s else Some s) = Some s1"
    "gave g {?b} s s1" "page s1 = page s" "?b \<in> ref_cells g \<longrightarrow> cell s1 ?b = 0" by blast
  let ?s2 = "set_cell (?b + 8) (set_in_use 0 (cell s1 (?b + 8))) s1"
  let ?s = "clear_cells ?b 2 ?s2"
  have "root_page_ok offset p ?s2"
    using pg(1) s1(2,3) by (simp add: root_page_ok_def state_simps gave_def)
  then have run: "dead_tbr offset (root_blk p 0) (last_blk (data_area p) 16) ?b s = Some ?s"
    using s1(1) pg(2) by (simp add: dead_tbr_def Let_def root_free own_block_def)
  have cell: "cell ?s x = (if x = ?b \<or> x = ?b + 8 then 0 else cell s1 x)" for x
    by (auto simp: cell_clear_cells state_simps less_Suc_eq numeral_2_eq_2)
  have "gave g {?b, ?b + 8} s1 ?s"
    by (rule gave_write[OF gave_heap[OF s1(2)]]) (use cell off s1(4) in \<open>auto simp: state_simps sas_kept_same\<close>)
  from gave_mono[OF gave_trans[OF s1(2) this]] have "gave g {?b, ?b + 8} s ?s" by simp
  then show ?thesis using run cell s1(3) by (intro exI[of _ ?s]) (simp add: state_simps)
qed

lemma root_fit_cong:
  assumes "root_fit g p s m" "cell s' (root_blk p m) = cell s (root_blk p m)" "root_target p s' m = root_target p s m"
  shows "root_fit g p s' m"
  using assms by (simp add: root_fit_def)

lemma dead_tbr_walk_graph:
  assumes id: "valid_id (tid_of offset)" and g: "graph_ok g" "graph_off g p"
    and "j \<le> block_cnt 16" "heap_ok g s" "root_page_ok offset p s" "\<forall>m. j \<le> m \<longrightarrow> m < block_cnt 16 \<longrightarrow> root_fit g p s m"
  shows "\<exists>s'. dead_tbr_blocks offset (desc p) (root_blk p 0) (last_blk (data_area p) 16) (root_blk p j) s = Some s' \<and>
    gave g (cells_from p j) s s' \<and> page s' = page s \<and>
    (\<forall>m. j \<le> m \<longrightarrow> m < block_cnt 16 \<longrightarrow> root_blk p m \<in> ref_cells g \<longrightarrow> cell s' (root_blk p m) = 0)"
  using assms(4-)
proof (induction j arbitrary: s rule: inc_induct)
  case base
  have ok: "area_ok (data_area p) 16" using base(2) by (intro area_ok_root) (simp add: root_page_ok_def)
  have "\<not> root_blk p (block_cnt 16) \<le> last_blk (data_area p) 16"
    using blk_le_last[OF ok, of "block_cnt 16"] by (simp add: root_blk_def)
  then show ?case using base(1) by (subst dead_tbr_blocks.simps) (simp add: gave_refl)
next
  case (step j)
  let ?b = "root_blk p j"
  have j: "j < block_cnt 16" by (rule step.hyps(2))
  have v: "valid_page p" and bs: "pg_block_size (page s (desc p)) = 16"
    using step.prems(2) by (simp_all add: root_page_ok_def)
  have le: "?b \<le> last_blk (data_area p) 16"
    using blk_le_last[OF area_ok_root[OF v], of j] j by (simp add: root_blk_def)
  have nxt: "?b + ucast (pg_block_size (page s (desc p))) = root_blk p (Suc j)"
    by (simp add: bs root_blk_def blk_Suc)
  have fit: "root_fit g p s j" using step.prems(3) j by blast
  have "\<exists>s1. (if get_in_use (cell s (?b + 8)) = 1
        then dead_tbr offset (root_blk p 0) (last_blk (data_area p) 16) ?b s else Some s) = Some s1 \<and>
      gave g {?b, ?b + 8} s s1 \<and> page s1 = page s \<and> (?b \<in> ref_cells g \<longrightarrow> cell s1 ?b = 0)"
  proof (cases "get_in_use (cell s (?b + 8)) = 1")
    case True
    then show ?thesis using dead_tbr_graph[OF id g(1) step.prems(1) g(2) step.prems(2) j True fit] by auto
  next
    case False
    then show ?thesis using gave_refl[OF step.prems(1)] fit by (simp add: root_target_def root_fit_def Let_def)
  qed
  then obtain s1 where s1: "(if get_in_use (cell s (?b + 8)) = 1
        then dead_tbr offset (root_blk p 0) (last_blk (data_area p) 16) ?b s else Some s) = Some s1"
      "gave g {?b, ?b + 8} s s1" "page s1 = page s" "?b \<in> ref_cells g \<longrightarrow> cell s1 ?b = 0"
    by blast
  have off: "x \<notin> body g" if "in_page (fst p) (snd p) x" for x using g(2) that by (auto simp: graph_off_def)
  have fit1: "root_fit g p s1 m" if "Suc j \<le> m" "m < block_cnt 16" for m
  proof -
    have mj: "m \<noteq> j" and fm: "root_fit g p s m" using that step.prems(3) by auto
    have same: "cell s1 (root_blk p m) = cell s (root_blk p m)" "cell s1 (root_blk p m + 8) = cell s (root_blk p m + 8)"
      using root_blk_apart[OF v that(2) j mj] off[OF root_blk_in(1)[OF v that(2)]] off[OF root_blk_in(2)[OF v that(2)]]
      by (auto intro!: gave_cell[OF s1(2)])
    show ?thesis by (rule root_fit_cong[OF fm same(1) root_target_cong[OF same]]) (simp add: s1(3))
  qed
  have ok1: "root_page_ok offset p s1" using step.prems(2) s1(2,3) by (simp add: root_page_ok_def gave_def)
  obtain s' where s': "dead_tbr_blocks offset (desc p) (root_blk p 0) (last_blk (data_area p) 16) (root_blk p (Suc j)) s1 = Some s'"
    "gave g (cells_from p (Suc j)) s1 s'" "page s' = page s1"
    "\<forall>m. Suc j \<le> m \<longrightarrow> m < block_cnt 16 \<longrightarrow> root_blk p m \<in> ref_cells g \<longrightarrow> cell s' (root_blk p m) = 0"
    using step.IH[OF gave_heap[OF s1(2)] ok1] fit1 by blast
  have "dead_tbr_blocks offset (desc p) (root_blk p 0) (last_blk (data_area p) 16) ?b s = Some s'"
    using s1(1) s'(1) le nxt by (subst dead_tbr_blocks.simps) (auto simp: Let_def split: if_splits)
  moreover have "gave g (cells_from p j) s s'"
    unfolding cells_from_Suc[OF j] by (rule gave_trans[OF s1(2) s'(2)])
  moreover have "?b \<in> ref_cells g \<longrightarrow> cell s' ?b = 0" using s1(4) gave_zero[OF s'(2)] by blast
  ultimately show ?case using s1(3) s'(3,4) by (metis Suc_leI le_neq_implies_less)
qed

section \<open>All pages\<close>

definition roots_fit :: "obj_graph \<Rightarrow> u64 \<Rightarrow> page_no list \<Rightarrow> shm \<Rightarrow> bool" where
  "roots_fit g offset ps s \<longleftrightarrow> distinct ps \<and>
     (\<forall>p \<in> set ps. root_page_ok offset p s \<and> roots_known (gr_obj g) p s \<and> graph_off g p \<and>
        (\<forall>j < block_cnt 16. root_fit g p s j))"

definition root_cells_of :: "page_no list \<Rightarrow> u64 set" where
  "root_cells_of ps = (\<Union>p \<in> set ps. cells_from p 0)"

definition roots_empty :: "obj_graph \<Rightarrow> page_no list \<Rightarrow> shm \<Rightarrow> bool" where
  "roots_empty g ps s \<longleftrightarrow> (\<forall>x \<in> root_cells_of ps. x \<in> ref_cells g \<longrightarrow> cell s x = 0)"

lemma dead_tbr_pages_graph:
  assumes id: "valid_id (tid_of offset)" and g: "graph_ok g" "on_pages (gr_obj g)"
    and "chain (\<lambda>x. pg_next (page s x)) first (map desc ps)" "heap_ok g s" "roots_fit g offset ps s"
  shows "\<exists>s'. dead_tbr_pages offset (get_page_by_offset first) s = Some s' \<and> gave g (root_cells_of ps) s s' \<and>
    (\<forall>x. page s' x = (if x \<in> desc ` set ps then zero_page else page s x)) \<and> roots_empty g ps s'"
  using assms(4-)
proof (induction ps arbitrary: first s)
  case Nil
  then have "dead_tbr_pages offset (get_page_by_offset first) s = Some s"
    by (subst dead_tbr_pages.simps) (simp add: get_page_by_offset_def)
  then show ?case using Nil by (simp add: gave_refl roots_empty_def root_cells_of_def)
next
  case (Cons p ps)
  let ?blocks = "dead_tbr_blocks offset (desc p) (root_blk p 0) (last_blk (data_area p) 16) (root_blk p 0) s"
  have pg: "root_page_ok offset p s" "graph_off g p" and v: "valid_page p" and fit: "\<forall>j < block_cnt 16. root_fit g p s j"
    using Cons.prems(3) by (auto simp: roots_fit_def root_page_ok_def)
  obtain s1 where s1: "?blocks = Some s1" "gave g (cells_from p 0) s s1" "page s1 = page s"
    "\<forall>m < block_cnt 16. root_blk p m \<in> ref_cells g \<longrightarrow> cell s1 (root_blk p m) = 0"
    using dead_tbr_walk_graph[OF id g(1) pg(2) _ Cons.prems(2) pg(1), of 0] fit by auto
  let ?s = "recovery_cxl_page_free (desc p) s1"
  have pages: "page ?s = (page s)(desc p := zero_page)" by (simp add: recovery_cxl_page_free_def state_simps s1(3))
  have cell: "cell ?s = cell s1" by (simp add: recovery_cxl_page_free_def state_simps)
  have "gave g {} s1 ?s"
    by (rule gave_write[OF gave_heap[OF s1(2)]]) (simp_all add: recovery_cxl_page_free_def state_simps sas_kept_same)
  from gave_trans[OF s1(2) this] have gone: "gave g (cells_from p 0) s ?s" by simp
  have keep: "root_page_ok offset q ?s \<and> roots_known (gr_obj g) q ?s \<and> graph_off g q \<and> (\<forall>j < block_cnt 16. root_fit g q ?s j)"
    "desc q \<noteq> desc p" if "q \<in> set ps" for q
  proof -
    have q: "root_page_ok offset q s" "roots_known (gr_obj g) q s" "graph_off g q" "p \<noteq> q" "\<forall>j < block_cnt 16. root_fit g q s j"
      using that Cons.prems(3) by (auto simp: roots_fit_def)
    have vq: "valid_page q" using q(1) by (simp add: root_page_ok_def)
    have cells: "cell ?s x = cell s x" if x: "in_page (fst q) (snd q) x" for x
    proof (rule gave_cell[OF gone])
      show "x \<notin> body g" using q(3) x by (auto simp: graph_off_def)
      show "x \<notin> cells_from p 0" using in_page_unique[OF x] cells_from_in[OF v] q(4) by (metis prod_eqI)
    qed
    have "segment ?s = segment s" using gone by (simp add: gave_def)
    note k = root_page_keeps[OF g(2) graph_off_page[OF pg(2)] q(4) v q(1,2) cells this]
    have "root_page_ok offset q ?s" "roots_known (gr_obj g) q ?s" by (rule k; simp add: pages)+
    moreover have "root_fit g q ?s j" if j: "j < block_cnt 16" for j
      by (rule root_fit_cong[OF q(5)[rule_format, OF j] cells[OF root_blk_in(1)[OF vq j]]])
         (rule k(3)[OF _ _ j]; simp add: pages)
    ultimately show "root_page_ok offset q ?s \<and> roots_known (gr_obj g) q ?s \<and> graph_off g q \<and>
        (\<forall>j < block_cnt 16. root_fit g q ?s j)" using q(3) by blast
    show "desc q \<noteq> desc p" using desc_inject[OF vq v] q(4) by simp
  qed
  have "roots_fit g offset ps ?s" using Cons.prems(3) keep(1) by (simp add: roots_fit_def)
  moreover have "chain (\<lambda>x. pg_next (page ?s x)) (pg_next (page s (desc p))) (map desc ps)"
  proof -
    have "chain (\<lambda>x. pg_next (page s x)) (pg_next (page s (desc p))) (map desc ps)" using Cons.prems(1) by simp
    then show ?thesis by (rule iffD1[OF chain_cong, rotated]) (use keep(2) pages in auto)
  qed
  ultimately obtain s' where s': "dead_tbr_pages offset (get_page_by_offset (pg_next (page s (desc p)))) ?s = Some s'"
    "gave g (root_cells_of ps) ?s s'" "\<forall>x. page s' x = (if x \<in> desc ` set ps then zero_page else page ?s x)"
    "roots_empty g ps s'"
    using Cons.IH[OF _ gave_heap[OF gone]] by blast
  have bs: "page_bs (fst p) (snd p) s = 16" using pg(1) by (simp add: root_page_ok_def page_bs_def)
  have fl: "page_first (desc p) s = root_blk p 0" "page_last (desc p) s = last_blk (data_area p) 16"
    using page_first_last(2,3)[of "fst p" "snd p" s] v by (simp_all add: bs valid_page_def root_blk_def)
  have "get_page_by_offset first = Some (desc p)"
    using Cons.prems(1) desc_nonnull[OF v] by (auto simp: get_page_by_offset_def)
  then have "dead_tbr_pages offset (get_page_by_offset first) s = Some s'"
    using s1(1) s'(1) pg(1) fl by (subst dead_tbr_pages.simps) (simp add: Let_def root_page_ok_def)
  moreover have "gave g (root_cells_of (p # ps)) s s'"
    using gave_trans[OF gone s'(2)] by (simp add: root_cells_of_def)
  moreover have "cell s' x = 0" if x: "x \<in> cells_from p 0" "x \<in> ref_cells g" for x
  proof -
    obtain m where m: "m < block_cnt 16" "x = root_blk p m"
      using x pg(2) by (auto simp: cells_from_def graph_off_def)
    then have "cell ?s x = 0" using s1(4) x(2) cell by simp
    then show ?thesis by (rule gave_zero[OF s'(2) x(2)])
  qed
  then have "roots_empty g (p # ps) s'" using s'(4) by (auto simp: roots_empty_def root_cells_of_def)
  ultimately show ?case using s'(3) pages by auto
qed

end
