(* ===== verification/Graph_Queues.thy ===== *)
theory Graph_Queues
  imports Graph_Roots
begin

text \<open>
  The message queues of a dead thread on a graph of objects. The walks over the queues it sent to and
  over those it received from have the same shape; a locale holds what they share.
\<close>

section \<open>The ring\<close>

lemma ring_idx_list_mem:
  assumes "h < 16" "t < 16" "i < 16"
  shows "i \<in> set (ring_idx_list h t) \<longleftrightarrow> (if h \<le> t then h \<le> i \<and> i < t else h \<le> i \<or> i < t)"
proof
  assume "i \<in> set (ring_idx_list h t)"
  then obtain j where j: "j < ring_len 16 h t" "i = (h + j) mod 16"
    by (auto simp: ring_idx_list_def ring_list_def)
  then have "i = (if h + j < 16 then h + j else h + j - 16)"
    using assms ring_len_bound[of h 16 t] ring_idx[of h 16 j] by simp
  then show "if h \<le> t then h \<le> i \<and> i < t else h \<le> i \<or> i < t"
    using j(1) assms by (auto simp: ring_len_def split: if_splits)
next
  assume i: "if h \<le> t then h \<le> i \<and> i < t else h \<le> i \<or> i < t"
  define j where "j = (if h \<le> i then i - h else i + 16 - h)"
  have "j < ring_len 16 h t" "i = (h + j) mod 16"
    using i assms by (auto simp: j_def ring_len_def split: if_splits)
  then show "i \<in> set (ring_idx_list h t)" by (auto simp: ring_idx_list_def ring_list_def)
qed

lemma ring_cover:
  assumes "h < 16" "t < 16" "i < 16"
  shows "i = t \<or> i \<in> set (ring_idx_list ((t + 1) mod 16) h) \<or> i \<in> set (ring_idx_list h t)"
proof -
  have "(t + 1) mod 16 < 16" by simp
  then show ?thesis
    using assms ring_succ[OF assms(2)] by (auto simp: ring_idx_list_mem split: if_splits)
qed

section \<open>One queue\<close>

definition slot_cells :: "u64 \<Rightarrow> u64 set" where
  "slot_cells q = (\<lambda>i. mq_slot q (of_nat i)) ` {..<16}"

definition queue_writes :: "u64 \<Rightarrow> u64 set" where
  "queue_writes q = insert (mq_ids q) (slot_cells q)"

text \<open>The slots are references of the graph, and the rest of the queue lies apart from it.\<close>

definition queue_apart :: "obj_graph \<Rightarrow> u64 \<Rightarrow> bool" where
  "queue_apart g q \<longleftrightarrow> (\<forall>x \<in> slot_cells q. x \<in> ref_cells g) \<and>
     (\<forall>x \<in> mq_cells q. x \<notin> body g \<and> (x \<notin> slot_cells q \<longrightarrow> x \<notin> ref_cells g))"

lemma slot_mem: "i < 16 \<Longrightarrow> mq_slot q (of_nat i) \<in> slot_cells q"
  by (simp add: slot_cells_def)

lemma slots_in: "slot_cells q \<subseteq> mq_cells q"
  using mq_cells_mem(5) by (auto simp: slot_cells_def)

lemma mq_next_mem: "mq_sender_next q \<in> mq_cells q"
  unfolding mq_cells_def mq_offsets by (rule imageI) simp

lemma offset_not_slot:
  assumes "j < 5"
  shows "q + of_nat (8 * j) \<notin> slot_cells q"
proof
  assume "q + of_nat (8 * j) \<in> slot_cells q"
  then obtain i where i: "i < 16" "q + of_nat (8 * j) = mq_slot q (of_nat i)" by (auto simp: slot_cells_def)
  then have "q + of_nat (8 * j) = q + of_nat (8 * (5 + i))" by (simp only: mq_offsets(6))
  then have "8 * j = 8 * (5 + i)" using assms i(1) by (subst (asm) off_inject) simp_all
  then show False using assms by simp
qed

lemma head_not_slot:
  "mq_start q \<notin> slot_cells q" "mq_end q \<notin> slot_cells q" "mq_ids q \<notin> slot_cells q"
  "mq_sender_next q \<notin> slot_cells q" "mq_receiver_next q \<notin> slot_cells q"
  "mq_sender_next q \<noteq> mq_ids q" "mq_receiver_next q \<noteq> mq_ids q" "mq_start q \<noteq> mq_ids q" "mq_end q \<noteq> mq_ids q"
  unfolding mq_offsets by (rule offset_not_slot; simp)+ (subst off_inject; simp)+

lemma free_slot_graph:
  assumes id: "valid_id (tid_of offset)" and g: "graph_ok g" "queue_apart g q" "heap_ok g s" and i: "i < 16"
  shows "\<exists>s'. free_slot (recovery_test_free offset) q (of_nat i) s = Some s' \<and> gave g (slot_cells q) s s' \<and>
    page s' = page s \<and> cell s' (mq_slot q (of_nat i)) = 0"
proof (cases "cell s (mq_slot q (of_nat i)) = 0")
  case True
  then show ?thesis using gave_refl[OF g(3)] by (simp add: free_slot_def)
next
  case False
  have r: "mq_slot q (of_nat i) \<in> ref_cells g" using g(2) slot_mem[OF i] by (simp add: queue_apart_def)
  obtain s' where s': "recovery_test_free offset (mq_slot q (of_nat i)) s = Some s'" "gave g {mq_slot q (of_nat i)} s s'"
    "page s' = page s" "cell s' (mq_slot q (of_nat i)) = 0"
    using release_ref[OF id g(1,3) r False] by blast
  have "gave g (slot_cells q) s s'" by (rule gave_mono[OF s'(2)]) (simp add: slot_mem[OF i])
  then show ?thesis using s' False by (simp add: free_slot_def)
qed

lemma queue_cell:
  assumes "queue_apart g q" "gave g (slot_cells q) s s'" "x \<in> mq_cells q" "x \<notin> slot_cells q"
  shows "cell s' x = cell s x"
  using assms by (intro gave_cell[OF assms(2)]) (simp_all add: queue_apart_def)

lemma drain_graph:
  assumes id: "valid_id (tid_of offset)" and g: "graph_ok g" "queue_apart g q"
    and h: "h < 16" "t < 16" and fld: "fld \<in> {mq_start q, mq_end q}" "cell s fld = of_nat t" and heap: "heap_ok g s"
  shows "\<exists>s'. drain_slots (recovery_test_free offset) q fld (of_nat h) s = Some s' \<and> gave g (slot_cells q) s s' \<and>
    page s' = page s \<and> (\<forall>i \<in> set (ring_idx_list h t). cell s' (mq_slot q (of_nat i)) = 0)"
  using h fld(2) heap
proof (induction "ring_len 16 h t" arbitrary: h s)
  case 0
  then have "h = t" by (auto simp: ring_len_def split: if_splits)
  then show ?case
    using 0 gave_refl by (subst drain_slots.simps) (simp add: ring_idx_list_step)
next
  case (Suc n)
  let ?h = "(h + 1) mod 16"
  have ne: "h \<noteq> t" using Suc.hyps(2) by (auto simp: ring_len_def)
  have list: "ring_idx_list h t = h # ring_idx_list ?h t" using ring_idx_list_step[OF Suc.prems(1,2)] ne by simp
  have len: "n = ring_len 16 ?h t"
    using Suc.hyps(2) Suc.prems(1,2) ne unfolding ring_succ[OF Suc.prems(1)] by (auto simp: ring_len_def)
  obtain s1 where s1: "free_slot (recovery_test_free offset) q (of_nat h) s = Some s1" "gave g (slot_cells q) s s1"
    "page s1 = page s" "cell s1 (mq_slot q (of_nat h)) = 0"
    using free_slot_graph[OF id g Suc.prems(4,1)] by blast
  have "cell s1 fld = of_nat t"
    using fld(1) Suc.prems(3) queue_cell[OF g(2) s1(2)] mq_cells_mem(1,2)[of q] head_not_slot(1,2)[of q] by auto
  then obtain s' where s': "drain_slots (recovery_test_free offset) q fld (of_nat ?h) s1 = Some s'"
    "gave g (slot_cells q) s1 s'" "page s' = page s1" "\<forall>i \<in> set (ring_idx_list ?h t). cell s' (mq_slot q (of_nat i)) = 0"
    using Suc.hyps(1)[OF len _ Suc.prems(2) _ gave_heap[OF s1(2)]] by auto
  have "(of_nat h :: u64) \<noteq> of_nat t"
    using ne unat_of_nat16[OF Suc.prems(1)] unat_of_nat16[OF Suc.prems(2)] by metis
  moreover have "((of_nat h :: u64) + 1) mod MESSAGE_BUFFER_SIZE = of_nat ?h"
    using unat_ring_succ[of "of_nat h"] unat_of_nat16[OF Suc.prems(1)] unat_of_nat16[of ?h] Suc.prems(1)
    by (simp add: word_unat_eq_iff)
  ultimately have "drain_slots (recovery_test_free offset) q fld (of_nat h) s = Some s'"
    using s1(1) s'(1) Suc.prems(3) by (subst drain_slots.simps) simp
  moreover have "gave g (slot_cells q) s s'" using gave_trans[OF s1(2) s'(2)] by simp
  moreover have "cell s' (mq_slot q (of_nat h)) = 0"
    using gave_zero[OF s'(2) _ s1(4)] g(2) slot_mem[OF Suc.prems(1), of q] by (simp add: queue_apart_def)
  ultimately show ?case using s'(3,4) s1(3) unfolding list by auto
qed

text \<open>The sender empties the slots that are not pending, and the pending ones too when nobody receives.\<close>

lemma sender_slots_graph:
  assumes id: "valid_id (tid_of offset)" and g: "graph_ok g" "queue_apart g q" "heap_ok g s" and ok: "mq_ok q s"
  shows "\<exists>s'. sender_slots (recovery_test_free offset) q s = Some s' \<and> gave g (slot_cells q) s s' \<and> page s' = page s \<and>
    (\<forall>i < 16. i \<notin> set (ring_idx_list (unat (cell s (mq_start q))) (unat (cell s (mq_end q)))) \<or>
       get_receiver_id (cell s (mq_ids q)) = 0 \<longrightarrow> cell s' (mq_slot q (of_nat i)) = 0)"
proof -
  let ?h = "unat (cell s (mq_start q))" and ?t = "unat (cell s (mq_end q))"
  let ?free = "recovery_test_free offset"
  have b: "?h < 16" "?t < 16" using ok by (simp_all add: mq_ok_def)
  have n: "(?t + 1) mod 16 < 16" by simp
  obtain s1 where s1: "free_slot ?free q (of_nat ?t) s = Some s1" "gave g (slot_cells q) s s1" "page s1 = page s"
    "cell s1 (mq_slot q (of_nat ?t)) = 0"
    using free_slot_graph[OF id g b(2)] by blast
  note same1 = queue_cell[OF g(2) s1(2)]
  have st1: "cell s1 (mq_start q) = of_nat ?h" using same1 mq_cells_mem(1)[of q] head_not_slot(1)[of q] by simp
  obtain s2 where s2: "drain_slots ?free q (mq_start q) (of_nat ((?t + 1) mod 16)) s1 = Some s2"
    "gave g (slot_cells q) s1 s2" "page s2 = page s1"
    "\<forall>i \<in> set (ring_idx_list ((?t + 1) mod 16) ?h). cell s2 (mq_slot q (of_nat i)) = 0"
    using drain_graph[OF id g(1,2) n b(1) _ st1 gave_heap[OF s1(2)]] by blast
  have gave2: "gave g (slot_cells q) s s2" using gave_trans[OF s1(2) s2(2)] by simp
  note same2 = queue_cell[OF g(2) gave2]
  have heads: "cell s2 (mq_start q) = of_nat ?h" "cell s2 (mq_end q) = of_nat ?t" "cell s2 (mq_ids q) = cell s (mq_ids q)"
    using same2 mq_cells_mem(1-3)[of q] head_not_slot(1-3)[of q] by simp_all
  obtain s3 where s3: "drain_slots ?free q (mq_end q) (of_nat ?h) s2 = Some s3" "gave g (slot_cells q) s2 s3" "page s3 = page s2"
    "\<forall>i \<in> set (ring_idx_list ?h ?t). cell s3 (mq_slot q (of_nat i)) = 0"
    using drain_graph[OF id g(1,2) b _ heads(2) gave_heap[OF gave2]] by blast
  have slot: "mq_slot q (of_nat i) \<in> ref_cells g" if "i < 16" for i using g(2) slot_mem[OF that] by (simp add: queue_apart_def)
  have rest: "cell s2 (mq_slot q (of_nat i)) = 0" if "i < 16" "i \<notin> set (ring_idx_list ?h ?t)" for i
    using ring_cover[OF b that(1)] that s2(4) gave_zero[OF s2(2) slot[OF b(2)] s1(4)] by auto
  have "((cell s (mq_end q)) + 1) mod MESSAGE_BUFFER_SIZE = of_nat ((?t + 1) mod 16)"
    using unat_ring_succ[OF b(2)] unat_of_nat16[OF n] by (simp add: word_unat_eq_iff)
  then have run: "sender_slots ?free q s = (if get_receiver_id (cell s (mq_ids q)) = 0 then Some s3 else Some s2)"
    using s1(1) s2(1) s3(1) heads by (simp add: sender_slots_def)
  show ?thesis
  proof (cases "get_receiver_id (cell s (mq_ids q)) = 0")
    case True
    have "cell s3 (mq_slot q (of_nat i)) = 0" if "i < 16" for i
      using rest[OF that] s3(4) gave_zero[OF s3(2) slot[OF that]] by blast
    then show ?thesis
      using run True s1(3) s2(3) s3(3) gave_trans[OF gave2 s3(2)] by simp
  next
    case False
    then show ?thesis using run rest s1(3) s2(3) gave2 by auto
  qed
qed

section \<open>All queues\<close>

definition queues_fit :: "obj_graph \<Rightarrow> u64 list \<Rightarrow> shm \<Rightarrow> bool" where
  "queues_fit g qs s \<longleftrightarrow> distinct qs \<and> (\<forall>q \<in> set qs. q \<noteq> 0 \<and> queue_apart g q \<and> mq_ok q s) \<and>
     (\<forall>q \<in> set qs. \<forall>q' \<in> set qs. q \<noteq> q' \<longrightarrow> mq_cells q \<inter> mq_cells q' = {})"

text \<open>
  A walk over a list of queues: one step per queue, and the next queue is read before the step. An
  effect on one queue that depends on the cells of the queue alone holds for each of them in the end.
\<close>

locale queue_walk =
  fixes loop step :: "u64 \<Rightarrow> shm \<Rightarrow> shm option" and nxt :: "u64 \<Rightarrow> u64"
  assumes loop_end: "loop 0 s = Some s"
    and loop_step: "q \<noteq> 0 \<Longrightarrow> loop q s = Option.bind (step q s) (loop (cell s (nxt q)))"
    and nxt_cell: "nxt q \<in> mq_cells q - queue_writes q"
begin

lemma walk:
  assumes "chain (\<lambda>q. cell s (nxt q)) first qs" "queues_fit g qs s" "heap_ok g s"
    and one: "\<And>q s. queue_apart g q \<Longrightarrow> heap_ok g s \<Longrightarrow> mq_ok q s \<Longrightarrow>
      \<exists>s'. step q s = Some s' \<and> gave g (queue_writes q) s s' \<and> page s' = page s \<and> P q s s'"
    and local: "\<And>q s s' t t'. P q s s' \<Longrightarrow> \<forall>x \<in> mq_cells q. cell t x = cell s x \<and> cell t' x = cell s' x \<Longrightarrow> P q t t'"
  shows "\<exists>s'. loop first s = Some s' \<and> gave g (\<Union>q \<in> set qs. queue_writes q) s s' \<and> page s' = page s \<and> (\<forall>q \<in> set qs. P q s s')"
  using assms(1-3)
proof (induction qs arbitrary: first s)
  case Nil
  then show ?case using loop_end gave_refl by auto
next
  case (Cons q qs)
  have q: "first = q" "q \<noteq> 0" "queue_apart g q" "mq_ok q s" "q \<notin> set qs"
    using Cons.prems(1,2) by (auto simp: queues_fit_def)
  obtain s1 where s1: "step q s = Some s1" "gave g (queue_writes q) s s1" "page s1 = page s" "P q s s1"
    using one[OF q(3) Cons.prems(3) q(4)] by blast
  have writes: "queue_writes p \<subseteq> mq_cells p" for p using slots_in mq_cells_mem(3) by (auto simp: queue_writes_def)
  have other: "cell s1 x = cell s x" if "p \<in> set qs" "x \<in> mq_cells p" for p x
  proof (rule gave_cell[OF s1(2)])
    have "mq_cells q \<inter> mq_cells p = {}" "queue_apart g p" using Cons.prems(2) that(1) q(5) by (auto simp: queues_fit_def)
    then show "x \<notin> queue_writes q" "x \<notin> body g" using that(2) writes[of q] by (auto simp: queue_apart_def)
  qed
  have fit: "queues_fit g qs s1"
    using Cons.prems(2) other mq_cells_mem(1,2) by (simp add: queues_fit_def mq_ok_def)
  have "chain (\<lambda>q. cell s (nxt q)) (cell s (nxt q)) qs" using Cons.prems(1) by simp
  then have "chain (\<lambda>q. cell s1 (nxt q)) (cell s (nxt q)) qs"
    by (rule iffD1[OF chain_cong, rotated]) (use other nxt_cell in auto)
  then obtain s' where s': "loop (cell s (nxt q)) s1 = Some s'" "gave g (\<Union>q \<in> set qs. queue_writes q) s1 s'"
    "page s' = page s1" "\<forall>p \<in> set qs. P p s1 s'"
    using Cons.IH[OF _ fit gave_heap[OF s1(2)]] by blast
  have "cell s' x = cell s1 x" if x: "x \<in> mq_cells q" for x
  proof (rule gave_cell[OF s'(2)])
    show "x \<notin> body g" using q(3) x by (simp add: queue_apart_def)
    have "x \<notin> queue_writes p" if "p \<in> set qs" for p
      using Cons.prems(2) that q(5) x writes[of p] by (fastforce simp: queues_fit_def)
    then show "x \<notin> (\<Union>q \<in> set qs. queue_writes q)" by blast
  qed
  then have "P q s s'" by (intro local[OF s1(4)]) simp
  moreover have "P p s s'" if "p \<in> set qs" for p
  proof (rule local[of p s1 s'])
    show "P p s1 s'" using s'(4) that by blast
    show "\<forall>x \<in> mq_cells p. cell s x = cell s1 x \<and> cell s' x = cell s' x" using other[OF that] by simp
  qed
  moreover have "loop first s = Some s'" using loop_step[OF q(2)] s1(1) s'(1) q(1) by simp
  ultimately show ?case
    using gave_trans[OF s1(2) s'(2)] s'(3) s1(3) by (intro exI[of _ s']) simp
qed

end

definition sender_one :: "u64 \<Rightarrow> u64 \<Rightarrow> shm \<Rightarrow> shm option" where
  "sender_one offset q s = do {
     s \<leftarrow> sender_slots (recovery_test_free offset) q s;
     Some (set_sas_state ABANDON q (set_cell (mq_ids q) (set_sender_id 0 (cell s (mq_ids q))) s)) }"

definition receiver_one :: "u64 \<Rightarrow> u64 \<Rightarrow> shm \<Rightarrow> shm option" where
  "receiver_one offset q s = do {
     s \<leftarrow> drain_slots (recovery_test_free offset) q (mq_end q) (cell s (mq_start q)) s;
     Some (set_cell (mq_ids q) (set_receiver_id 0 (cell s (mq_ids q))) s) }"

interpretation sq: queue_walk "sender_queues (recovery_test_free offset)" "sender_one offset" mq_sender_next for offset
proof
  show "sender_queues (recovery_test_free offset) 0 s = Some s" for s by (subst sender_queues.simps) simp
  show "sender_queues (recovery_test_free offset) q s =
      Option.bind (sender_one offset q s) (sender_queues (recovery_test_free offset) (cell s (mq_sender_next q)))"
    if "q \<noteq> 0" for q s
    unfolding sender_queues.simps[of _ q] sender_one_def Let_def
    using that by (cases "sender_slots (recovery_test_free offset) q s") simp_all
  show "mq_sender_next q \<in> mq_cells q - queue_writes q" for q
    using mq_next_mem head_not_slot(4,6) by (simp add: queue_writes_def)
qed

interpretation rq: queue_walk "receiver_queues (recovery_test_free offset)" "receiver_one offset" mq_receiver_next for offset
proof
  show "receiver_queues (recovery_test_free offset) 0 s = Some s" for s by (subst receiver_queues.simps) simp
  show "receiver_queues (recovery_test_free offset) q s =
      Option.bind (receiver_one offset q s) (receiver_queues (recovery_test_free offset) (cell s (mq_receiver_next q)))"
    if "q \<noteq> 0" for q s
    unfolding receiver_queues.simps[of _ q] receiver_one_def Let_def
    using that by (cases "drain_slots (recovery_test_free offset) q (mq_end q) (cell s (mq_start q)) s") simp_all
  show "mq_receiver_next q \<in> mq_cells q - queue_writes q" for q
    using mq_cells_mem(4) head_not_slot(5,7) by (simp add: queue_writes_def)
qed

section \<open>Both walks\<close>

definition pending_idx :: "u64 \<Rightarrow> shm \<Rightarrow> nat set" where
  "pending_idx q s = set (ring_idx_list (unat (cell s (mq_start q))) (unat (cell s (mq_end q))))"

definition sent_off :: "u64 \<Rightarrow> shm \<Rightarrow> shm \<Rightarrow> bool" where
  "sent_off q s s' \<longleftrightarrow> get_sender_id (cell s' (mq_ids q)) = 0 \<and>
     get_receiver_id (cell s' (mq_ids q)) = get_receiver_id (cell s (mq_ids q)) \<and>
     (\<forall>i < 16. i \<notin> pending_idx q s \<or> get_receiver_id (cell s (mq_ids q)) = 0 \<longrightarrow> cell s' (mq_slot q (of_nat i)) = 0)"

definition received_off :: "u64 \<Rightarrow> shm \<Rightarrow> shm \<Rightarrow> bool" where
  "received_off q s s' \<longleftrightarrow> get_receiver_id (cell s' (mq_ids q)) = 0 \<and>
     get_sender_id (cell s' (mq_ids q)) = get_sender_id (cell s (mq_ids q)) \<and>
     (\<forall>i < 16. i \<in> pending_idx q s \<longrightarrow> cell s' (mq_slot q (of_nat i)) = 0)"

lemma pending_idx_lt: "mq_ok q s \<Longrightarrow> i \<in> pending_idx q s \<Longrightarrow> i < 16"
  using ring_idx_list_bounds by (auto simp: pending_idx_def mq_ok_def)

lemma pending_idx_cong:
  "\<forall>x \<in> mq_cells q. cell t x = cell s x \<Longrightarrow> pending_idx q t = pending_idx q s"
  using mq_cells_mem(1,2) by (simp add: pending_idx_def)

lemma write_ids:
  assumes "queue_apart g q" "gave g (slot_cells q) s s1" "heap_ok g s1"
    and s': "cell s' = (cell s1)(mq_ids q := v)" "segment s' = segment s1" "tls s' = tls s1" "sas_kept s1 s'"
  shows "gave g (queue_writes q) s s'"
proof -
  have "mq_ids q \<notin> body g" "mq_ids q \<notin> ref_cells g"
    using assms(1) mq_cells_mem(3)[of q] head_not_slot(3)[of q] by (auto simp: queue_apart_def)
  then have "gave g {mq_ids q} s1 s'" by (intro gave_write[OF assms(3)]) (auto simp: s')
  from gave_trans[OF assms(2) this] show ?thesis by (simp add: queue_writes_def)
qed

lemma sender_one_spec:
  assumes "valid_id (tid_of offset)" "graph_ok g" "queue_apart g q" "heap_ok g s" "mq_ok q s"
  shows "\<exists>s'. sender_one offset q s = Some s' \<and> gave g (queue_writes q) s s' \<and> page s' = page s \<and> sent_off q s s'"
proof -
  obtain s1 where s1: "sender_slots (recovery_test_free offset) q s = Some s1" "gave g (slot_cells q) s s1" "page s1 = page s"
    "\<forall>i < 16. i \<notin> pending_idx q s \<or> get_receiver_id (cell s (mq_ids q)) = 0 \<longrightarrow> cell s1 (mq_slot q (of_nat i)) = 0"
    using sender_slots_graph[OF assms] by (auto simp: pending_idx_def)
  let ?s = "set_sas_state ABANDON q (set_cell (mq_ids q) (set_sender_id 0 (cell s1 (mq_ids q))) s1)"
  have "cell s1 (mq_ids q) = cell s (mq_ids q)"
    using queue_cell[OF assms(3) s1(2)] mq_cells_mem(3)[of q] head_not_slot(3)[of q] by simp
  then have "sent_off q s ?s"
    using s1(4) by (auto simp: sent_off_def set_sas_state_def state_simps mq_distinct(10))
  moreover have "gave g (queue_writes q) s ?s"
    by (rule write_ids[OF assms(3) s1(2) gave_heap[OF s1(2)]])
       (simp_all add: set_sas_state_def state_simps sas_kept_def)
  ultimately show ?thesis
    using s1(1,3) by (intro exI[of _ ?s]) (simp add: sender_one_def set_sas_state_def state_simps)
qed

lemma receiver_one_spec:
  assumes "valid_id (tid_of offset)" "graph_ok g" "queue_apart g q" "heap_ok g s" "mq_ok q s"
  shows "\<exists>s'. receiver_one offset q s = Some s' \<and> gave g (queue_writes q) s s' \<and> page s' = page s \<and> received_off q s s'"
proof -
  let ?h = "unat (cell s (mq_start q))" and ?t = "unat (cell s (mq_end q))"
  have b: "?h < 16" "?t < 16" using assms(5) by (simp_all add: mq_ok_def)
  have e: "cell s (mq_end q) = of_nat ?t" by simp
  obtain s1 where s1: "drain_slots (recovery_test_free offset) q (mq_end q) (of_nat ?h) s = Some s1"
    "gave g (slot_cells q) s s1" "page s1 = page s" "\<forall>i \<in> pending_idx q s. cell s1 (mq_slot q (of_nat i)) = 0"
    using drain_graph[OF assms(1-3) b _ e assms(4)] by (auto simp: pending_idx_def)
  let ?s = "set_cell (mq_ids q) (set_receiver_id 0 (cell s1 (mq_ids q))) s1"
  have "cell s1 (mq_ids q) = cell s (mq_ids q)"
    using queue_cell[OF assms(3) s1(2)] mq_cells_mem(3)[of q] head_not_slot(3)[of q] by simp
  then have "received_off q s ?s"
    using s1(4) pending_idx_lt[OF assms(5)] by (auto simp: received_off_def state_simps mq_distinct(10))
  moreover have "gave g (queue_writes q) s ?s"
    by (rule write_ids[OF assms(3) s1(2) gave_heap[OF s1(2)]]) (simp_all add: state_simps sas_kept_same)
  ultimately show ?thesis
    using s1(1,3) by (intro exI[of _ ?s]) (simp add: receiver_one_def state_simps)
qed

lemma sent_off_local:
  assumes "sent_off q s s'" "\<forall>x \<in> mq_cells q. cell t x = cell s x \<and> cell t' x = cell s' x"
  shows "sent_off q t t'"
proof -
  have "pending_idx q t = pending_idx q s" by (rule pending_idx_cong) (use assms(2) in simp)
  moreover have "cell t' (mq_slot q (of_nat i)) = cell s' (mq_slot q (of_nat i))" if "i < 16" for i
    using assms(2) mq_cells_mem(5)[OF that] by simp
  ultimately show ?thesis using assms mq_cells_mem(3)[of q] by (simp add: sent_off_def)
qed

lemma received_off_local:
  assumes "received_off q s s'" "\<forall>x \<in> mq_cells q. cell t x = cell s x \<and> cell t' x = cell s' x"
  shows "received_off q t t'"
proof -
  have "pending_idx q t = pending_idx q s" by (rule pending_idx_cong) (use assms(2) in simp)
  moreover have "cell t' (mq_slot q (of_nat i)) = cell s' (mq_slot q (of_nat i))" if "i < 16" for i
    using assms(2) mq_cells_mem(5)[OF that] by simp
  ultimately show ?thesis using assms mq_cells_mem(3)[of q] by (simp add: received_off_def)
qed

text \<open>
  The queues of the dead thread, when each of them has no other user: it sent to those without a
  receiver, or is itself the receiver, and it received from those without a sender.
\<close>

definition queues_left :: "obj_graph \<Rightarrow> u64 list \<Rightarrow> u64 list \<Rightarrow> shm \<Rightarrow> bool" where
  "queues_left g qs rs s \<longleftrightarrow> queues_fit g qs s \<and> queues_fit g rs s \<and>
     (\<forall>q \<in> set qs. \<forall>r \<in> set rs. q \<noteq> r \<longrightarrow> mq_cells q \<inter> mq_cells r = {}) \<and>
     (\<forall>q \<in> set qs. get_receiver_id (cell s (mq_ids q)) = 0 \<or> q \<in> set rs) \<and>
     (\<forall>q \<in> set rs. q \<in> set qs \<or> get_sender_id (cell s (mq_ids q)) = 0 \<and>
        (\<forall>i < 16. i \<notin> pending_idx q s \<longrightarrow> cell s (mq_slot q (of_nat i)) = 0))"

definition queue_gone :: "u64 \<Rightarrow> shm \<Rightarrow> bool" where
  "queue_gone q s \<longleftrightarrow> \<not> queue_used q s \<and> (\<forall>x \<in> slot_cells q. cell s x = 0)"

lemma queues_released:
  assumes id: "valid_id (tid_of offset)" and g: "graph_ok g" "heap_ok g s" and qs: "queues_left g qs rs s"
    and chains: "chain (\<lambda>q. cell s (mq_sender_next q)) fs qs" "chain (\<lambda>q. cell s (mq_receiver_next q)) fr rs"
  shows "\<exists>s1 s2. sender_queues (recovery_test_free offset) fs s = Some s1 \<and>
    receiver_queues (recovery_test_free offset) fr s1 = Some s2 \<and> tls s1 = tls s \<and>
    gave g (\<Union>q \<in> set qs \<union> set rs. queue_writes q) s s2 \<and> page s2 = page s \<and> (\<forall>q \<in> set qs \<union> set rs. queue_gone q s2)"
proof -
  have fit: "queues_fit g qs s" "queues_fit g rs s" using qs by (simp_all add: queues_left_def)
  have apart: "mq_cells q \<inter> mq_cells r = {}" if "q \<in> set qs \<union> set rs" "r \<in> set qs \<union> set rs" "q \<noteq> r" for q r
  proof -
    have d: "\<forall>q \<in> set qs. \<forall>r \<in> set qs. q \<noteq> r \<longrightarrow> mq_cells q \<inter> mq_cells r = {}"
      "\<forall>q \<in> set rs. \<forall>r \<in> set rs. q \<noteq> r \<longrightarrow> mq_cells q \<inter> mq_cells r = {}"
      "\<forall>q \<in> set qs. \<forall>r \<in> set rs. q \<noteq> r \<longrightarrow> mq_cells q \<inter> mq_cells r = {}"
      using qs by (simp_all add: queues_left_def queues_fit_def)
    have "mq_cells q \<inter> mq_cells r = {} \<or> mq_cells r \<inter> mq_cells q = {}"
      using that(1,2) by (elim UnE) (use d that(3) in simp_all)
    then show ?thesis by (simp add: Int_commute)
  qed
  have body: "x \<notin> body g" if "x \<in> mq_cells q" "q \<in> set qs \<union> set rs" for x q
    using fit that by (auto simp: queues_fit_def queue_apart_def)
  have untouched: "x \<notin> (\<Union>p \<in> Q. queue_writes p)"
    if "x \<in> mq_cells q" "x \<notin> queue_writes q \<or> q \<notin> Q" "q \<in> set qs \<union> set rs" "Q \<subseteq> set qs \<union> set rs" for x q Q
  proof -
    have "x \<notin> queue_writes p" if "p \<in> Q" "p \<noteq> q" for p
      using apart[of q p] that \<open>x \<in> mq_cells q\<close> \<open>q \<in> _\<close> \<open>Q \<subseteq> _\<close> slots_in[of p] mq_cells_mem(3)[of p]
      by (auto simp: queue_writes_def)
    then show ?thesis using that(2) by blast
  qed
  have "\<exists>s1. sender_queues (recovery_test_free offset) fs s = Some s1 \<and>
    gave g (\<Union>q \<in> set qs. queue_writes q) s s1 \<and> page s1 = page s \<and> (\<forall>q \<in> set qs. sent_off q s s1)"
    by (rule sq.walk[OF chains(1) fit(1) g(2)], erule (2) sender_one_spec[OF id g(1)], erule (1) sent_off_local)
  then obtain s1 where s1: "sender_queues (recovery_test_free offset) fs s = Some s1"
    "gave g (\<Union>q \<in> set qs. queue_writes q) s s1" "page s1 = page s" "\<forall>q \<in> set qs. sent_off q s s1"
    by blast
  have same: "cell s1 x = cell s x" if "x \<in> mq_cells q" "x \<notin> queue_writes q \<or> q \<notin> set qs" "q \<in> set qs \<union> set rs" for x q
    using gave_cell[OF s1(2) untouched[OF that] body[OF that(1,3)]] by blast
  have head: "cell s1 x = cell s x" if "x \<in> {mq_start q, mq_end q, mq_receiver_next q}" "q \<in> set qs \<union> set rs" for x q
    using that mq_cells_mem(1,2,4)[of q] head_not_slot[of q] by (intro same[OF _ _ that(2)]) (auto simp: queue_writes_def)
  have heads: "cell s1 (mq_start q) = cell s (mq_start q)" "cell s1 (mq_end q) = cell s (mq_end q)"
    "cell s1 (mq_receiver_next q) = cell s (mq_receiver_next q)" if "q \<in> set qs \<union> set rs" for q
    by (rule head[OF _ that]; simp)+
  have pend: "pending_idx q s1 = pending_idx q s" if "q \<in> set qs \<union> set rs" for q
    using heads[OF that] by (simp add: pending_idx_def)
  have fit1: "queues_fit g rs s1" using fit(2) heads by (simp add: queues_fit_def mq_ok_def)
  have ch: "chain (\<lambda>q. cell s1 (mq_receiver_next q)) fr rs"
    by (rule iffD1[OF chain_cong chains(2)]) (use heads in simp)
  have "\<exists>s2. receiver_queues (recovery_test_free offset) fr s1 = Some s2 \<and>
    gave g (\<Union>q \<in> set rs. queue_writes q) s1 s2 \<and> page s2 = page s1 \<and> (\<forall>q \<in> set rs. received_off q s1 s2)"
    by (rule rq.walk[OF ch fit1 gave_heap[OF s1(2)]], erule (2) receiver_one_spec[OF id g(1)], erule (1) received_off_local)
  then obtain s2 where s2: "receiver_queues (recovery_test_free offset) fr s1 = Some s2"
    "gave g (\<Union>q \<in> set rs. queue_writes q) s1 s2" "page s2 = page s1" "\<forall>q \<in> set rs. received_off q s1 s2"
    by blast
  have slot_ref: "mq_slot q (of_nat i) \<in> ref_cells g" if "q \<in> set qs \<union> set rs" "i < 16" for q i
    using fit that slot_mem[OF that(2), of q] by (auto simp: queues_fit_def queue_apart_def)
  have gone: "queue_gone q s2" if q: "q \<in> set qs \<union> set rs" for q
  proof (cases "q \<in> set rs")
    case True
    have off: "received_off q s1 s2" using s2(4) True by blast
    have sender: "get_sender_id (cell s1 (mq_ids q)) = 0"
    proof (cases "q \<in> set qs")
      case True
      then show ?thesis using s1(4) by (simp add: sent_off_def)
    next
      case False
      then show ?thesis using qs \<open>q \<in> set rs\<close> same[OF mq_cells_mem(3) _ q] by (auto simp: queues_left_def)
    qed
    have "cell s2 (mq_slot q (of_nat i)) = 0" if i: "i < 16" for i
    proof (cases "i \<in> pending_idx q s")
      case True
      then show ?thesis using off pend[OF q] i by (simp add: received_off_def)
    next
      case False
      have "cell s1 (mq_slot q (of_nat i)) = 0"
      proof (cases "q \<in> set qs")
        case True
        then show ?thesis using s1(4) False i by (simp add: sent_off_def)
      next
        case notq: False
        then show ?thesis using qs \<open>q \<in> set rs\<close> False i same[OF mq_cells_mem(5)[OF i] _ q] by (auto simp: queues_left_def)
      qed
      then show ?thesis by (rule gave_zero[OF s2(2) slot_ref[OF q i]])
    qed
    then show ?thesis using off sender by (auto simp: queue_gone_def queue_used_def received_off_def slot_cells_def)
  next
    case False
    then have qs': "q \<in> set qs" using q by simp
    then have "get_receiver_id (cell s (mq_ids q)) = 0" using qs False by (auto simp: queues_left_def)
    then have off: "get_sender_id (cell s1 (mq_ids q)) = 0" "get_receiver_id (cell s1 (mq_ids q)) = 0"
      "\<forall>i < 16. cell s1 (mq_slot q (of_nat i)) = 0"
      using s1(4) qs' by (simp_all add: sent_off_def)
    have keep: "cell s2 x = cell s1 x" if "x \<in> mq_cells q" for x
      using gave_cell[OF s2(2) untouched[OF that _ q] body[OF that q]] False by blast
    show ?thesis
      using off keep[OF mq_cells_mem(3)] keep[OF mq_cells_mem(5)]
      by (auto simp: queue_gone_def queue_used_def slot_cells_def)
  qed
  have "gave g (\<Union>q \<in> set qs \<union> set rs. queue_writes q) s s2"
    using gave_trans[OF s1(2) s2(2)] by (simp add: UN_Un)
  then show ?thesis
    using s1 s2 gone by (intro exI[of _ s1] exI[of _ s2]) (simp add: gave_def)
qed

end
