(* ===== verification/Graph_Reach.thy ===== *)
theory Graph_Reach
  imports Graph_Queues
begin

text \<open>
  Which objects survive. When references from outside the objects are given up, the objects that stay
  counted are exactly those that can be reached from the other references from outside.
\<close>

section \<open>Reachable objects\<close>

inductive reached :: "obj_graph \<Rightarrow> u64 set \<Rightarrow> shm \<Rightarrow> u64 \<Rightarrow> bool" for g E s where
  outside: "r \<in> E \<Longrightarrow> cell s r = b \<Longrightarrow> b \<noteq> 0 \<Longrightarrow> reached g E s b"
| inside: "reached g E s c \<Longrightarrow> x \<in> emb_cells g c \<Longrightarrow> cell s x = b \<Longrightarrow> b \<noteq> 0 \<Longrightarrow> reached g E s b"

lemma reached_obj:
  assumes "graph_ok g" "heap_ok g s" "E \<subseteq> gr_ext g" "reached g E s b"
  shows "b \<in> gr_obj g"
  using assms(4)
proof induction
  case (outside r b)
  then have "r \<in> ref_cells g" using assms(3) by (auto simp: ref_cells_def)
  then show ?case using heap_okD(1)[OF assms(2)] outside by blast
next
  case (inside c x b)
  then have "x \<in> ref_cells g" using graph_okD(4)[OF assms(1)] by blast
  then show ?case using heap_okD(1)[OF assms(2)] inside by blast
qed

text \<open>An object of the largest rank in a set; without cycles one exists.\<close>

lemma top_object:
  assumes "finite S" "S \<noteq> {}"
  obtains c where "c \<in> S" "\<And>x. x \<in> S \<Longrightarrow> \<not> (gr_rank g c < gr_rank g x)"
proof -
  have "Max (gr_rank g ` S) \<in> gr_rank g ` S" using assms by (intro Max_in) simp_all
  then obtain c where c: "c \<in> S" "gr_rank g c = Max (gr_rank g ` S)" by auto
  have "gr_rank g x \<le> gr_rank g c" if "x \<in> S" for x
    unfolding c(2) using that assms(1) by (intro Max_ge) simp_all
  then have "\<not> (gr_rank g c < gr_rank g x)" if "x \<in> S" for x using that by (simp add: not_less)
  then show thesis by (rule that[OF c(1)])
qed

section \<open>What is given up\<close>

text \<open>The outer references \<open>Z\<close> are gone, and nothing else was written but cells that are no references.\<close>

definition given_up :: "obj_graph \<Rightarrow> u64 set \<Rightarrow> shm \<Rightarrow> shm \<Rightarrow> bool" where
  "given_up g Z s s' \<longleftrightarrow> (\<exists>X. gave g X s s' \<and> X \<inter> ref_cells g \<subseteq> Z) \<and> Z \<inter> ref_cells g \<subseteq> gr_ext g \<and>
     (\<forall>r \<in> gr_ext g \<inter> Z. cell s' r = 0)"

lemma outer_not_body:
  assumes "graph_ok g" "r \<in> gr_ext g"
  shows "r \<notin> body g"
proof -
  have "r \<in> ref_cells g" using assms(2) by (simp add: ref_cells_def)
  then have "r \<notin> obj_cells b" "r \<notin> emb_cells g b" if "b \<in> gr_obj g" for b
    using header_not_ref[OF assms(1) that] graph_okD(5)[OF assms(1) that] assms(2) by blast+
  then show ?thesis by (simp add: body_def)
qed

lemma ref_outer: "x \<in> ref_cells g \<Longrightarrow> x \<notin> body g \<Longrightarrow> x \<in> gr_ext g"
  by (auto simp: ref_cells_def body_def)

text \<open>What an object that is still counted refers to is as before.\<close>

lemma given_up_inside:
  assumes "graph_ok g" "given_up g Z s s'" "b \<in> gr_obj g" "obj_cnt b s' \<noteq> 0" "x \<in> emb_cells g b"
  shows "cell s' x = cell s x"
proof -
  obtain X where X: "gave g X s s'" "X \<inter> ref_cells g \<subseteq> Z" using assms(2) by (auto simp: given_up_def)
  have "x \<in> ref_cells g" "x \<notin> gr_ext g" using graph_okD(4,5)[OF assms(1,3,5)] by blast+
  then have "x \<notin> X" using X(2) assms(2) by (auto simp: given_up_def)
  moreover have "kept g X s s'" using X(1) by (simp add: gave_def)
  ultimately show ?thesis using assms(3-5) by (auto simp: kept_def)
qed

lemma given_up_outside:
  assumes "graph_ok g" "given_up g Z s s'" "r \<in> gr_ext g" "r \<notin> Z"
  shows "cell s' r = cell s r"
proof -
  obtain X where X: "gave g X s s'" "X \<inter> ref_cells g \<subseteq> Z" using assms(2) by (auto simp: given_up_def)
  have "r \<notin> X" using X(2) assms(3,4) by (auto simp: ref_cells_def)
  then show ?thesis by (rule gave_cell[OF X(1) _ outer_not_body[OF assms(1,3)]])
qed

lemma given_up_heap: "given_up g Z s s' \<Longrightarrow> heap_ok g s'"
  using gave_heap by (auto simp: given_up_def)

lemma reached_counted:
  assumes g: "graph_ok g" "heap_ok g s" "given_up g Z s s'" and "reached g (gr_ext g - Z) s b"
  shows "b \<in> gr_obj g \<and> obj_cnt b s' \<noteq> 0"
  using assms(4)
proof induction
  case (outside r b)
  then have "cell s' r = b" using given_up_outside[OF g(1,3)] by auto
  moreover have r: "r \<in> ref_cells g" using outside(1) by (auto simp: ref_cells_def)
  ultimately have "0 < obj_cnt b s'" using referred_counted[OF g(1) given_up_heap[OF g(3)] r] outside(3) by simp
  then show ?case using heap_okD(1)[OF g(2) r] outside(2,3) by simp
next
  case (inside c x b)
  have r: "x \<in> ref_cells g" using graph_okD(4)[OF g(1) conjunct1[OF inside.IH] inside(2)] .
  have "cell s' x = b" using given_up_inside[OF g(1,3) _ _ inside(2)] inside by simp
  then have "0 < obj_cnt b s'" using referred_counted[OF g(1) given_up_heap[OF g(3)] r] inside(4) by simp
  then show ?case using heap_okD(1)[OF g(2) r] inside(3,4) by simp
qed

lemma counted_reached:
  assumes g: "graph_ok g" "heap_ok g s" "given_up g Z s s'" and b: "b \<in> gr_obj g" "obj_cnt b s' \<noteq> 0"
  shows "reached g (gr_ext g - Z) s b"
proof (rule ccontr)
  define S where "S = {b \<in> gr_obj g. obj_cnt b s' \<noteq> 0 \<and> \<not> reached g (gr_ext g - Z) s b}"
  assume "\<not> reached g (gr_ext g - Z) s b"
  then have "S \<noteq> {}" "finite S" using b g(1) by (auto simp: S_def graph_ok_def)
  then obtain c where c: "c \<in> S" "\<And>x. x \<in> S \<Longrightarrow> \<not> (gr_rank g c < gr_rank g x)"
    using top_object[of S g] by blast
  have cO: "c \<in> gr_obj g" "obj_cnt c s' \<noteq> 0" "\<not> reached g (gr_ext g - Z) s c" using c(1) by (simp_all add: S_def)
  note heap = given_up_heap[OF g(3)]
  have "referrers g c s' \<noteq> {}" using heap_okD(2)[OF heap cO(1)] cO(2) by auto
  then obtain r where r: "r \<in> ref_cells g" "cell s' r = c" by (auto simp: referrers_def)
  have c0: "c \<noteq> 0" using graph_okD(1)[OF g(1)] cO(1) by (auto simp: apart_def)
  show False
  proof (cases "r \<in> gr_ext g")
    case True
    then have "r \<notin> Z" using g(3) r(2) c0 by (auto simp: given_up_def)
    then have "cell s r = c" using given_up_outside[OF g(1,3) True] r(2) by simp
    then show False using reached.outside[of r "gr_ext g - Z" s c g] True \<open>r \<notin> Z\<close> c0 cO(3) by simp
  next
    case False
    then obtain x where x: "x \<in> gr_obj g" "r \<in> emb_cells g x" using r(1) by (auto simp: ref_cells_def)
    have "gr_rank g c < gr_rank g x" by (rule embedded_cell(2)[OF g(1) heap x r(2) c0])
    moreover have live: "obj_cnt x s' \<noteq> 0" using heap_okD(4)[OF heap x(1) _ x(2)] r(2) c0 by auto
    ultimately have "reached g (gr_ext g - Z) s x" using c(2)[of x] x(1) by (auto simp: S_def)
    moreover have "cell s r = c" using given_up_inside[OF g(1,3) x(1) live x(2)] r(2) by simp
    ultimately show False using reached.inside x(2) c0 cO(3) by blast
  qed
qed

lemma counted_iff:
  "graph_ok g \<Longrightarrow> heap_ok g s \<Longrightarrow> given_up g Z s s' \<Longrightarrow> b \<in> gr_obj g \<Longrightarrow>
     0 < obj_cnt b s' \<longleftrightarrow> reached g (gr_ext g - Z) s b"
  using counted_reached reached_counted by blast

section \<open>One reference\<close>

lemma release_given_up:
  assumes "graph_ok g" "r \<in> gr_ext g" "gave g {r} s s'" "cell s' r = 0"
  shows "given_up g {r} s s'"
  using assms by (auto simp: given_up_def)

text \<open>
  C7: Giving up one reference on behalf of a dead thread returns; exactly the objects that cannot be
  reached from the other references from outside lose their count, and what the others refer to is
  unchanged.
\<close>

lemma release_exact:
  assumes id: "valid_id (tid_of offset)" and g: "graph_ok g" "heap_ok g s" and r: "r \<in> gr_ext g" "cell s r \<noteq> 0"
  shows "\<exists>s'. recovery_test_free offset r s = Some s' \<and> heap_ok g s' \<and> cell s' r = 0 \<and>
    (\<forall>b \<in> gr_obj g. 0 < obj_cnt b s' \<longleftrightarrow> reached g (gr_ext g - {r}) s b) \<and>
    (\<forall>b. reached g (gr_ext g - {r}) s b \<longrightarrow> (\<forall>x \<in> emb_cells g b. cell s' x = cell s x)) \<and>
    (\<forall>x. x \<noteq> r \<longrightarrow> x \<notin> body g \<longrightarrow> cell s' x = cell s x) \<and> page s' = page s \<and> tls s' = tls s"
proof -
  have "r \<in> ref_cells g" using r(1) by (simp add: ref_cells_def)
  then obtain s' where s': "recovery_test_free offset r s = Some s'" "gave g {r} s s'" "page s' = page s" "cell s' r = 0"
    using release_ref[OF id g _ r(2)] by blast
  have gu: "given_up g {r} s s'" by (rule release_given_up[OF g(1) r(1) s'(2,4)])
  have "cell s' x = cell s x" if "reached g (gr_ext g - {r}) s b" "x \<in> emb_cells g b" for b x
    using reached_counted[OF g gu that(1)] given_up_inside[OF g(1) gu _ _ that(2)] by blast
  moreover have "\<forall>x. x \<noteq> r \<longrightarrow> x \<notin> body g \<longrightarrow> cell s' x = cell s x" using gave_cell[OF s'(2)] by simp
  moreover have "tls s' = tls s" using s'(2) by (simp add: gave_def)
  ultimately show ?thesis using s'(1,3,4) given_up_heap[OF gu] counted_iff[OF g gu] by blast
qed

section \<open>All queues of a thread\<close>

lemma queues_left_apart: "queues_left g qs ms s \<Longrightarrow> q \<in> set qs \<union> set ms \<Longrightarrow> queue_apart g q"
  by (auto simp: queues_left_def queues_fit_def)

lemma slots_outer:
  assumes "queue_apart g q"
  shows "slot_cells q \<subseteq> gr_ext g"
proof
  fix x assume x: "x \<in> slot_cells q"
  then have "x \<in> ref_cells g" "x \<notin> body g" using assms slots_in[of q] by (auto simp: queue_apart_def)
  then show "x \<in> gr_ext g" by (rule ref_outer)
qed

lemma writes_slots:
  assumes "queue_apart g q"
  shows "queue_writes q \<inter> ref_cells g \<subseteq> slot_cells q"
  using assms mq_cells_mem(3)[of q] head_not_slot(3)[of q] by (auto simp: queue_apart_def queue_writes_def)

text \<open>
  C8: The walks over the message queues of a dead thread that have no other user left (the other end is
  not registered, or is the dead thread too) return: the slots of the queues are empty, no one is
  registered at them any more, and exactly the objects that cannot be reached from elsewhere lose their
  count.
\<close>

lemma dead_queues_released:
  assumes id: "valid_id (tid_of offset)" and g: "graph_ok g" "heap_ok g s" and qs: "queues_left g qs rs s"
    and chains: "chain (\<lambda>q. cell s (mq_sender_next q)) fs qs" "chain (\<lambda>q. cell s (mq_receiver_next q)) fr rs"
  shows "\<exists>s1 s2. sender_queues (recovery_test_free offset) fs s = Some s1 \<and>
    receiver_queues (recovery_test_free offset) fr s1 = Some s2 \<and> heap_ok g s2 \<and>
    (\<forall>q \<in> set qs \<union> set rs. queue_gone q s2) \<and>
    (\<forall>b \<in> gr_obj g. 0 < obj_cnt b s2 \<longleftrightarrow> reached g (gr_ext g - (\<Union>q \<in> set qs \<union> set rs. slot_cells q)) s b)"
proof -
  let ?Q = "set qs \<union> set rs"
  have outer: "\<forall>q \<in> ?Q. slot_cells q \<subseteq> gr_ext g"
    using slots_outer[OF queues_left_apart[OF qs]] by blast
  obtain s1 s2 where s: "sender_queues (recovery_test_free offset) fs s = Some s1"
    "receiver_queues (recovery_test_free offset) fr s1 = Some s2"
    "gave g (\<Union>q \<in> ?Q. queue_writes q) s s2" "\<forall>q \<in> ?Q. queue_gone q s2"
    using queues_released[OF id g qs chains] by blast
  have gu: "given_up g (\<Union>q \<in> ?Q. slot_cells q) s s2"
    unfolding given_up_def
  proof (intro conjI exI, rule s(3))
    have "queue_writes q \<inter> ref_cells g \<subseteq> slot_cells q" if q: "q \<in> ?Q" for q
      by (rule writes_slots[OF queues_left_apart[OF qs q]])
    then show "(\<Union>q \<in> ?Q. queue_writes q) \<inter> ref_cells g \<subseteq> (\<Union>q \<in> ?Q. slot_cells q)" by blast
    show "(\<Union>q \<in> ?Q. slot_cells q) \<inter> ref_cells g \<subseteq> gr_ext g" using outer by blast
    show "\<forall>r \<in> gr_ext g \<inter> (\<Union>q \<in> ?Q. slot_cells q). cell s2 r = 0" using s(4) by (auto simp: queue_gone_def)
  qed
  show ?thesis using s(1,2,4) given_up_heap[OF gu] counted_iff[OF g gu] by blast
qed

end
