(* ===== verification/No_Leak.thy ===== *)
theory No_Leak
  imports Graph_Reach
begin

text \<open>
  One round of the monitor after a crash. The segments that are given back are exactly those without an
  object that can be reached from a reference the dead thread did not hold, however the objects refer to
  each other; when there are no such references, everything is reclaimed.
\<close>

section \<open>One dead thread\<close>

lemma recover_single:
  assumes n: "n < MAX_THREAD" and others: "\<forall>m < MAX_THREAD. m \<noteq> n \<longrightarrow> tls_packed_id (tls s (tls_at m)) = 0"
    and run: "recover_thread n s = Some s2" and free: "no_thread s2"
  shows "for_range recover_thread 0 MAX_THREAD s = Some s2"
proof -
  have idle: "recover_thread m s' = Some s'" if "tls_packed_id (tls s' (tls_at m)) = 0" for m s'
    using that by (simp add: recover_thread_def check_tls_def tls_at_def Let_def)
  have "\<exists>s'. for_range recover_thread 0 MAX_THREAD s = Some s' \<and> s' = (if 0 + MAX_THREAD \<le> n then s else s2)"
  proof (rule for_range_rule[where P = "\<lambda>m s'. s' = (if m \<le> n then s else s2)"])
    fix m s' assume m: "0 \<le> m" "m < 0 + MAX_THREAD" and s': "s' = (if m \<le> n then s else s2)"
    consider "m < n" | "m = n" | "n < m" by linarith
    then show "\<exists>s''. recover_thread m s' = Some s'' \<and> s'' = (if Suc m \<le> n then s else s2)"
      by cases (use m s' run idle others free in \<open>auto simp: no_thread_def\<close>)
  qed simp
  then show ?thesis using n by simp
qed

lemma redo_ref_cnt_tls: "tls (redo_ref_cnt offset s) = tls s"
  by (simp add: redo_ref_cnt_def Let_def set_sas_state_def state_simps)

lemma tls_id_valid: "n < MAX_THREAD \<Longrightarrow> valid_id (tid_of (tls_at n))"
  using tls_id_of_at[of n] by (simp add: valid_id_def layout_simps)

lemma recovery_phases:
  assumes "dead_tbr_pages offset (get_page_by_offset (pq_first (tls_pages (tls s offset) 0))) s = Some s1"
    and "sender_queues (recovery_test_free offset) (tls_sender_queue (tls s1 offset)) s1 = Some s2"
    and "receiver_queues (recovery_test_free offset) (tls_receiver_queue (tls s2 offset)) s2 = Some s3"
    and "dead_bins offset s3 = Some s4" "for_range (free_dead_segment offset) 0 MAX_SEGMENT_NUM s4 = Some s5"
    and "tls_packed_id (tls s5 offset) = pid"
  shows "recovery_garbage_collection offset pid s =
    Some (upd_tls offset (\<lambda>t. t\<lparr>tls_packed_id := 0\<rparr>) (upd_tls offset reset_queues s5))"
proof -
  have bin: "cxl_page_queue True 16 = Some (Bin 0)" by (simp add: cxl_page_queue_def)
  have "tls_packed_id (tls (upd_tls offset reset_queues s5) offset) = pid"
    using assms(6) by (simp add: state_simps reset_queues_def)
  then show ?thesis
    using assms(1-5) by (simp add: recovery_garbage_collection_def bin dead_bins_def Let_def)
qed

section \<open>The state a dead thread leaves\<close>

text \<open>
  Its pages of root references \<open>rs\<close>, the queues it sent to \<open>qs\<close> and received from \<open>ms\<close>, and its pages of
  objects \<open>ps i\<close> by size class; the counts are right.
\<close>

definition dead_state :: "obj_graph \<Rightarrow> u64 \<Rightarrow> page_no list \<Rightarrow> u64 list \<Rightarrow> u64 list \<Rightarrow> (nat \<Rightarrow> page_no list) \<Rightarrow> shm \<Rightarrow> bool" where
  "dead_state g offset rs qs ms ps s \<longleftrightarrow> heap_ok g s \<and>
     chain (\<lambda>x. pg_next (page s x)) (pq_first (tls_pages (tls s offset) 0)) (map desc rs) \<and> roots_fit g offset rs s \<and>
     chain (\<lambda>q. cell s (mq_sender_next q)) (tls_sender_queue (tls s offset)) qs \<and>
     chain (\<lambda>q. cell s (mq_receiver_next q)) (tls_receiver_queue (tls s offset)) ms \<and> queues_left g qs ms s \<and>
     (\<forall>i. 2 \<le> i \<and> i < CXL_BIN_SIZE \<longrightarrow> bin_chain offset i (ps i) s) \<and> distinct (all_pages ps CXL_BIN_SIZE) \<and>
     (\<forall>p \<in> set (all_pages ps CXL_BIN_SIZE). p \<notin> set rs \<and> obj_page_ok p s) \<and>
     (\<forall>q \<in> set qs \<union> set ms. \<forall>x \<in> mq_cells q. \<forall>p \<in> set rs \<union> set (all_pages ps CXL_BIN_SIZE). \<not> in_page (fst p) (snd p) x)"

text \<open>The references from outside the objects that the dead thread did not hold.\<close>

definition left_refs :: "obj_graph \<Rightarrow> page_no list \<Rightarrow> u64 set \<Rightarrow> u64 set" where
  "left_refs g rs Q = gr_ext g - (root_cells_of rs \<union> (\<Union>q \<in> Q. slot_cells q))"

text \<open>
  Every page in use is one of root references, of objects, or of queues that are the dead thread's or
  unused; its pages of objects are all in \<open>ps\<close>, unless their segment was abandoned; every object is a
  block of a page of objects, and not the head of a free list if it is referred to.
\<close>

definition spare_queue :: "obj_graph \<Rightarrow> u64 set \<Rightarrow> u64 \<Rightarrow> shm \<Rightarrow> bool" where
  "spare_queue g Q q s \<longleftrightarrow> \<not> queue_used q s \<and> mq_ids q \<notin> body g \<and> (\<forall>r \<in> Q. mq_ids q \<notin> mq_cells r)"

definition pages_known :: "obj_graph \<Rightarrow> u64 \<Rightarrow> page_no list \<Rightarrow> u64 set \<Rightarrow> page_no set \<Rightarrow> shm \<Rightarrow> bool" where
  "pages_known g offset rs Q ps s \<longleftrightarrow> (\<forall>p. valid_page p \<longrightarrow> pg_block_size (page s (desc p)) = 0 \<or> p \<in> set rs \<or>
     page_fit (fst p) (snd p) s \<and>
       (if pg_is_msg_queue (page s (desc p))
        then p \<notin> ps \<and> (\<forall>q \<in> set (blocks_of (fst p) (snd p) s). q \<in> Q \<or> spare_queue g Q q s)
        else set (blocks_of (fst p) (snd p) s) \<subseteq> gr_obj g \<and>
          (p \<in> ps \<or> \<not> to_release (tls_id_of offset) (sas s (of_nat (fst p))))))"

definition holds_obj :: "page_no list \<Rightarrow> u64 \<Rightarrow> page_no \<Rightarrow> shm \<Rightarrow> bool" where
  "holds_obj rs b p s \<longleftrightarrow> valid_page p \<and> p \<notin> set rs \<and> pg_block_size (page s (desc p)) \<noteq> 0 \<and>
     \<not> pg_is_msg_queue (page s (desc p)) \<and> b \<in> set (blocks_of (fst p) (snd p) s)"

definition objs_placed :: "obj_graph \<Rightarrow> page_no list \<Rightarrow> u64 set \<Rightarrow> page_no set \<Rightarrow> shm \<Rightarrow> bool" where
  "objs_placed g rs Q ps s \<longleftrightarrow> (\<forall>b \<in> gr_obj g. \<exists>p. holds_obj rs b p s) \<and>
     (\<forall>p \<in> ps. \<not> reached g (left_refs g rs Q) s (pg_free (page s (desc p))))"

lemma queues_left_cong:
  assumes "queues_left g qs ms s" "\<And>q x. q \<in> set qs \<union> set ms \<Longrightarrow> x \<in> mq_cells q \<Longrightarrow> cell s' x = cell s x"
  shows "queues_left g qs ms s'"
proof -
  have slot: "cell s' (mq_slot q (of_nat i)) = cell s (mq_slot q (of_nat i))" if "q \<in> set qs \<union> set ms" "i < 16" for q i
    by (rule assms(2)[OF that(1) mq_cells_mem(5)[OF that(2)]])
  have head: "mq_ok q s' = mq_ok q s" "cell s' (mq_ids q) = cell s (mq_ids q)" "pending_idx q s' = pending_idx q s"
    if q: "q \<in> set qs \<union> set ms" for q
    by (simp_all add: mq_ok_def pending_idx_def assms(2)[OF q mq_cells_mem(1)] assms(2)[OF q mq_cells_mem(2)]
        assms(2)[OF q mq_cells_mem(3)])
  have fit: "queues_fit g qs s'" "queues_fit g ms s'"
    using assms(1) head(1) by (simp_all add: queues_left_def queues_fit_def)
  have ids: "get_receiver_id (cell s' (mq_ids q)) = 0 \<or> q \<in> set ms" if "q \<in> set qs" for q
    unfolding head(2)[OF UnI1[OF that]] using assms(1) that by (simp add: queues_left_def)
  have rest: "q \<in> set qs \<or> get_sender_id (cell s' (mq_ids q)) = 0 \<and>
      (\<forall>i < 16. i \<notin> pending_idx q s' \<longrightarrow> cell s' (mq_slot q (of_nat i)) = 0)" if "q \<in> set ms" for q
  proof -
    have old: "\<forall>q \<in> set ms. q \<in> set qs \<or> get_sender_id (cell s (mq_ids q)) = 0 \<and>
        (\<forall>i < 16. i \<notin> pending_idx q s \<longrightarrow> cell s (mq_slot q (of_nat i)) = 0)"
      using assms(1) unfolding queues_left_def by blast
    then show ?thesis
      unfolding head(2,3)[OF UnI2[OF that]] using bspec[OF old that] slot[OF UnI2[OF that]] by metis
  qed
  have apart: "\<forall>q \<in> set qs. \<forall>r \<in> set ms. q \<noteq> r \<longrightarrow> mq_cells q \<inter> mq_cells r = {}"
    using assms(1) unfolding queues_left_def by blast
  show ?thesis unfolding queues_left_def by (intro conjI ballI fit ids rest) (use apart in blast)
qed

section \<open>The whole recovery of the thread\<close>

lemma obj_page_ok_cong:
  assumes "obj_page_ok p s" "page s' (desc p) = page s (desc p)"
  shows "obj_page_ok p s'"
  using assms by (simp add: obj_page_ok_def page_bs_def blocks_of_def)

lemma dead_stateD:
  assumes "dead_state g offset rs qs ms ps s"
  shows "heap_ok g s" "chain (\<lambda>x. pg_next (page s x)) (pq_first (tls_pages (tls s offset) 0)) (map desc rs)"
    "roots_fit g offset rs s" "chain (\<lambda>q. cell s (mq_sender_next q)) (tls_sender_queue (tls s offset)) qs"
    "chain (\<lambda>q. cell s (mq_receiver_next q)) (tls_receiver_queue (tls s offset)) ms" "queues_left g qs ms s"
    "\<forall>i. 2 \<le> i \<and> i < CXL_BIN_SIZE \<longrightarrow> bin_chain offset i (ps i) s" "distinct (all_pages ps CXL_BIN_SIZE)"
    "\<forall>p \<in> set (all_pages ps CXL_BIN_SIZE). p \<notin> set rs \<and> obj_page_ok p s"
    "\<forall>q \<in> set qs \<union> set ms. \<forall>x \<in> mq_cells q. \<forall>p \<in> set rs \<union> set (all_pages ps CXL_BIN_SIZE). \<not> in_page (fst p) (snd p) x"
  using assms unfolding dead_state_def by - (elim conjE, assumption)+

lemma bin_chain_cong:
  assumes "bin_chain offset i ps s" "\<And>p. p \<in> set ps \<Longrightarrow> page s' (desc p) = page s (desc p)" "tls s' = tls s"
  shows "bin_chain offset i ps s'"
proof -
  have same: "pg_next (page s x) = pg_next (page s' x)" if x: "x \<in> set (map desc ps)" for x
  proof -
    obtain p where "p \<in> set ps" "x = desc p" using x unfolding set_map by blast
    then show ?thesis using assms(2) by simp
  qed
  show ?thesis
    using assms(1) unfolding bin_chain_def assms(3) by (rule iffD1[OF chain_cong, rotated]) (use same in blast)
qed

text \<open>The root references go first; the queues and the pages of objects are then as before.\<close>

lemma roots_gone:
  assumes id: "valid_id (tid_of offset)" and g: "graph_ok g" "on_pages (gr_obj g)" and dead: "dead_state g offset rs qs ms ps s"
  shows "\<exists>s'. dead_tbr_pages offset (get_page_by_offset (pq_first (tls_pages (tls s offset) 0))) s = Some s' \<and>
    gave g (root_cells_of rs) s s' \<and> roots_empty g rs s' \<and>
    (\<forall>x. page s' x = (if x \<in> desc ` set rs then zero_page else page s x)) \<and>
    queues_left g qs ms s' \<and> chain (\<lambda>q. cell s' (mq_sender_next q)) (tls_sender_queue (tls s offset)) qs \<and>
    chain (\<lambda>q. cell s' (mq_receiver_next q)) (tls_receiver_queue (tls s offset)) ms"
proof -
  note d = dead_stateD[OF dead]
  obtain s1 where s1: "dead_tbr_pages offset (get_page_by_offset (pq_first (tls_pages (tls s offset) 0))) s = Some s1"
    "gave g (root_cells_of rs) s s1" "\<forall>x. page s1 x = (if x \<in> desc ` set rs then zero_page else page s x)" "roots_empty g rs s1"
    using dead_tbr_pages_graph[OF id g d(2,1,3)] by blast
  have same: "cell s1 x = cell s x" if q: "q \<in> set qs \<union> set ms" and x: "x \<in> mq_cells q" for q x
  proof (rule gave_cell[OF s1(2)])
    have "queue_apart g q" using d(6) q by (auto simp: queues_left_def queues_fit_def)
    then show "x \<notin> body g" using x by (simp add: queue_apart_def)
    have "x \<notin> cells_from p 0" if p: "p \<in> set rs" for p
    proof -
      have "valid_page p" "\<not> in_page (fst p) (snd p) x" using d(3,10) p q x by (auto simp: roots_fit_def root_page_ok_def)
      then show ?thesis using cells_from_in by blast
    qed
    then show "x \<notin> root_cells_of rs" by (simp add: root_cells_of_def)
  qed
  have "chain (\<lambda>q. cell s1 (mq_sender_next q)) (tls_sender_queue (tls s offset)) qs"
    by (rule iffD1[OF chain_cong d(4)]) (use same[OF UnI1 mq_next_mem] in simp)
  moreover have "chain (\<lambda>q. cell s1 (mq_receiver_next q)) (tls_receiver_queue (tls s offset)) ms"
    by (rule iffD1[OF chain_cong d(5)]) (use same[OF UnI2 mq_cells_mem(4)] in simp)
  moreover have "queues_left g qs ms s1" by (rule queues_left_cong[OF d(6)], rule same)
  ultimately show ?thesis using s1 by blast
qed

text \<open>Then the queues; together they give up exactly what the dead thread held.\<close>

lemma roots_queues_gone:
  assumes g: "graph_ok g" and dead: "dead_state g offset rs qs ms ps s"
    and roots: "roots_empty g rs s1" "gave g (root_cells_of rs) s s1"
    and queues: "gave g (\<Union>q \<in> set qs \<union> set ms. queue_writes q) s1 s2" "\<forall>q \<in> set qs \<union> set ms. queue_gone q s2"
  shows "given_up g (root_cells_of rs \<union> (\<Union>q \<in> set qs \<union> set ms. slot_cells q)) s s2"
proof -
  let ?Q = "set qs \<union> set ms"
  note d = dead_stateD[OF dead]
  note apart = queues_left_apart[OF d(6)]
  have gv: "gave g (root_cells_of rs \<union> (\<Union>q \<in> ?Q. queue_writes q)) s s2" by (rule gave_trans[OF roots(2) queues(1)])
  have writes: "queue_writes q \<inter> ref_cells g \<subseteq> slot_cells q" if q: "q \<in> ?Q" for q
    by (rule writes_slots[OF apart[OF q]])
  have outer: "x \<in> gr_ext g" if x: "x \<in> root_cells_of rs \<union> (\<Union>q \<in> ?Q. slot_cells q)" "x \<in> ref_cells g" for x
  proof (rule ref_outer[OF x(2)])
    consider p where "p \<in> set rs" "x \<in> cells_from p 0" | q where "q \<in> ?Q" "x \<in> slot_cells q"
      using x(1) unfolding root_cells_of_def by blast
    then show "x \<notin> body g"
    proof cases
      case 1
      then have "graph_off g p" "in_page (fst p) (snd p) x"
        using d(3) cells_from_in by (auto simp: roots_fit_def root_page_ok_def)
      then show ?thesis by (auto simp: graph_off_def)
    next
      case 2
      then show ?thesis using apart[of q] slots_in[of q] by (auto simp: queue_apart_def)
    qed
  qed
  have zero: "cell s2 r = 0" if r: "r \<in> gr_ext g" "r \<in> root_cells_of rs \<union> (\<Union>q \<in> ?Q. slot_cells q)" for r
  proof -
    have ref: "r \<in> ref_cells g" using r(1) by (simp add: ref_cells_def)
    consider "r \<in> root_cells_of rs" | q where "q \<in> ?Q" "r \<in> slot_cells q" using r(2) by blast
    then show ?thesis
    proof cases
      case 1
      then show ?thesis using roots(1) ref by (intro gave_zero[OF queues(1) ref]) (simp add: roots_empty_def)
    next
      case 2
      then show ?thesis using queues(2) by (simp add: queue_gone_def)
    qed
  qed
  show ?thesis
    unfolding given_up_def
  proof (intro conjI exI, rule gv)
    show "(root_cells_of rs \<union> (\<Union>q \<in> ?Q. queue_writes q)) \<inter> ref_cells g \<subseteq> root_cells_of rs \<union> (\<Union>q \<in> ?Q. slot_cells q)"
      using writes by blast
    show "(root_cells_of rs \<union> (\<Union>q \<in> ?Q. slot_cells q)) \<inter> ref_cells g \<subseteq> gr_ext g" using outer by blast
    show "\<forall>r \<in> gr_ext g \<inter> (root_cells_of rs \<union> (\<Union>q \<in> ?Q. slot_cells q)). cell s2 r = 0" using zero by blast
  qed
qed

text \<open>The first three loops of the recovery: what the dead thread held is given up.\<close>

definition refs_gone :: "obj_graph \<Rightarrow> page_no list \<Rightarrow> u64 set \<Rightarrow> shm \<Rightarrow> shm \<Rightarrow> bool" where
  "refs_gone g rs Q s s' \<longleftrightarrow> tls s' = tls s \<and> sas_kept s s' \<and>
     given_up g (root_cells_of rs \<union> (\<Union>q \<in> Q. slot_cells q)) s s' \<and> (\<forall>q \<in> Q. queue_gone q s') \<and>
     (\<forall>x. page s' x = (if x \<in> desc ` set rs then zero_page else page s x)) \<and>
     (\<forall>x. x \<notin> body g \<longrightarrow> (\<forall>q \<in> Q. x \<notin> mq_cells q) \<longrightarrow> (\<forall>p \<in> set rs. \<not> in_page (fst p) (snd p) x) \<longrightarrow> cell s' x = cell s x)"

lemma refs_phase:
  assumes id: "valid_id (tid_of offset)" and g: "graph_ok g" "on_pages (gr_obj g)" and dead: "dead_state g offset rs qs ms ps s"
  shows "\<exists>s1 s2 s3. dead_tbr_pages offset (get_page_by_offset (pq_first (tls_pages (tls s offset) 0))) s = Some s1 \<and>
    sender_queues (recovery_test_free offset) (tls_sender_queue (tls s1 offset)) s1 = Some s2 \<and>
    receiver_queues (recovery_test_free offset) (tls_receiver_queue (tls s2 offset)) s2 = Some s3 \<and>
    refs_gone g rs (set qs \<union> set ms) s s3"
proof -
  let ?Q = "set qs \<union> set ms"
  note d = dead_stateD[OF dead]
  obtain s1 where s1: "dead_tbr_pages offset (get_page_by_offset (pq_first (tls_pages (tls s offset) 0))) s = Some s1"
    "gave g (root_cells_of rs) s s1" "roots_empty g rs s1" "\<forall>x. page s1 x = (if x \<in> desc ` set rs then zero_page else page s x)"
    "queues_left g qs ms s1" "chain (\<lambda>q. cell s1 (mq_sender_next q)) (tls_sender_queue (tls s offset)) qs"
    "chain (\<lambda>q. cell s1 (mq_receiver_next q)) (tls_receiver_queue (tls s offset)) ms"
    using roots_gone[OF id g dead] by blast
  have tls1: "tls s1 = tls s" using s1(2) by (simp add: gave_def)
  obtain s2 s3 where s3: "sender_queues (recovery_test_free offset) (tls_sender_queue (tls s offset)) s1 = Some s2"
    "receiver_queues (recovery_test_free offset) (tls_receiver_queue (tls s offset)) s2 = Some s3" "tls s2 = tls s1"
    "gave g (\<Union>q \<in> ?Q. queue_writes q) s1 s3" "page s3 = page s1" "\<forall>q \<in> ?Q. queue_gone q s3"
    using queues_released[OF id g(1) gave_heap[OF s1(2)] s1(5-7)] by blast
  have "cell s3 x = cell s x"
    if x: "x \<notin> body g" "\<forall>q \<in> ?Q. x \<notin> mq_cells q" "\<forall>p \<in> set rs. \<not> in_page (fst p) (snd p) x" for x
  proof -
    have "x \<notin> (\<Union>q \<in> ?Q. queue_writes q)" using x(2) slots_in mq_cells_mem(3) by (auto simp: queue_writes_def)
    moreover have "valid_page p" if "p \<in> set rs" for p using d(3) that by (simp add: roots_fit_def root_page_ok_def)
    then have "x \<notin> root_cells_of rs" using x(3) cells_from_in unfolding root_cells_of_def by blast
    ultimately show ?thesis using gave_cell[OF s3(4) _ x(1)] gave_cell[OF s1(2) _ x(1)] by simp
  qed
  moreover have "sas_kept s s3" using s1(2) s3(4) sas_kept_trans unfolding gave_def by blast
  moreover have "tls s3 = tls s" using s3(4) tls1 by (simp add: gave_def)
  ultimately have "refs_gone g rs ?Q s s3"
    using roots_queues_gone[OF g(1) dead s1(3,2) s3(4,6)] s1(4) s3(5,6) by (simp add: refs_gone_def)
  moreover have "sender_queues (recovery_test_free offset) (tls_sender_queue (tls s1 offset)) s1 = Some s2"
    "receiver_queues (recovery_test_free offset) (tls_receiver_queue (tls s2 offset)) s2 = Some s3"
    using s3(1,2) by (simp_all only: tls1 s3(3))
  ultimately show ?thesis using s1(1) by blast
qed

text \<open>Then the pages of objects and the segments; an object that can be reached keeps its page and segment.\<close>

definition reclaimed :: "obj_graph \<Rightarrow> page_no list \<Rightarrow> u64 set \<Rightarrow> page_no set \<Rightarrow> shm \<Rightarrow> shm \<Rightarrow> bool" where
  "reclaimed g rs Q ps s s' \<longleftrightarrow>
     (\<forall>x. page s' x \<in> {zero_page, page s x}) \<and> (\<forall>p \<in> set rs. page s' (desc p) = zero_page) \<and>
     (\<forall>b \<in> gr_obj g. 0 < obj_cnt b s' \<longleftrightarrow> reached g (left_refs g rs Q) s b) \<and>
     (\<forall>b p. reached g (left_refs g rs Q) s b \<longrightarrow> holds_obj rs b p s \<longrightarrow> page s' (desc p) = page s (desc p) \<and>
        sas_thread_id (sas s' (of_nat (fst p))) = sas_thread_id (sas s (of_nat (fst p)))) \<and>
     (\<forall>q \<in> Q. \<not> queue_used q s') \<and>
     (\<forall>x. x \<notin> body g \<longrightarrow> (\<forall>q \<in> Q. x \<notin> mq_cells q) \<longrightarrow>
        (\<forall>p \<in> set rs \<union> ps. \<not> in_page (fst p) (snd p) x) \<longrightarrow> cell s' x = cell s x)"

lemma reclaimed_tls: "reclaimed g rs Q ps s (upd_tls t f s') = reclaimed g rs Q ps s s'"
  by (simp add: reclaimed_def obj_cnt_def queue_used_def state_simps)

text \<open>An object that can be reached is in use in the eyes of the loop over the pages.\<close>

lemma live_page_stays:
  assumes g: "graph_ok g" "heap_ok g s" and known: "pages_known g offset rs Q ps s" and placed: "objs_placed g rs Q ps s"
    and gone: "refs_gone g rs Q s s3" and live: "reached g (left_refs g rs Q) s b" and p: "holds_obj rs b p s"
    and same: "page s3 (desc p) = page s (desc p)"
  shows "if p \<in> ps then held p s3 else \<not> to_release (tls_id_of offset) (sas s3 (of_nat (fst p)))"
proof (cases "p \<in> ps")
  case True
  have b: "b \<in> gr_obj g" by (rule reached_obj[OF g _ live]) (simp add: left_refs_def)
  have "given_up g (root_cells_of rs \<union> (\<Union>q \<in> Q. slot_cells q)) s s3" using gone by (simp add: refs_gone_def)
  then have "0 < obj_cnt b s3" using counted_iff[OF g _ b] live unfolding left_refs_def by blast
  moreover have "b \<in> set (blocks_of (fst p) (snd p) s3)" using p same by (simp add: holds_obj_def blocks_of_def page_bs_def)
  moreover have "b \<noteq> pg_free (page s3 (desc p))" using placed True live same unfolding objs_placed_def by auto
  ultimately have "held p s3" unfolding held_def by blast
  then show ?thesis using True by simp
next
  case False
  have "valid_page p" using p by (simp add: holds_obj_def)
  then have "\<not> to_release (tls_id_of offset) (sas s (of_nat (fst p)))"
    using mp[OF spec[OF known[unfolded pages_known_def], of p]] p False unfolding holds_obj_def by (auto split: if_splits)
  moreover have "sas_kept s s3" using gone by (simp add: refs_gone_def)
  ultimately show ?thesis using False by (auto simp: to_release_def sas_kept_def)
qed

lemma pages_phase:
  assumes g: "graph_ok g" and dead: "dead_state g offset rs qs ms ps s" and gone: "refs_gone g rs (set qs \<union> set ms) s s3"
    and known: "pages_known g offset rs (set qs \<union> set ms) (set (all_pages ps CXL_BIN_SIZE)) s"
    and placed: "objs_placed g rs (set qs \<union> set ms) (set (all_pages ps CXL_BIN_SIZE)) s"
  shows "\<exists>s4 s5. dead_bins offset s3 = Some s4 \<and> for_range (free_dead_segment offset) 0 MAX_SEGMENT_NUM s4 = Some s5 \<and>
    tls s5 = tls s \<and> reclaimed g rs (set qs \<union> set ms) (set (all_pages ps CXL_BIN_SIZE)) s s5"
proof -
  let ?Q = "set qs \<union> set ms" and ?ps = "set (all_pages ps CXL_BIN_SIZE)"
  let ?live = "reached g (left_refs g rs ?Q) s"
  note d = dead_stateD[OF dead]
  have r: "tls s3 = tls s" "sas_kept s s3" "given_up g (root_cells_of rs \<union> (\<Union>q \<in> ?Q. slot_cells q)) s s3"
    "\<forall>q \<in> ?Q. queue_gone q s3" "\<forall>x. page s3 x = (if x \<in> desc ` set rs then zero_page else page s x)"
    using gone unfolding refs_gone_def by blast+
  have cnt3: "0 < obj_cnt b s3 \<longleftrightarrow> ?live b" if "b \<in> gr_obj g" for b
    unfolding left_refs_def by (rule counted_iff[OF g d(1) r(3) that])
  have page3: "page s3 (desc p) = page s (desc p)" if p: "valid_page p" "p \<notin> set rs" for p
  proof -
    have "valid_page q" if "q \<in> set rs" for q using d(3) that by (simp add: roots_fit_def root_page_ok_def)
    then have "desc p \<notin> desc ` set rs" using p desc_inject by blast
    then show ?thesis using r(5) by simp
  qed
  have page_ps: "page s3 (desc p) = page s (desc p)" if "p \<in> ?ps" for p
    using d(9) that by (intro page3) (simp_all add: obj_page_ok_def)
  have ok3: "\<forall>p \<in> ?ps. obj_page_ok p s3" using d(9) page_ps obj_page_ok_cong by blast
  have bin3: "\<forall>i. 2 \<le> i \<and> i < CXL_BIN_SIZE \<longrightarrow> bin_chain offset i (ps i) s3"
    using d(7) bin_chain_cong[OF _ _ r(1)] page_ps set_all_pages by blast
  obtain s4 s5 where s5: "dead_bins offset s3 = Some s4" "for_range (free_dead_segment offset) 0 MAX_SEGMENT_NUM s4 = Some s5"
    "tls s5 = tls s3" "\<forall>x. page s5 x \<in> {zero_page, page s3 x}" "\<forall>b. obj_cnt b s5 \<in> {0, obj_cnt b s3}"
    "\<forall>i < MAX_SEGMENT_NUM. sas_thread_id (sas s5 (of_nat i)) = released_id offset {p \<in> ?ps. held p s3} s3 i"
    "\<forall>x. (\<forall>p \<in> ?ps. \<not> in_page (fst p) (snd p) x) \<longrightarrow> cell s5 x = cell s3 x"
    "\<forall>b. b \<notin> heads (all_pages ps CXL_BIN_SIZE) s3 \<longrightarrow> obj_cnt b s5 = obj_cnt b s3"
    "\<forall>p. valid_page p \<longrightarrow> (if p \<in> ?ps then held p s3 else \<not> to_release (tls_id_of offset) (sas s3 (of_nat (fst p))))
       \<longrightarrow> page s5 (desc p) = page s3 (desc p)"
    using dead_pages_segments[OF bin3 ok3 d(8)] by blast
  have "reclaimed g rs ?Q ?ps s s5"
    unfolding reclaimed_def
  proof (intro conjI ballI allI impI)
    fix x show "page s5 x \<in> {zero_page, page s x}" using s5(4)[rule_format, of x] r(5) by auto
  next
    fix p assume "p \<in> set rs"
    then show "page s5 (desc p) = zero_page" using s5(4)[rule_format, of "desc p"] r(5) by auto
  next
    fix b assume b: "b \<in> gr_obj g"
    have "b \<notin> heads (all_pages ps CXL_BIN_SIZE) s3" if "?live b"
      using placed that page_ps by (auto simp: heads_def objs_placed_def)
    then show "0 < obj_cnt b s5 \<longleftrightarrow> ?live b"
      using cnt3[OF b] s5(8) s5(5)[rule_format, of b] by (cases "?live b") auto
  next
    fix b p assume live: "?live b" and p: "holds_obj rs b p s"
    then have v: "valid_page p" "p \<notin> set rs" by (simp_all add: holds_obj_def)
    note stay = live_page_stays[OF g d(1) known placed gone live p page3[OF v]]
    show "page s5 (desc p) = page s (desc p)" using s5(9) v(1) stay page3[OF v] by simp
    have "released_id offset {p \<in> ?ps. held p s3} s3 (fst p) = sas_thread_id (sas s3 (of_nat (fst p)))"
      using stay by (auto simp: released_id_def split: if_splits)
    then show "sas_thread_id (sas s5 (of_nat (fst p))) = sas_thread_id (sas s (of_nat (fst p)))"
      using s5(6) v(1) r(2) by (simp add: sas_kept_def valid_page_def)
  next
    fix q assume q: "q \<in> ?Q"
    have "cell s5 (mq_ids q) = cell s3 (mq_ids q)" using s5(7) d(10) q mq_cells_mem(3)[of q] by blast
    then show "\<not> queue_used q s5" using r(4) q by (simp add: queue_gone_def queue_used_def)
  next
    fix x assume x: "x \<notin> body g" "\<forall>q \<in> ?Q. x \<notin> mq_cells q" "\<forall>p \<in> set rs \<union> ?ps. \<not> in_page (fst p) (snd p) x"
    then have "cell s3 x = cell s x" using gone unfolding refs_gone_def by blast
    then show "cell s5 x = cell s x" using s5(7) x(3) by simp
  qed
  then show ?thesis using s5(1-3) r(1) by auto
qed

lemma dead_thread_reclaimed:
  assumes id: "valid_id (tid_of offset)" and g: "graph_ok g" "on_pages (gr_obj g)"
    and dead: "dead_state g offset rs qs ms ps s" and pid: "tls_packed_id (tls s offset) = pid"
    and known: "pages_known g offset rs (set qs \<union> set ms) (set (all_pages ps CXL_BIN_SIZE)) s"
    and placed: "objs_placed g rs (set qs \<union> set ms) (set (all_pages ps CXL_BIN_SIZE)) s"
  shows "\<exists>s'. recovery_garbage_collection offset pid s = Some s' \<and>
    tls s' = (tls s)(offset := (reset_queues (tls s offset))\<lparr>tls_packed_id := 0\<rparr>) \<and>
    reclaimed g rs (set qs \<union> set ms) (set (all_pages ps CXL_BIN_SIZE)) s s'"
proof -
  obtain s1 s2 s3 where s3: "dead_tbr_pages offset (get_page_by_offset (pq_first (tls_pages (tls s offset) 0))) s = Some s1"
    "sender_queues (recovery_test_free offset) (tls_sender_queue (tls s1 offset)) s1 = Some s2"
    "receiver_queues (recovery_test_free offset) (tls_receiver_queue (tls s2 offset)) s2 = Some s3"
    "refs_gone g rs (set qs \<union> set ms) s s3"
    using refs_phase[OF id g dead] by blast
  obtain s4 s5 where s5: "dead_bins offset s3 = Some s4" "for_range (free_dead_segment offset) 0 MAX_SEGMENT_NUM s4 = Some s5"
    "tls s5 = tls s" "reclaimed g rs (set qs \<union> set ms) (set (all_pages ps CXL_BIN_SIZE)) s s5"
    using pages_phase[OF g(1) dead s3(4) known placed] by blast
  let ?s = "upd_tls offset (\<lambda>t. t\<lparr>tls_packed_id := 0\<rparr>) (upd_tls offset reset_queues s5)"
  have "recovery_garbage_collection offset pid s = Some ?s"
    by (rule recovery_phases[OF s3(1-3) s5(1,2)]) (simp add: s5(3) pid)
  then show ?thesis using s5(3,4) by (intro exI[of _ ?s]) (simp add: reclaimed_tls state_simps)
qed

section \<open>What the sweep finds\<close>

text \<open>A queue of the dead thread, or one that was not in use, is not in use afterwards.\<close>

lemma queue_idle:
  assumes fin: "reclaimed g rs Q ps s s'" and q: "q \<in> Q \<or> spare_queue g Q q s"
    and here: "in_page (fst p) (snd p) (mq_ids q)" and p: "p \<notin> set rs" "p \<notin> ps"
  shows "\<not> queue_used q s'"
proof (cases "q \<in> Q")
  case True
  then show ?thesis using fin unfolding reclaimed_def by blast
next
  case False
  then have spare: "spare_queue g Q q s" using q by simp
  have "\<not> in_page (fst p') (snd p') (mq_ids q)" if "p' \<in> set rs \<union> ps" for p'
    using in_page_unique[OF here, of "fst p'" "snd p'"] that p by (metis UnE prod_eqI)
  then have "cell s' (mq_ids q) = cell s (mq_ids q)" using fin spare unfolding reclaimed_def spare_queue_def by blast
  then show ?thesis using spare by (simp add: spare_queue_def queue_used_def)
qed

lemma page_use:
  assumes g: "graph_ok g" "heap_ok g s" and known: "pages_known g offset rs Q ps s"
    and fin: "reclaimed g rs Q ps s s'" and i: "i < MAX_SEGMENT_NUM" "k < PAGES_PER_SEGMENT"
  shows "page_fit i k s'"
    and "page_used i k s' \<Longrightarrow> \<exists>b. reached g (left_refs g rs Q) s b \<and> in_segment i b"
proof -
  let ?p = "(i, k)"
  note r = fin[unfolded reclaimed_def]
  have "page_fit i k s' \<and> (page_used i k s' \<longrightarrow> (\<exists>b. reached g (left_refs g rs Q) s b \<and> in_segment i b))"
  proof (cases "pg_block_size (page s' (desc ?p)) = 0")
    case False
    have "page s' (desc ?p) \<in> {zero_page, page s (desc ?p)}" using r by blast
    then have same: "page s' (desc ?p) = page s (desc ?p)" "page s' (desc ?p) \<noteq> zero_page"
      using False by (auto simp: zero_page_def)
    have nr: "?p \<notin> set rs" using r same(2) by blast
    have vp: "valid_page ?p" using i by (simp add: valid_page_def)
    have cur: "pg_block_size (page s (desc ?p)) \<noteq> 0" using False same(1) by simp
    have p: "page_fit i k s" "if pg_is_msg_queue (page s (desc ?p))
        then ?p \<notin> ps \<and> (\<forall>q \<in> set (blocks_of i k s). q \<in> Q \<or> spare_queue g Q q s)
        else set (blocks_of i k s) \<subseteq> gr_obj g"
      using mp[OF spec[OF known[unfolded pages_known_def], of ?p] vp] nr cur by (simp_all only: fst_conv snd_conv) presburger+
    have fit: "page_fit i k s'" "blocks_of i k s' = blocks_of i k s"
      using p(1) same(1) by (simp_all add: page_fit_def page_bs_def blocks_of_def)
    have bs: "16 \<le> unat (page_bs i k s)" "unat (page_bs i k s) \<le> 2 ^ 16" using p(1) cur by (auto simp: page_fit_def)
    have "\<exists>b. reached g (left_refs g rs Q) s b \<and> in_segment i b" if used: "page_used i k s'"
    proof (cases "pg_is_msg_queue (page s (desc ?p))")
      case True
      then have big: "192 \<le> unat (page_bs i k s)" using p(1) cur by (auto simp: page_fit_def)
      have "\<not> queue_used q s'" if q: "q \<in> set (blocks_of i k s)" for q
      proof -
        have "in_page i k (q + of_nat 16)" by (rule blocks_of_bound[OF i bs q]) (use big in simp)
        then have "in_page (fst ?p) (snd ?p) (mq_ids q)" by (simp add: mq_ids_def)
        moreover have "q \<in> Q \<or> spare_queue g Q q s" "?p \<notin> ps" using p(2) True q by simp_all
        ultimately show ?thesis using queue_idle[OF fin _ _ nr] by blast
      qed
      then show ?thesis using used True same(1) fit(2) by (simp add: page_used_def)
    next
      case no: False
      then obtain b where b: "b \<in> set (blocks_of i k s)" "0 < obj_cnt b s'"
        using used same(1) fit(2) by (auto simp: page_used_def)
      then have "b \<in> gr_obj g" using p(2) no by auto
      then have "reached g (left_refs g rs Q) s b" using r b(2) by blast
      moreover have "in_page i k (b + of_nat 0)" by (rule blocks_of_bound[OF i bs b(1)]) (use bs(1) in simp)
      ultimately show ?thesis using in_page_segment by auto
    qed
    then show ?thesis using fit(1) by blast
  qed (simp add: page_fit_def page_used_def)
  then show "page_fit i k s'" "page_used i k s' \<Longrightarrow> \<exists>b. reached g (left_refs g rs Q) s b \<and> in_segment i b" by blast+
qed

text \<open>A segment with an object that can still be reached is in use and keeps its owner, and no other is in use.\<close>

lemma segment_use:
  assumes g: "graph_ok g" "heap_ok g s" and known: "pages_known g offset rs Q ps s" and placed: "objs_placed g rs Q ps s"
    and fin: "reclaimed g rs Q ps s s'" and i: "i < MAX_SEGMENT_NUM"
  shows "segment_fit i s'" "segment_used i s' \<longleftrightarrow> (\<exists>b. reached g (left_refs g rs Q) s b \<and> in_segment i b)"
    and "segment_used i s' \<Longrightarrow> sas_thread_id (sas s' (of_nat i)) = sas_thread_id (sas s (of_nat i))"
proof -
  note use = page_use[OF g known fin i]
  show "segment_fit i s'" using use(1) by (simp add: segment_fit_def)
  have live: "segment_used i s' \<and> sas_thread_id (sas s' (of_nat i)) = sas_thread_id (sas s (of_nat i))"
    if b: "reached g (left_refs g rs Q) s b" "in_segment i b" for b
  proof -
    have obj: "b \<in> gr_obj g" by (rule reached_obj[OF g _ b(1)]) (simp add: left_refs_def)
    obtain p where p: "holds_obj rs b p s" using placed obj unfolding objs_placed_def by blast
    have o: "valid_page p" "p \<notin> set rs" "pg_block_size (page s (desc p)) \<noteq> 0" "\<not> pg_is_msg_queue (page s (desc p))"
      "b \<in> set (blocks_of (fst p) (snd p) s)"
      using p unfolding holds_obj_def by blast+
    have v: "fst p < MAX_SEGMENT_NUM" "snd p < PAGES_PER_SEGMENT" using o(1) by (simp_all add: valid_page_def)
    have "page_fit (fst p) (snd p) s"
      using mp[OF spec[OF known[unfolded pages_known_def], of p] o(1)] o(2,3) by blast
    then have bs: "16 \<le> unat (page_bs (fst p) (snd p) s)" "unat (page_bs (fst p) (snd p) s) \<le> 2 ^ 16"
      using o(3) by (auto simp: page_fit_def)
    have "in_page (fst p) (snd p) (b + of_nat 0)" by (rule blocks_of_bound[OF v bs o(5)]) (use bs(1) in simp)
    then have "in_segment (fst p) b" using in_page_segment by simp
    from in_segment_unique[OF b(2) this] have i': "fst p = i" by simp
    have same: "page s' (desc p) = page s (desc p)"
      "sas_thread_id (sas s' (of_nat (fst p))) = sas_thread_id (sas s (of_nat (fst p)))"
      using fin b(1) p unfolding reclaimed_def by blast+
    have "0 < obj_cnt b s'" using fin obj b(1) unfolding reclaimed_def by blast
    moreover have "b \<in> set (blocks_of (fst p) (snd p) s')" using o(5) same(1) by (simp add: blocks_of_def page_bs_def)
    ultimately have "page_used (fst p) (snd p) s'" using o(3,4) same(1) unfolding page_used_def by auto
    then show ?thesis using v(2) same(2) i' unfolding segment_used_def by blast
  qed
  show iff: "segment_used i s' \<longleftrightarrow> (\<exists>b. reached g (left_refs g rs Q) s b \<and> in_segment i b)"
    using live use(2) unfolding segment_used_def by blast
  show "segment_used i s' \<Longrightarrow> sas_thread_id (sas s' (of_nat i)) = sas_thread_id (sas s (of_nat i))"
    using iff live by blast
qed

section \<open>One round of the monitor\<close>

text \<open>The state a crash leaves, before the replay of the log.\<close>

definition crashed :: "obj_graph \<Rightarrow> nat \<Rightarrow> page_no list \<Rightarrow> u64 list \<Rightarrow> u64 list \<Rightarrow> (nat \<Rightarrow> page_no list) \<Rightarrow> shm \<Rightarrow> bool" where
  "crashed g n rs qs ms ps s \<longleftrightarrow> n < MAX_THREAD \<and> tls_packed_id (tls s (tls_at n)) \<noteq> 0 \<and>
     (\<forall>m < MAX_THREAD. m \<noteq> n \<longrightarrow> tls_packed_id (tls s (tls_at m)) = 0) \<and> graph_ok g \<and> on_pages (gr_obj g) \<and>
     (let s' = redo_ref_cnt (tls_at n) s; Q = set qs \<union> set ms; ps' = set (all_pages ps CXL_BIN_SIZE)
      in dead_state g (tls_at n) rs qs ms ps s' \<and> pages_known g (tls_at n) rs Q ps' s' \<and> objs_placed g rs Q ps' s')"

lemma one_round:
  assumes "crashed g n rs qs ms ps s"
  defines "s1 \<equiv> redo_ref_cnt (tls_at n) s"
  shows "\<exists>s'. single_recovery_loop s = Some s' \<and> no_thread s' \<and>
    (\<forall>i < MAX_SEGMENT_NUM. sas_thread_id (sas s' (of_nat i)) =
       (if \<exists>b. reached g (left_refs g rs (set qs \<union> set ms)) s1 b \<and> in_segment i b
        then sas_thread_id (sas s1 (of_nat i)) else 0))"
proof -
  let ?t = "tls_at n" and ?Q = "set qs \<union> set ms" and ?ps = "set (all_pages ps CXL_BIN_SIZE)"
  have c: "n < MAX_THREAD" "tls_packed_id (tls s ?t) \<noteq> 0" "\<forall>m < MAX_THREAD. m \<noteq> n \<longrightarrow> tls_packed_id (tls s (tls_at m)) = 0"
    "graph_ok g" "on_pages (gr_obj g)" "dead_state g ?t rs qs ms ps s1" "pages_known g ?t rs ?Q ?ps s1" "objs_placed g rs ?Q ?ps s1"
    using assms(1) unfolding crashed_def Let_def s1_def by blast+
  have tls: "tls s1 = tls s" unfolding s1_def by (rule redo_ref_cnt_tls)
  obtain s2 where s2: "recovery_garbage_collection ?t (tls_packed_id (tls s ?t)) s1 = Some s2" "reclaimed g rs ?Q ?ps s1 s2"
    and tls2: "tls s2 = (tls s)(?t := (reset_queues (tls s ?t))\<lparr>tls_packed_id := 0\<rparr>)"
    using dead_thread_reclaimed[OF tls_id_valid[OF c(1)] c(4-6) _ c(7,8)] tls by metis
  then have free: "no_thread s2" using c(3) by (auto simp: no_thread_def)
  have "recover_thread n s = Some s2"
    using s2(1) c(2) by (simp add: recover_thread_def check_tls_def Let_def s1_def tls_at_def)
  then have first: "for_range recover_thread 0 MAX_THREAD s = Some s2" using recover_single[OF c(1,3)] free by blast
  note use = segment_use[OF c(4) dead_stateD(1)[OF c(6)] c(7,8) s2(2)]
  obtain s3 where s3: "for_range sweep_segment 0 MAX_SEGMENT_NUM s2 = Some s3" "tls s3 = tls s2"
    "\<forall>i < MAX_SEGMENT_NUM. sas s3 (of_nat i) = (if sas_thread_id (sas s2 (of_nat i)) \<noteq> 0 \<and> \<not> segment_used i s2
       then released_sas (sas s2 (of_nat i)) else sas s2 (of_nat i))"
    using sweep_all_segments[of s2] use(1) by blast
  have "sas_thread_id (sas s3 (of_nat i)) = (if segment_used i s2 then sas_thread_id (sas s1 (of_nat i)) else 0)"
    if i: "i < MAX_SEGMENT_NUM" for i
    using s3(3)[rule_format, OF i] use(3)[OF i] by (simp add: released_sas_def)
  then show ?thesis
    using first s3(1,2) free use(2) by (intro exI[of _ s3]) (simp add: single_recovery_loop_def no_thread_def)
qed

text \<open>
  C6: One thread is registered and it has died; any other reference is in a cell that no registered
  thread owns, as the monitor takes every registered thread for dead (\<open>check_tls\<close>), no message queue but
  its own is in use and nobody else is registered at those, and no other page of root references is in
  use. Then one round of the monitor returns, frees the thread state and gives back exactly the segments
  without an object that can be reached, after the replay of the log, from a reference the dead thread
  did not hold; objects may refer to each other in any acyclic way.
\<close>

lemma reclaims_exactly:
  assumes "crashed g n rs qs ms ps s"
  shows "\<exists>s'. single_recovery_loop s = Some s' \<and> no_thread s' \<and>
    (\<forall>i < MAX_SEGMENT_NUM. sas_thread_id (sas s' (of_nat i)) =
       (if \<exists>b. reached g (left_refs g rs (set qs \<union> set ms)) (redo_ref_cnt (tls_at n) s) b \<and> in_segment i b
        then sas_thread_id (sas (redo_ref_cnt (tls_at n) s) (of_nat i)) else 0))"
  by (rule one_round[OF assms])


end
