(* ===== verification/Hash_Index.thy ===== *)
theory Hash_Index
  imports Cxl_Ref
begin

text \<open>
  The hash index (\<open>src/hash_index.cpp\<close>): one table of \<open>2^17\<close> chains per partition. A node is an object
  of three data cells, the key, the value and the next link; the table's cells and the links are
  counted references. A thread puts into the partition of its id, a reader finds the partition in
  the top byte of the key.
\<close>

section \<open>Operations\<close>

definition hash_offset :: "u64 \<Rightarrow> u64" where
  "hash_offset key = key AND (push_bit 17 1 - 1)"

definition hash_entry :: "u64 \<Rightarrow> u64 \<Rightarrow> u64" where
  "hash_entry partition_id key = HASH_TABLE_START + partition_id * HASH_TABLE_SIZE + hash_offset key * 8"

text \<open>
  The loop of \<open>put\<close> and \<open>get\<close> over a chain: \<open>Inr data\<close> is the node with the key, \<open>Inl entry\<close> the
  empty cell at the end of the chain.
\<close>

partial_function (option) hash_find :: "u64 \<Rightarrow> u64 \<Rightarrow> shm \<Rightarrow> (u64 + u64) option" where
  "hash_find key entry s =
     (if cell s entry \<noteq> 0
      then (let data = cell s entry + sizeof_CXLObj
            in if cell s data = key then Some (Inr data) else hash_find key (data + 16) s)
      else Some (Inl entry))"

definition hash_put :: "client \<Rightarrow> u64 \<Rightarrow> u64 \<Rightarrow> shm \<Rightarrow> shm option" where
  "hash_put c key val s =
     do {
       r \<leftarrow> hash_find key (hash_entry (ucast (cl_thread_id c - 1)) key) s;
       case r of
         Inr data \<Rightarrow> Some (set_cell (data + 8) val s)
       | Inl entry \<Rightarrow>
           do {
             bin \<leftarrow> cxl_page_queue False (3 * 8 + sizeof_CXLObj);
             let q = (cl_tls_offset c, bin);
             ((block, pg), s) \<leftarrow> cxl_page_malloc c q (cxl_find_page q s) s;
             b \<leftarrow> block;
             let s = take_block b pg s;
             let s = set_cell (obj_info b) (pack_ref_info (ucast (cl_thread_id c)) 0 (own_era c s)) s;
             let s = set_cell (obj_emb b) 0 s;
             let data = b + sizeof_CXLObj;
             let s = set_cell data key s;
             let s = set_cell (data + 8) val s;
             let s = set_cell (data + 16) 0 s;
             Some (link_reference c entry b s)
           }
     }"

definition hash_get :: "u64 \<Rightarrow> shm \<Rightarrow> u64 option option" where
  "hash_get key s =
     do {
       r \<leftarrow> hash_find key (hash_entry (drop_bit 56 key) key) s;
       case r of
         Inr data \<Rightarrow> Some (Some (cell s (data + 8)))
       | Inl _ \<Rightarrow> Some None
     }"

section \<open>Chains\<close>

primrec hash_path :: "(u64 \<Rightarrow> u64) \<Rightarrow> u64 \<Rightarrow> u64 list \<Rightarrow> bool" where
  "hash_path m e [] \<longleftrightarrow> m e = 0"
| "hash_path m e (b # bs) \<longleftrightarrow> m e = b \<and> b \<noteq> 0 \<and> hash_path m (b + 40) bs"

primrec path_end :: "u64 \<Rightarrow> u64 list \<Rightarrow> u64" where
  "path_end e [] = e"
| "path_end e (b # bs) = path_end (b + 40) bs"

text \<open>What the nodes of a chain store; the first node with a key counts.\<close>

definition hash_content :: "(u64 \<Rightarrow> u64) \<Rightarrow> u64 list \<Rightarrow> u64 \<rightharpoonup> u64" where
  "hash_content m bs = map_of (map (\<lambda>b. (m (b + 24), m (b + 32))) bs)"

lemma hash_content_simps [simp]:
  "hash_content m [] = Map.empty"
  "hash_content m (b # bs) = (hash_content m bs)(m (b + 24) \<mapsto> m (b + 32))"
  by (simp_all add: hash_content_def)

lemma hash_content_append: "hash_content m (us @ vs) = hash_content m vs ++ hash_content m us"
  by (simp add: hash_content_def)

lemma hash_content_None:
  "hash_content m bs key = None \<longleftrightarrow> (\<forall>b \<in> set bs. m (b + 24) \<noteq> key)"
  by (induction bs) auto

text \<open>The search returns, on a chain that ends.\<close>

lemma hash_find_miss:
  "hash_path (cell s) e bs \<Longrightarrow> \<forall>b \<in> set bs. cell s (b + 24) \<noteq> key \<Longrightarrow>
     hash_find key e s = Some (Inl (path_end e bs))"
proof (induction bs arbitrary: e)
  case Nil
  then show ?case by (subst hash_find.simps) simp
next
  case (Cons b bs)
  then show ?case
    by (subst hash_find.simps) (simp add: Let_def layout_simps add.assoc)
qed

lemma hash_find_hit:
  "hash_path (cell s) e (us @ b # vs) \<Longrightarrow> \<forall>x \<in> set us. cell s (x + 24) \<noteq> key \<Longrightarrow>
     cell s (b + 24) = key \<Longrightarrow> hash_find key e s = Some (Inr (b + 24))"
proof (induction us arbitrary: e)
  case Nil
  then show ?case by (subst hash_find.simps) (auto simp: Let_def layout_simps)
next
  case (Cons u us)
  then show ?case
    by (subst hash_find.simps) (auto simp: Let_def layout_simps add.assoc)
qed

lemma hash_content_hit:
  "\<forall>x \<in> set us. m (x + 24) \<noteq> key \<Longrightarrow> m (b + 24) = key \<Longrightarrow>
     hash_content m (us @ b # vs) key = Some (m (b + 32))"
  by (simp add: hash_content_append map_add_def hash_content_None[THEN iffD2])

lemma hash_content_split:
  assumes "hash_content m bs key \<noteq> None"
  obtains us b vs where "bs = us @ b # vs" "\<forall>x \<in> set us. m (x + 24) \<noteq> key" "m (b + 24) = key"
proof -
  have "\<exists>b \<in> set bs. m (b + 24) = key" using assms unfolding hash_content_None by blast
  from split_list_first_prop[OF this] show thesis using that by metis
qed

section \<open>Separate nodes\<close>

definition node_cells :: "u64 \<Rightarrow> u64 set" where
  "node_cells b = {b + 24, b + 32, b + 40}"

definition nodes_ok :: "u64 \<Rightarrow> u64 list \<Rightarrow> bool" where
  "nodes_ok e bs \<longleftrightarrow> distinct bs \<and> (\<forall>b \<in> set bs. e \<notin> node_cells b) \<and>
     (\<forall>b \<in> set bs. \<forall>b' \<in> set bs. b \<noteq> b' \<longrightarrow> node_cells b \<inter> node_cells b' = {})"

lemma hash_path_cong:
  assumes "m' e = m e" "\<forall>b \<in> set bs. m' (b + 40) = m (b + 40)"
  shows "hash_path m' e bs = hash_path m e bs"
  using assms by (induction bs arbitrary: e) auto

lemma hash_content_cong:
  assumes "\<forall>b \<in> set bs. m' (b + 24) = m (b + 24) \<and> m' (b + 32) = m (b + 32)"
  shows "hash_content m' bs = hash_content m bs"
  using assms by (induction bs) auto

text \<open>Changing the value of the first node with a key.\<close>

lemma node_update:
  assumes ok: "nodes_ok e (us @ b # vs)" and path: "hash_path m e (us @ b # vs)"
    and us: "\<forall>x \<in> set us. m (x + 24) \<noteq> key" and key: "m (b + 24) = key"
  shows "hash_path (m(b + 32 := v)) e (us @ b # vs)"
    and "hash_content (m(b + 32 := v)) (us @ b # vs) = (hash_content m (us @ b # vs))(key \<mapsto> v)"
proof -
  let ?m = "m(b + 32 := v)"
  have other: "b + 32 \<notin> node_cells x" if "x \<in> set us \<union> set vs" for x
  proof -
    have "x \<noteq> b" "x \<in> set (us @ b # vs)" "b \<in> set (us @ b # vs)"
      using that ok by (auto simp: nodes_ok_def)
    then have "node_cells x \<inter> node_cells b = {}" using ok by (simp add: nodes_ok_def)
    then show ?thesis by (auto simp: node_cells_def)
  qed
  have e: "e \<noteq> b + 32" using ok by (auto simp: nodes_ok_def node_cells_def)
  have links: "\<forall>x \<in> set (us @ b # vs). ?m (x + 40) = m (x + 40)"
    using other by (auto simp: node_cells_def)
  show "hash_path ?m e (us @ b # vs)"
    using hash_path_cong[of ?m e m "us @ b # vs", OF _ links] e path by simp
  have parts: "hash_content ?m us = hash_content m us" "hash_content ?m vs = hash_content m vs"
    by (rule hash_content_cong; use other in \<open>auto simp: node_cells_def\<close>)+
  have none: "hash_content m us key = None" using us by (simp add: hash_content_None)
  have b24: "?m (b + 24) = key" using key by simp
  show "hash_content ?m (us @ b # vs) = (hash_content m (us @ b # vs))(key \<mapsto> v)"
    using none key by (rule_tac ext) (simp add: hash_content_append parts b24 map_add_def split: option.split)
qed

text \<open>Appending a node.\<close>

abbreviation links :: "u64 \<Rightarrow> u64 list \<Rightarrow> u64 list" where
  "links e bs \<equiv> e # map (\<lambda>b. b + 40) bs"

lemma path_end_last: "path_end e bs = last (links e bs)"
  by (induction bs arbitrary: e) auto

lemma links_distinct: "nodes_ok e bs \<Longrightarrow> distinct (links e bs)"
  by (auto simp: nodes_ok_def node_cells_def distinct_map inj_on_def)

lemma links_butlast: "nodes_ok e bs \<Longrightarrow> path_end e bs \<notin> set (butlast (links e bs))"
  unfolding path_end_last
  by (metis append_butlast_last_id distinct_append disjoint_iff links_distinct list.distinct(1)
      list.set_intros(1))

lemma hash_path_append:
  assumes "hash_path m e bs" "\<forall>x \<in> set (butlast (links e bs)). m' x = m x"
    "m' (path_end e bs) = b" "b \<noteq> 0" "m' (b + 40) = 0"
  shows "hash_path m' e (bs @ [b])"
  using assms
proof (induction bs arbitrary: e)
  case (Cons a bs)
  have "m' e = m e" using Cons.prems(2) by simp
  moreover have "hash_path m' (a + 40) (bs @ [b])"
    using Cons.prems by (intro Cons.IH) (auto split: if_splits)
  ultimately show ?case using Cons.prems(1) by simp
qed simp

lemma path_empty: "hash_path m e bs \<Longrightarrow> m (path_end e bs) = 0"
  by (induction bs arbitrary: e) auto

section \<open>Lookup\<close>

definition in_partition :: "client \<Rightarrow> u64 \<Rightarrow> bool" where
  "in_partition c key \<longleftrightarrow> drop_bit 56 key = ucast (cl_thread_id c - 1)"

lemma hash_get_content:
  assumes "hash_path (cell s) (hash_entry (drop_bit 56 key) key) bs"
  shows "hash_get key s = Some (hash_content (cell s) bs key)"
proof (cases "hash_content (cell s) bs key")
  case None
  then have "\<forall>b \<in> set bs. cell s (b + 24) \<noteq> key" by (simp add: hash_content_None)
  from hash_find_miss[OF assms this] None show ?thesis by (simp add: hash_get_def)
next
  case (Some v)
  then have "hash_content (cell s) bs key \<noteq> None" by simp
  then obtain us b vs where split: "bs = us @ b # vs" "\<forall>x \<in> set us. cell s (x + 24) \<noteq> key"
    "cell s (b + 24) = key" by (rule hash_content_split)
  have "hash_find key (hash_entry (drop_bit 56 key) key) s = Some (Inr (b + 24))"
    using assms split by (intro hash_find_hit) auto
  moreover have "hash_content (cell s) bs key = Some (cell s (b + 32))"
    unfolding split(1) by (rule hash_content_hit[OF split(2,3)])
  ultimately show ?thesis by (simp add: hash_get_def add.assoc)
qed

section \<open>Putting a key that is there\<close>

lemma hash_put_update:
  assumes path: "hash_path (cell s) e bs" and e: "e = hash_entry (ucast (cl_thread_id c - 1)) key"
    and ok: "nodes_ok e bs" and old: "hash_content (cell s) bs key \<noteq> None"
  shows "\<exists>s'. hash_put c key v s = Some s' \<and> hash_path (cell s') e bs \<and>
     hash_content (cell s') bs = (hash_content (cell s) bs)(key \<mapsto> v) \<and>
     page s' = page s \<and> segment s' = segment s \<and> sas s' = sas s \<and> tls s' = tls s \<and>
     era_tab s' = era_tab s"
proof -
  obtain us b vs where split: "bs = us @ b # vs" "\<forall>x \<in> set us. cell s (x + 24) \<noteq> key"
    "cell s (b + 24) = key" using hash_content_split[OF old] .
  have "hash_find key e s = Some (Inr (b + 24))"
    using path split by (intro hash_find_hit) auto
  then have "hash_put c key v s = Some (set_cell (b + 32) v s)"
    by (simp add: hash_put_def e[symmetric] add.assoc)
  then show ?thesis
    using node_update[OF ok[unfolded split(1)] path[unfolded split(1)] split(2,3), of v]
    by (simp add: state_simps split(1) del: hash_path.simps)
qed

section \<open>Putting a new key\<close>

text \<open>The object a new node is built in, before it is linked.\<close>

definition node_state :: "client \<Rightarrow> u64 \<Rightarrow> u64 \<Rightarrow> u64 \<Rightarrow> u64 \<Rightarrow> shm \<Rightarrow> shm" where
  "node_state c b pg key v s = set_cell (b + 40) 0 (set_cell (b + 32) v (set_cell (b + 24) key
     (set_cell (b + 16) 0 (set_cell (b + 8) (commit_word c 0 (own_era c s)) (take_block b pg s)))))"

lemma node_state_sel:
  "cell (node_state c b pg key v s) = (cell s)(b + 8 := commit_word c 0 (own_era c s), b + 16 := 0,
     b + 24 := key, b + 32 := v, b + 40 := 0)"
  "own_era c (node_state c b pg key v s) = own_era c s"
  by (simp_all add: node_state_def state_simps)

lemma node_state_inv:
  assumes "page_inv i k 48 (b # fs) ls s"
  shows "page_inv i k 48 fs ls (node_state c b (meta_at (seg_at i) k) key v s)"
proof -
  note t = page_inv_take[OF assms]
  have live: "page_inv i k 48 fs ls (set_cell (b + of_nat d) w s')"
    if "page_inv i k 48 fs ls s'" "d < 48" for d w s'
    using page_inv_live_write[OF that(1) t(2), of d] that(2) by simp
  show ?thesis
    unfolding node_state_def
    using live[OF live[OF live[OF live[OF live[OF t(1), of 8], of 16], of 24], of 32], of 40] by simp
qed

lemma hash_put_insert:
  assumes path: "hash_path (cell s) e bs" and e: "e = hash_entry (ucast (cl_thread_id c - 1)) key"
    and ok: "nodes_ok e (bs @ [b])" and new: "hash_content (cell s) bs key = None"
    and inv: "page_inv i k 48 (b # fs) ls s" and front: "queue_front (cl_tls_offset c, Bin 4) i k s"
    and apart: "\<forall>x \<in> insert e (\<Union> (node_cells ` set bs)). x \<notin> {b + 8, b + 16} \<and> x \<notin> set (fs @ ls)"
    and id: "valid_id (uint (cl_thread_id c))"
  shows "\<exists>s'. hash_put c key v s = Some s' \<and> hash_path (cell s') e (bs @ [b]) \<and>
     hash_content (cell s') (bs @ [b]) = (hash_content (cell s) bs)(key \<mapsto> v) \<and>
     page_inv i k 48 fs ls s' \<and> obj_cnt b s' = 1 \<and> own_era c s' = own_era c s + 1"
proof -
  let ?p = "meta_at (seg_at i) k" and ?pe = "path_end e bs"
  let ?n = "node_state c b ?p key v s"
  let ?s = "link_reference c ?pe b ?n"
  have okbs: "nodes_ok e bs" using ok by (auto simp: nodes_ok_def)
  have pe: "?pe \<in> insert e (\<Union> (node_cells ` set bs))"
    using last_in_set[of "links e bs"] by (auto simp: path_end_last node_cells_def)
  have old: "x \<notin> {b + 8, b + 16, b + 24, b + 32, b + 40}"
    if "x \<in> insert e (\<Union> (node_cells ` set bs))" for x
  proof -
    have "x \<notin> node_cells b" using that ok by (auto simp: nodes_ok_def)
    then show ?thesis using that apart by (auto simp: node_cells_def)
  qed
  have pne: "?pe \<noteq> obj_info b" using old[OF pe] by (simp add: obj_info_def)
  have word: "cell ?n (obj_info b) = commit_word c 0 (own_era c s)"
    by (simp add: node_state_sel obj_info_def)
  have f: "get_ref_cnt_from_info (commit_word c 0 x) = 0"
    "saw_cid (commit_word c 0 x) = uint (cl_thread_id c)" "saw_era (commit_word c 0 x) = x" for x
    by (rule commit_word_fields[OF id]; simp)+
  have era: "era_ok c (cell ?n (obj_info b)) ?n"
    using id by (simp add: era_ok_def word f node_state_sel(2))
  have cnt: "obj_cnt b ?n = 0" by (simp add: obj_cnt_def word f)
  then have "obj_cnt b ?n < 65535" by simp
  note l = link_reference_count[OF era this pne]
  have cells: "cell ?s x = cell s x" if "x \<in> insert e (\<Union> (node_cells ` set bs))" "x \<noteq> ?pe" for x
    using l(6)[rule_format, of x] old[OF that(1)] that(2) by (simp add: obj_info_def node_state_sel)
  have node: "cell ?s (b + 24) = key" "cell ?s (b + 32) = v" "cell ?s (b + 40) = 0"
    using l(6)[rule_format, of "b + 24"] l(6)[rule_format, of "b + 32"] l(6)[rule_format, of "b + 40"]
      old[OF pe] by (auto simp: obj_info_def node_state_sel)
  have "x \<in> insert e (\<Union> (node_cells ` set bs))" if "x \<in> set (butlast (links e bs))" for x
    using in_set_butlastD[OF that] by (auto simp: node_cells_def)
  then have "\<forall>x \<in> set (butlast (links e bs)). cell ?s x = cell s x"
    using links_butlast[OF okbs] cells by metis
  then have path': "hash_path (cell ?s) e (bs @ [b])"
    using page_inv_take(3)[OF inv] l(2) node(3) by (intro hash_path_append[OF path]) auto
  have vals: "\<forall>x \<in> set bs. cell ?s (x + 24) = cell s (x + 24) \<and> cell ?s (x + 32) = cell s (x + 32)"
  proof
    fix x assume x: "x \<in> set bs"
    have "x + 24 \<noteq> y \<and> x + 32 \<noteq> y" if y: "y \<in> set (links e bs)" for y
    proof (cases "y = e")
      case True
      then show ?thesis using okbs x by (auto simp: nodes_ok_def node_cells_def)
    next
      case False
      then obtain z where z: "z \<in> set bs" "y = z + 40" using y by auto
      have "node_cells x \<inter> node_cells z = {}" if "x \<noteq> z"
        using okbs x z(1) that by (simp add: nodes_ok_def)
      then show ?thesis using z(2) by (cases "x = z") (auto simp: node_cells_def)
    qed
    from this[of ?pe] have "x + 24 \<noteq> ?pe \<and> x + 32 \<noteq> ?pe"
      using last_in_set[of "links e bs"] by (simp only: path_end_last) simp
    then show "cell ?s (x + 24) = cell s (x + 24) \<and> cell ?s (x + 32) = cell s (x + 32)"
      using cells x by (auto simp: node_cells_def)
  qed
  have "hash_content (cell ?s) (bs @ [b]) = (hash_content (cell s) bs)(key \<mapsto> v)"
    using new by (rule_tac ext)
      (auto simp: hash_content_append hash_content_cong[OF vals] node map_add_def split: option.split)
  moreover have "hash_put c key v s = Some ?s"
  proof -
    have "hash_find key e s = Some (Inl ?pe)"
      using new hash_find_miss[OF path] by (simp add: hash_content_None)
    moreover have "cxl_page_queue False (3 * 8 + sizeof_CXLObj) = Some (Bin 4)"
      by (simp add: cxl_page_queue_def layout_simps Let_def drop_bit_eq_div unat_div)
    ultimately show ?thesis
      using page_malloc_hit[OF inv front]
      by (simp add: hash_put_def e[symmetric] node_state_def commit_word_def Let_def obj_info_def
          obj_emb_def layout_simps add.assoc state_simps)
  qed
  moreover have "page_inv i k 48 fs ls ?s"
    using pe apart by (intro link_reference_page_inv node_state_inv[OF inv] page_inv_take(2)[OF inv]) auto
  moreover have "obj_cnt b ?s = 1" "own_era c ?s = own_era c s + 1"
    using l(1,5) cnt by (simp_all add: node_state_sel(2))
  ultimately show ?thesis using path' by blast
qed

section \<open>The index as a map\<close>

text \<open>
  What a client of the index relies on: a state stands for a map on the keys of interest, lookups
  read it, and a put that finds a place updates it. A key that is there always has its place.
\<close>

fun put_seq :: "('k \<Rightarrow> 'v \<Rightarrow> 's \<Rightarrow> 's option) \<Rightarrow> ('k \<times> 'v) list \<Rightarrow> 's \<Rightarrow> 's option" where
  "put_seq put [] s = Some s"
| "put_seq put ((k, v) # kvs) s = do { s \<leftarrow> put k v s; put_seq put kvs s }"

locale kv_store =
  fixes holds :: "'s \<Rightarrow> ('k \<rightharpoonup> 'v) \<Rightarrow> bool"
    and keys :: "'k set"
    and fits :: "'k \<Rightarrow> 's \<Rightarrow> bool"
    and put :: "'k \<Rightarrow> 'v \<Rightarrow> 's \<Rightarrow> 's option"
    and get :: "'k \<Rightarrow> 's \<Rightarrow> 'v option option"
  assumes get_eq: "holds s m \<Longrightarrow> k \<in> keys \<Longrightarrow> get k s = Some (m k)"
    and put_ex: "holds s m \<Longrightarrow> k \<in> keys \<Longrightarrow> fits k s \<Longrightarrow> \<exists>s'. put k v s = Some s' \<and> holds s' (m(k \<mapsto> v))"
    and fits_old: "holds s m \<Longrightarrow> k \<in> keys \<Longrightarrow> m k \<noteq> None \<Longrightarrow> fits k s"
begin

lemma get_after_put:
  assumes "holds s m" "k \<in> keys" "k' \<in> keys" "fits k s"
  shows "\<exists>s'. put k v s = Some s' \<and> get k' s' = Some (if k' = k then Some v else m k')"
proof -
  obtain s' where s': "put k v s = Some s'" "holds s' (m(k \<mapsto> v))"
    using put_ex[OF assms(1,2,4)] by blast
  then show ?thesis using get_eq[OF s'(2) assms(3)] by auto
qed

lemma put_seq_map:
  assumes "holds s m" "\<forall>k \<in> fst ` set kvs. k \<in> keys \<and> m k \<noteq> None"
  shows "\<exists>s'. put_seq put kvs s = Some s' \<and> holds s' (m ++ map_of (rev kvs))"
  using assms
proof (induction kvs arbitrary: s m)
  case (Cons kv kvs)
  obtain k v where kv: "kv = (k, v)" by (cases kv)
  have k: "k \<in> keys" "m k \<noteq> None" using Cons.prems(2) kv by auto
  obtain s1 where s1: "put k v s = Some s1" "holds s1 (m(k \<mapsto> v))"
    using put_ex[OF Cons.prems(1) k(1) fits_old[OF Cons.prems(1) k]] by blast
  have "\<exists>s'. put_seq put kvs s1 = Some s' \<and> holds s' (m(k \<mapsto> v) ++ map_of (rev kvs))"
    by (rule Cons.IH[OF s1(2)]) (use Cons.prems(2) in auto)
  then obtain s' where s': "put_seq put kvs s1 = Some s'" "holds s' (m(k \<mapsto> v) ++ map_of (rev kvs))"
    by blast
  have eq: "m(k \<mapsto> v) ++ map_of (rev kvs) = m ++ map_of (rev (kv # kvs))"
    by (simp add: kv)
  have "put_seq put (kv # kvs) s = Some s'" by (simp add: kv s1(1) s'(1))
  then show ?case using s'(2) unfolding eq by (intro exI conjI)
qed simp

end

text \<open>One chain of the index: its keys, the map it stores, and room for a node.\<close>

definition bucket_keys :: "client \<Rightarrow> u64 \<Rightarrow> u64 set" where
  "bucket_keys c e = {key. valid_id (uint (cl_thread_id c)) \<and> in_partition c key \<and>
     hash_entry (drop_bit 56 key) key = e}"

definition bucket_holds :: "u64 \<Rightarrow> shm \<Rightarrow> (u64 \<rightharpoonup> u64) \<Rightarrow> bool" where
  "bucket_holds e s m \<longleftrightarrow> (\<exists>bs. hash_path (cell s) e bs \<and> nodes_ok e bs \<and> hash_content (cell s) bs = m)"

definition node_ready :: "client \<Rightarrow> u64 \<Rightarrow> u64 list \<Rightarrow> shm \<Rightarrow> bool" where
  "node_ready c e bs s \<longleftrightarrow> (\<exists>i k b fs ls. nodes_ok e (bs @ [b]) \<and> page_inv i k 48 (b # fs) ls s \<and>
     queue_front (cl_tls_offset c, Bin 4) i k s \<and>
     (\<forall>x \<in> insert e (\<Union> (node_cells ` set bs)). x \<notin> {b + 8, b + 16} \<and> x \<notin> set (fs @ ls)))"

definition bucket_fits :: "client \<Rightarrow> u64 \<Rightarrow> u64 \<Rightarrow> shm \<Rightarrow> bool" where
  "bucket_fits c e key s \<longleftrightarrow>
     (\<forall>bs. hash_path (cell s) e bs \<longrightarrow> hash_content (cell s) bs key \<noteq> None \<or> node_ready c e bs s)"

lemma hash_path_unique: "hash_path m e bs \<Longrightarrow> hash_path m e bs' \<Longrightarrow> bs = bs'"
proof (induction bs arbitrary: e bs')
  case Nil
  then show ?case by (cases bs') auto
next
  case (Cons b bs)
  then show ?case by (cases bs') auto
qed

lemma bucket_put:
  assumes holds: "bucket_holds e s m" and key: "key \<in> bucket_keys c e" and fits: "bucket_fits c e key s"
  shows "\<exists>s'. hash_put c key v s = Some s' \<and> bucket_holds e s' (m(key \<mapsto> v))"
proof -
  obtain bs where bs: "hash_path (cell s) e bs" "nodes_ok e bs" "hash_content (cell s) bs = m"
    using holds by (auto simp: bucket_holds_def)
  have e: "e = hash_entry (ucast (cl_thread_id c - 1)) key" and id: "valid_id (uint (cl_thread_id c))"
    using key by (auto simp: bucket_keys_def in_partition_def)
  show ?thesis
  proof (cases "hash_content (cell s) bs key")
    case (Some w)
    then have "hash_content (cell s) bs key \<noteq> None" by simp
    then obtain s' where s': "hash_put c key v s = Some s'" "hash_path (cell s') e bs"
      "hash_content (cell s') bs = m(key \<mapsto> v)"
      using hash_put_update[OF bs(1) e bs(2)] bs(3) by metis
    then show ?thesis using bs(2) by (auto simp: bucket_holds_def)
  next
    case None
    then have "node_ready c e bs s" using fits bs(1) by (auto simp: bucket_fits_def)
    then obtain i k b fs ls where r: "nodes_ok e (bs @ [b])" "page_inv i k 48 (b # fs) ls s"
      "queue_front (cl_tls_offset c, Bin 4) i k s"
      "\<forall>x \<in> insert e (\<Union> (node_cells ` set bs)). x \<notin> {b + 8, b + 16} \<and> x \<notin> set (fs @ ls)"
      unfolding node_ready_def by (elim exE conjE) (rule that)
    obtain s' where s': "hash_put c key v s = Some s'" "hash_path (cell s') e (bs @ [b])"
      "hash_content (cell s') (bs @ [b]) = m(key \<mapsto> v)"
      using hash_put_insert[OF bs(1) e r(1) None r(2-4) id, of v] bs(3) by metis
    then show ?thesis using r(1) unfolding bucket_holds_def by metis
  qed
qed

lemma bucket_get:
  assumes "bucket_holds e s m" "key \<in> bucket_keys c e"
  shows "hash_get key s = Some (m key)"
proof -
  obtain bs where "hash_path (cell s) e bs" "hash_content (cell s) bs = m"
    using assms(1) by (auto simp: bucket_holds_def)
  then show ?thesis using hash_get_content assms(2) by (auto simp: bucket_keys_def)
qed

interpretation hix: kv_store "bucket_holds e" "bucket_keys c e" "bucket_fits c e" "hash_put c" hash_get
  for c e
proof unfold_locales
  show "bucket_fits c e k s" if "bucket_holds e s m" "k \<in> bucket_keys c e" "m k \<noteq> None" for s m k
    using that hash_path_unique unfolding bucket_fits_def bucket_holds_def by metis
qed (fact bucket_get bucket_put)+

section \<open>The laws for the code's operations\<close>

text \<open>
  C21: put and get on a chain of the hash index are update and lookup of a map.
\<close>

lemma hash_get_after_put:
  assumes "bucket_holds e s m" "key \<in> bucket_keys c e" "key' \<in> bucket_keys c e" "bucket_fits c e key s"
  shows "\<exists>s'. hash_put c key v s = Some s' \<and> hash_get key' s' = Some (if key' = key then Some v else m key')"
  by (rule hix.get_after_put[OF assms])

end
