(* ===== verification/Machine_Id.thy ===== *)
theory Machine_Id
  imports Ref_Info
begin

text \<open>
  The machine id (\<open>get_mac\<close> of \<open>src/include/cxlmalloc-internal.h\<close>): the six bytes of the hardware address
  are printed with \<open>%X\<close>, separated by colons, into a buffer of 18 characters, read back with \<open>%x\<close>, and
  packed into one word. Whether the socket opened and the bytes of the request structure are inputs.
\<close>

section \<open>Operations\<close>

text \<open>\<open>%X\<close> and \<open>%x\<close> on the numbers of one byte.\<close>

definition hex_digit :: "nat \<Rightarrow> char" where
  "hex_digit n = ''0123456789ABCDEF'' ! n"

definition digit_value :: "char \<Rightarrow> nat option" where
  "digit_value c =
     (let n = of_char c :: nat
      in if 48 \<le> n \<and> n \<le> 57 then Some (n - 48)
         else if 65 \<le> n \<and> n \<le> 70 then Some (n - 55)
         else if 97 \<le> n \<and> n \<le> 102 then Some (n - 87) else None)"

definition print_byte :: "nat \<Rightarrow> string" where
  "print_byte b = (if b < 16 then [hex_digit b] else [hex_digit (b div 16), hex_digit (b mod 16)])"

fun print_mac :: "nat list \<Rightarrow> string" where
  "print_mac [] = []"
| "print_mac [b] = print_byte b"
| "print_mac (b # bs) = print_byte b @ '':'' @ print_mac bs"

text \<open>\<open>snprintf\<close> stores at most \<open>n - 1\<close> characters.\<close>

definition mac_text :: "nat \<Rightarrow> nat list \<Rightarrow> string" where
  "mac_text n bs = take (n - 1) (print_mac bs)"

text \<open>\<open>scan_hex acc s\<close>: the digits at the front of \<open>s\<close>, modulo the width of \<open>unsigned\<close>.\<close>

fun scan_hex :: "u32 \<Rightarrow> string \<Rightarrow> u32 \<times> string" where
  "scan_hex acc [] = (acc, [])"
| "scan_hex acc (c # cs) =
     (case digit_value c of None \<Rightarrow> (acc, c # cs) | Some d \<Rightarrow> scan_hex (acc * 16 + of_nat d) cs)"

text \<open>\<open>sscanf\<close> with \<open>n\<close> conversions separated by colons; it stops at the first mismatch.\<close>

fun scan_mac :: "nat \<Rightarrow> string \<Rightarrow> u32 list" where
  "scan_mac 0 s = []"
| "scan_mac (Suc n) s =
     (case s of
        [] \<Rightarrow> []
      | c # _ \<Rightarrow>
          (if digit_value c = None then []
           else (let (u, rest) = scan_hex 0 s
                 in u # (case rest of [] \<Rightarrow> [] | r # rs \<Rightarrow> if r = CHR '':'' then scan_mac n rs else []))))"

definition pack_bytes :: "u32 list \<Rightarrow> u64" where
  "pack_bytes us = fold (\<lambda>u result. push_bit 8 result + ucast u) us 0"

definition mac_bytes :: "(nat \<Rightarrow> 8 word) \<Rightarrow> nat list" where
  "mac_bytes sa_data = map (\<lambda>i. unat (sa_data i)) [0..<6]"

definition get_mac :: "bool \<Rightarrow> (nat \<Rightarrow> 8 word) \<Rightarrow> u64" where
  "get_mac sock_ok sa_data =
     (if \<not> sock_ok then - 1 else pack_bytes (scan_mac 6 (mac_text 18 (mac_bytes sa_data))))"

section \<open>Printing and reading\<close>

lemma digit_value_hex: "n < 16 \<Longrightarrow> digit_value (hex_digit n) = Some n"
proof -
  assume "n < 16"
  then have "n \<in> set [0..<16]" by simp
  then show ?thesis by (auto simp: upt_conv_Cons hex_digit_def digit_value_def Let_def)
qed

lemma length_print_byte: "length (print_byte b) \<le> 2"
  by (simp add: print_byte_def)

lemma scan_print_byte:
  assumes "b < 256" "rest = [] \<or> hd rest = CHR '':''"
  shows "scan_hex 0 (print_byte b @ rest) = (of_nat b, rest)"
proof -
  have colon: "digit_value (CHR '':'') = None" by (simp add: digit_value_def Let_def)
  then have stop: "scan_hex acc rest = (acc, rest)" for acc
    using assms(2) by (cases rest) auto
  have split: "of_nat (b div 16) * 16 + of_nat (b mod 16) = (of_nat b :: u32)"
    by (metis div_mult_mod_eq of_nat_add of_nat_mult of_nat_numeral)
  show ?thesis
    using assms(1) stop split by (simp add: print_byte_def digit_value_hex mult.commute)
qed

lemma print_byte_head: "b < 256 \<Longrightarrow> \<exists>c cs. print_byte b = c # cs \<and> digit_value c \<noteq> None"
  by (simp add: print_byte_def digit_value_hex)

lemma scan_print_mac:
  "\<forall>b \<in> set bs. b < 256 \<Longrightarrow> scan_mac (length bs) (print_mac bs) = map of_nat bs"
proof (induction bs rule: print_mac.induct)
  case (2 b)
  obtain c cs where "print_byte b = c # cs" "digit_value c \<noteq> None" using print_byte_head[of b] 2 by auto
  then show ?case using scan_print_byte[of b "[]"] 2 by simp
next
  case (3 b b' bs)
  let ?rest = "'':'' @ print_mac (b' # bs)"
  obtain c cs where c: "print_byte b = c # cs" "digit_value c \<noteq> None" using print_byte_head[of b] 3 by auto
  have "scan_hex 0 (print_byte b @ ?rest) = (of_nat b, ?rest)" using 3 by (intro scan_print_byte) simp_all
  then show ?case using 3 c by simp
qed simp

lemma length_print_mac: "length (print_mac bs) \<le> 3 * length bs - 1"
proof (induction bs rule: print_mac.induct)
  case (3 b b' bs)
  then show ?case using length_print_byte[of b] by simp
qed (use length_print_byte in auto)

text \<open>Six bytes fit the buffer, so the text is not cut off and the bytes are read back as printed.\<close>

lemma mac_bytes_lt: "\<forall>b \<in> set (mac_bytes sa). b < 256" "length (mac_bytes sa) = 6"
  using unsigned_less[where 'b = 8 and 'a = nat] by (auto simp: mac_bytes_def)

lemma mac_read:
  "mac_text 18 (mac_bytes sa) = print_mac (mac_bytes sa)"
  "scan_mac 6 (mac_text 18 (mac_bytes sa)) = map of_nat (mac_bytes sa)"
proof -
  show whole: "mac_text 18 (mac_bytes sa) = print_mac (mac_bytes sa)"
    using length_print_mac[of "mac_bytes sa"] by (simp add: mac_text_def mac_bytes_lt)
  show "scan_mac 6 (mac_text 18 (mac_bytes sa)) = map of_nat (mac_bytes sa)"
    unfolding whole using scan_print_mac[OF mac_bytes_lt(1), of sa] by (simp add: mac_bytes_lt)
qed

text \<open>
  C36: The hardware address fits the buffer it is printed to, and reading the text gives the bytes
  back.
\<close>

lemma mac_roundtrip:
  "mac_text 18 (mac_bytes sa) = print_mac (mac_bytes sa) \<and>
   scan_mac 6 (mac_text 18 (mac_bytes sa)) = map of_nat (mac_bytes sa)"
  using mac_read by blast

section \<open>Packing\<close>

lemma unat_pack_step:
  assumes "unat (w :: u64) * 256 + 256 < 2 ^ 64" "b < 256"
  shows "unat (push_bit 8 w + ucast (of_nat b :: u32)) = unat w * 256 + b"
proof -
  have "unat (push_bit 8 w) = unat w * 256"
    using assms(1) by (simp add: push_bit_eq_mult unat_word_ariths)
  moreover have "unat (ucast (of_nat b :: u32) :: u64) = b"
    using assms(2) by (simp add: unat_ucast_32_64 unat_of_nat)
  ultimately show ?thesis using assms by (simp add: unat_word_ariths)
qed

lemma unat_pack_bytes:
  assumes "\<forall>b \<in> set bs. b < 256" "length bs + k \<le> 7" "unat (w :: u64) < 256 ^ k"
  shows "unat (fold (\<lambda>u result. push_bit 8 result + ucast u) (map (of_nat :: nat \<Rightarrow> u32) bs) w) =
    foldl (\<lambda>n b. n * 256 + b) (unat w) bs \<and>
    foldl (\<lambda>n b. n * 256 + b) (unat w) bs < 256 ^ (length bs + k)"
  using assms
proof (induction bs arbitrary: w k)
  case (Cons b bs)
  have "unat w + 1 \<le> 256 ^ k" "(256 :: nat) ^ k \<le> 256 ^ 6"
    using Cons.prems power_increasing[of k 6 "256 :: nat"] by simp_all
  then have "unat w * 256 + 256 < 2 ^ 64" by simp
  note step = unat_pack_step[OF this, of b]
  have "unat w * 256 + b < 256 ^ Suc k" using Cons.prems(1) \<open>unat w + 1 \<le> 256 ^ k\<close> by simp
  then show ?case
    using Cons.IH[of "Suc k" "push_bit 8 w + ucast (of_nat b :: u32)"] Cons.prems step by simp
qed simp

text \<open>
  The machine id is the big-endian number of the six bytes; it fits 48 bits.
\<close>

lemma get_mac_value:
  "unat (get_mac True sa) = foldl (\<lambda>n b. n * 256 + b) 0 (mac_bytes sa) \<and> unat (get_mac True sa) < 2 ^ 48"
proof -
  have "get_mac True sa = fold (\<lambda>u result. push_bit 8 result + ucast u) (map (of_nat :: nat \<Rightarrow> u32) (mac_bytes sa)) 0"
    unfolding get_mac_def pack_bytes_def mac_read(2)[of sa] by simp
  then show ?thesis
    using unat_pack_bytes[OF mac_bytes_lt(1), of sa 0 0] by (simp add: mac_bytes_lt)
qed

end
