(* ===== verification/Numa_Config.thy ===== *)
theory Numa_Config
  imports Shm_Prelude
begin

text \<open>
  The CPU numbering of \<open>src/include/numa-config.h\<close>: socket, core and hardware thread to the number the
  operating system uses. The physical numbers of the comments in the source skip values; the index of
  the table does not.
\<close>

definition NUM_SOCKET :: nat where "NUM_SOCKET = 2"
definition NUM_PHYSICAL_CPU_PER_SOCKET :: nat where "NUM_PHYSICAL_CPU_PER_SOCKET = 26"
definition SMT_LEVEL :: nat where "SMT_LEVEL = 2"

definition OS_CPU_ID :: "int list list list" where
  "OS_CPU_ID = [
    [
      [0, 52], [1, 53], [2, 54], [3, 55], [4, 56], [5, 57], [6, 58], [7, 59],
      [8, 60], [9, 61], [10, 62], [11, 63], [12, 64], [13, 65], [14, 66], [15, 67],
      [16, 68], [17, 69], [18, 70], [19, 71], [20, 72], [21, 73], [22, 74], [23, 75],
      [24, 76], [25, 77]],
    [
      [26, 78], [27, 79], [28, 80], [29, 81], [30, 82], [31, 83], [32, 84], [33, 85],
      [34, 86], [35, 87], [36, 88], [37, 89], [38, 90], [39, 91], [40, 92], [41, 93],
      [42, 94], [43, 95], [44, 96], [45, 97], [46, 98], [47, 99], [48, 100], [49, 101],
      [50, 102], [51, 103]]]"

definition OS_CPU_ID_2 :: "int list list list" where
  "OS_CPU_ID_2 = [
    [
      [26, 78], [27, 79], [28, 80], [29, 81], [30, 82], [31, 83], [32, 84], [33, 85],
      [34, 86], [35, 87], [36, 88], [37, 89], [38, 90], [39, 91], [40, 92], [41, 93],
      [42, 94], [43, 95], [44, 96], [45, 97], [46, 98], [47, 99], [48, 100], [49, 101],
      [50, 102], [51, 103]]]"

lemmas numa_values = NUM_SOCKET_def NUM_PHYSICAL_CPU_PER_SOCKET_def SMT_LEVEL_def

text \<open>
  Every CPU number below 104 occurs in exactly one place of the table.
\<close>

lemma os_cpu_ids_distinct:
  "distinct (concat (concat OS_CPU_ID)) \<and>
   set (concat (concat OS_CPU_ID)) = int ` {..<NUM_SOCKET * NUM_PHYSICAL_CPU_PER_SOCKET * SMT_LEVEL}"
proof
  show "distinct (concat (concat OS_CPU_ID))" by (simp add: OS_CPU_ID_def)
  have "set (concat (concat OS_CPU_ID)) = int ` set [0..<104]"
    by (simp add: OS_CPU_ID_def upt_conv_Cons) auto
  then show "set (concat (concat OS_CPU_ID)) = int ` {..<NUM_SOCKET * NUM_PHYSICAL_CPU_PER_SOCKET * SMT_LEVEL}"
    by (simp add: numa_values lessThan_atLeast0)
qed

text \<open>The closed form, and the second table as the last socket of the first.\<close>

lemma os_cpu_id_formula:
  "OS_CPU_ID = map (\<lambda>s. map (\<lambda>c. map (\<lambda>t. int (s * 26 + c + 52 * t)) [0..<SMT_LEVEL])
     [0..<NUM_PHYSICAL_CPU_PER_SOCKET]) [0..<NUM_SOCKET]"
  by (simp add: OS_CPU_ID_def numa_values upt_conv_Cons)

lemma os_cpu_id_2: "OS_CPU_ID_2 = drop (NUM_SOCKET - 1) OS_CPU_ID"
  by (simp add: OS_CPU_ID_def OS_CPU_ID_2_def numa_values)

end
