(* ===== verification/Instances.thy ===== *)
theory Instances
  imports Demo_State Era_Runs No_Leak Hash_Index Machine_Id Numa_Config
begin

text \<open>
  The properties at concrete states: each lemma here applies one property of the development to a
  state in which its hypotheses hold, and so shows that they can.
\<close>

section \<open>Allocation and transfer\<close>

abbreviation "demo_zero \<equiv> demo (demo_page tbr_area 0 16 4095) (demo_page obj_area 0 1024 63) (\<lambda>_. 0)"

lemma malloc_drop_witness:
  "\<exists>r s' s''. cxl_malloc demo_client 1000 0 demo_zero = Some (r, s') \<and>
     ref_drop demo_client r s' = Some (\<lparr>ref_tbr = 0, ref_data = 0\<rparr>, s'') \<and>
     page_inv 0 2 16 [] [tbr_area] s'' \<and> page_inv 0 3 1024 [] [obj_area] s'' \<and> own_era demo_client s'' = 7"
proof -
  have "\<exists>r s' s''. cxl_malloc demo_client 1000 0 demo_zero = Some (r, s') \<and>
     ref_drop demo_client r s' = Some (\<lparr>ref_tbr = 0, ref_data = 0\<rparr>, s'') \<and>
     page_inv 0 2 16 [] [tbr_area] s'' \<and> page_inv 0 3 1024 [] [obj_area] s'' \<and>
     own_era demo_client s'' = own_era demo_client demo_zero + 2 \<and>
     (\<forall>x. x \<notin> {tbr_area, tbr_area + 8, obj_area, obj_area + 8, obj_area + 16} \<longrightarrow>
        cell s'' x = cell demo_zero x)"
    by (rule malloc_drop[OF demo_tbr_inv(1) demo_obj_inv(1) _ _ _ demo_bin _ demo_owned demo_owned _ _
          demo_valid]) (simp_all add: demo_front)
  then show ?thesis by auto
qed

abbreviation "demo_send \<equiv> demo (demo_page 0 0 16 4096) (demo_page 0 0 1024 64) (demo_cells obj_area 0 0 0)"

lemma sent_to_witness:
  "\<exists>s'. sent_to demo_client queue_at \<lparr>ref_tbr = tbr_area, ref_data = obj_area + 24\<rparr> demo_send = Some (True, s') \<and>
     mq_ok queue_at s' \<and> mq_pending queue_at s' = [obj_area] \<and> obj_cnt obj_area s' = 2 \<and>
     own_era demo_client s' = 6"
proof -
  have cnt: "obj_cnt obj_area demo_send = 1"
    by (simp add: obj_cnt_def demo_cells_at demo_info_fields)
  have ok: "mq_ok queue_at demo_send" by (simp add: mq_ok_def demo_cells_at)
  have none: "mq_pending queue_at demo_send = []"
    by (simp add: mq_pending_def demo_cells_at ring_list_def ring_len_def)
  let ?r = "\<lparr>ref_tbr = tbr_area, ref_data = obj_area + 24\<rparr>"
  have "\<exists>s'. sent_to demo_client queue_at ?r demo_send = Some (True, s') \<and> mq_ok queue_at s' \<and>
     mq_pending queue_at s' = mq_pending queue_at demo_send @ [obj_area] \<and>
     obj_cnt obj_area s' = obj_cnt obj_area demo_send + 1 \<and>
     own_era demo_client s' = own_era demo_client demo_send + 1 \<and>
     (\<forall>x. x \<notin> insert (obj_info obj_area) (mq_cells queue_at) \<longrightarrow> cell s' x = cell demo_send x) \<and>
     page s' = page demo_send \<and> segment s' = segment demo_send \<and> sas s' = sas demo_send"
    by (rule sent_to_room[OF _ _ ok _ _ _ demo_obj_apart])
       (simp_all add: demo_cells_at demo_era_ok cnt none)
  then show ?thesis unfolding none cnt by auto
qed

abbreviation "demo_recv \<equiv> demo (demo_page tbr_area 0 16 4095) (demo_page 0 0 1024 64)
  (demo_cells 0 1 0x10000 obj_area)"

lemma cxl_unwrap_witness:
  "\<exists>s'. cxl_unwrap demo_client queue_at demo_recv =
       Some (\<lparr>ref_tbr = tbr_area, ref_data = obj_area + sizeof_CXLObj\<rparr>, s') \<and>
     mq_pending queue_at s' = [] \<and> cell s' tbr_area = obj_area \<and> handles tbr_area s' = 1 \<and>
     obj_cnt obj_area s' = 1 \<and> own_era demo_client s' = 7"
proof -
  have cnt: "obj_cnt obj_area demo_recv = 1" by (simp add: obj_cnt_def demo_cells_at demo_info_fields)
  have ok: "mq_ok queue_at demo_recv" by (simp add: mq_ok_def demo_cells_at)
  have some: "mq_pending queue_at demo_recv = [obj_area]"
    by (simp add: mq_pending_def demo_cells_at ring_list_def ring_len_def)
  have reg: "get_receiver_id (cell demo_recv (mq_ids queue_at)) \<noteq> 0"
    by (simp add: demo_cells_at get_receiver_id_def get_field_def)
  have "\<exists>s'. cxl_unwrap demo_client queue_at demo_recv =
       Some (\<lparr>ref_tbr = tbr_area, ref_data = obj_area + sizeof_CXLObj\<rparr>, s') \<and>
     mq_ok queue_at s' \<and> mq_pending queue_at s' = [] \<and>
     cell s' (mq_slot queue_at (cell demo_recv (mq_start queue_at))) = 0 \<and>
     cell s' tbr_area = obj_area \<and> handles tbr_area s' = 1 \<and>
     obj_cnt obj_area s' = obj_cnt obj_area demo_recv \<and>
     own_era demo_client s' = own_era demo_client demo_recv + 2 \<and> page_inv 0 2 16 [] [] s'"
    by (rule cxl_unwrap_some[OF ok some _ reg demo_tbr_inv(1) _ _ _ _ _ demo_obj_apart demo_obj_in(2)])
       (simp_all add: demo_front cnt demo_era_ok demo_cells_at demo_queue_apart)
  then show ?thesis unfolding cnt by auto
qed

section \<open>Two threads on one object\<close>

text \<open>
  Threads 1 and 3 of a system with one object and two reference cells; the object was created by
  thread 1 in era 4 with the count 1, and the first cell refers to it.
\<close>

definition second_client :: client where
  "second_client = \<lparr>cl_size = 0x40000000, cl_tls_offset = tls_at 2, cl_thread_id = 3\<rparr>"

abbreviation "two_clients \<equiv> {demo_client, second_client}"
abbreviation "cell_a \<equiv> queue_at"
abbreviation "cell_b \<equiv> queue_at + 8"
abbreviation "two_cells \<equiv> {cell_a, cell_b}"

definition idle_local :: local_state where
  "idle_local = \<lparr>lo_pc = Idle, lo_link = False, lo_ref = 0, lo_refed = 0, lo_info = 0, lo_era = 0\<rparr>"

definition run_start :: pstate where
  "run_start = \<lparr>mem = \<lparr>cell = (\<lambda>_. 0)(obj_info obj_area := pack_ref_info 1 1 4, cell_a := obj_area),
     page = (\<lambda>_. zero_page), segment = (\<lambda>_. zero_segment),
     sas = (\<lambda>_. \<lparr>sas_thread_id = 1, sas_ver = 0, sas_state = NORMAL, sas_thread_free = 0\<rparr>),
     era_tab = (\<lambda>i. if i = 0 \<or> i = 2050 then 5 else 0), tls = (\<lambda>_. demo_tls)\<rparr>, loc = (\<lambda>_. idle_local)\<rparr>"

lemma second_client_sel [simp]:
  "cl_tls_offset second_client = tls_at 2" "cl_thread_id second_client = 3"
  by (simp_all add: second_client_def)

lemma tids: "uint (cl_thread_id demo_client) = 1" "uint (cl_thread_id second_client) = 3"
  by simp_all

lemma clients_ne [simp]: "demo_client \<noteq> second_client" "second_client \<noteq> demo_client"
  by (auto dest: arg_cong[where f = cl_thread_id])

lemma tls_id_at0: "tls_id_of THREAD_LOCAL_VEC_START = 1" "tls_id_of (tls_at 2) = 3"
  using tls_id_of_at[of 0] tls_id_of_at[of 2] by (simp_all add: word_uint_eq_iff tls_at_0[symmetric])

lemma demo_system: "system_ok two_clients {obj_area} two_cells"
  by (auto simp: system_ok_def valid_id_def layout_simps tls_id_at0[unfolded layout_simps] demo_addresses obj_info_def)

lemma demo_finite: "finite_system two_clients {obj_area} two_cells"
  using demo_system by (simp add: finite_system_def)

lemma run_start_era: "era x y (mem run_start) = (if era_idx x y = 0 \<or> era_idx x y = 2050 then 5 else 0)"
  by (simp add: era_def run_start_def)

lemma run_start_own [simp]: "own run_start demo_client = 5" "own run_start second_client = 5"
  by (simp_all add: own_era_def run_start_era era_idx_def layout_simps)

lemma run_start_word: "word run_start obj_area = pack_ref_info 1 1 4"
  by (simp add: run_start_def demo_addresses obj_info_def)

lemma run_start_rows: "x \<noteq> tid c \<Longrightarrow> c \<in> two_clients \<Longrightarrow> row run_start x c = 0"
  by (auto simp: run_start_era era_idx_def layout_simps) presburger+

lemma run_start_start: "proto_start two_clients {obj_area} run_start"
  unfolding proto_start_def
proof (intro conjI ballI allI impI)
  fix c assume c: "c \<in> two_clients"
  then have own: "own run_start c = 5" by auto
  show "at_pc run_start c Idle" by (simp add: at_pc_def run_start_def idle_local_def)
  show "0 < own run_start c" by (simp add: own)
  show "row run_start x c < own run_start c" if "x \<noteq> tid c" for x
    using run_start_rows[OF that c] by (simp add: own)
  show "rl_cur_era (slots run_start c k) < own run_start c" for k
    by (simp add: own) (simp add: slots_def run_start_def demo_tls_def zero_redo_def)
next
  fix b assume b: "b \<in> {obj_area}"
  then show "valid_id (saw_cid (word run_start b))"
    by (simp add: run_start_word demo_info_fields valid_id_def layout_simps)
  fix c assume c: "c \<in> two_clients"
  then have "own run_start c = 5" by auto
  then show "saw_era (word run_start b) < own run_start c"
    using b by (simp add: run_start_word demo_info_fields)
qed


lemma run_start_idle [simp]: "lo_pc (loc run_start c) = Idle"
  by (simp add: run_start_def idle_local_def)

lemma run_start_cells: "cell (mem run_start) cell_a = obj_area" "cell (mem run_start) cell_b = 0"
  by (simp_all add: run_start_def demo_addresses obj_info_def)

lemma run_start_count: "count_start two_clients {obj_area} two_cells run_start"
proof -
  have "holders two_cells obj_area run_start = {cell_a}"
    using run_start_cells by (auto simp: holders_def)
  moreover have "obj_cnt obj_area (mem run_start) = 1"
    by (simp add: obj_cnt_def run_start_word demo_info_fields)
  ultimately show ?thesis using run_start_start by (simp add: count_start_def)
qed

text \<open>Thread 1 starts a link into the second cell or an unlink of the first, and runs up to the exchange.\<close>

definition the_cell :: "bool \<Rightarrow> u64" where "the_cell link = (if link then cell_b else cell_a)"

definition started :: "bool \<Rightarrow> pstate" where
  "started link = begin_op demo_client link (the_cell link) obj_area run_start"

definition exchanged :: "bool \<Rightarrow> pstate" where
  "exchanged link = (let p = goto demo_client Loaded (load_word demo_client (started link));
     p = goto demo_client Seen (note_era demo_client p); p = goto demo_client Logged (log_op demo_client p)
   in goto demo_client Swapped (swap_word demo_client p))"

lemma may_start_demo: "may_start two_clients demo_client link (the_cell link) obj_area run_start"
  using run_start_cells by (simp add: may_start_def the_cell_def at_pc_def)

lemma demo_range: "cnt_in_range link (pack_ref_info 1 1 4)"
  by (simp add: cnt_in_range_def unat_ref_info_cnt demo_info_fields)

lemma reach_started: "reach two_clients {obj_area} two_cells run_start (started link)"
  unfolding started_def
  by (rule reach.step[OF reach.init pstep.start])
     (simp_all add: may_start_demo at_pc_def, simp add: the_cell_def)

lemma reach_exchanged: "reach two_clients {obj_area} two_cells run_start (exchanged link)"
  unfolding exchanged_def Let_def
  by (rule reach.step[OF _ pstep.swap], rule reach.step[OF _ pstep.log], rule reach.step[OF _ pstep.see],
      rule reach.step[OF _ pstep.load], rule reach_started)
     (simp_all add: at_pc_def started_def step_mem state_simps run_start_word demo_range)

lemma exchanged_local:
  "lo_pc (loc (exchanged link) demo_client) = Swapped" "lo_link (loc (exchanged link) demo_client) = link"
  "lo_ref (loc (exchanged link) demo_client) = the_cell link" "lo_refed (loc (exchanged link) demo_client) = obj_area"
  "pending (exchanged link) demo_client" "cell (mem (exchanged link)) cell_a = obj_area"
  by (simp_all add: exchanged_def Let_def started_def pending_def step_mem state_simps run_start_cells)
     (simp_all add: demo_addresses obj_info_def run_start_def)



lemma reach_refines_witness:
  "\<exists>ops h. labelled_run (op_step two_clients {obj_area} two_cells) run_start ops (exchanged True) \<and>
     do_all atomic ops (ref_state_of run_start) = Some h \<and> ref_view two_clients two_cells (exchanged True) (rs_cell h) \<and>
     rs_count h obj_area = obj_cnt obj_area (mem (exchanged True))"
  using reach_refines[OF demo_finite run_start_count reach_exchanged, of True] by blast

lemma reachable_count_witness:
  "obj_cnt obj_area (mem (exchanged True)) + card (in_flight two_clients False obj_area (exchanged True)) =
   card (holders two_cells obj_area (exchanged True)) + card (in_flight two_clients True obj_area (exchanged True))"
  by (rule reachable_count[OF demo_finite run_start_count reach_exchanged]) simp

lemma reachable_unlink_counted_witness: "0 < obj_cnt obj_area (mem (started False))"
proof -
  have l: "lo_refed (loc (started False) demo_client) = obj_area" by (simp add: started_def)
  show ?thesis
    using reachable_unlink_counted[OF demo_finite run_start_count reach_started[of False], of demo_client]
    unfolding l by (simp add: started_def at_pc_def pending_def)
qed

lemma exchanged_zero: "obj_cnt obj_area (mem (exchanged False)) = 0"
proof -
  have "unat (get_ref_cnt_from_info (new_word demo_client False (pack_ref_info 1 1 4) e)) = 0" for e
    using new_word_fields(3)[OF demo_valid demo_range, of False e] by (simp add: demo_info_fields)
  then show ?thesis
    by (simp add: exchanged_def Let_def started_def obj_cnt_def step_mem state_simps run_start_word)
qed

lemma reachable_zero_unreferenced_witness:
  "\<exists>c \<in> two_clients. at_pc (exchanged False) c Swapped \<and> \<not> lo_link (loc (exchanged False) c) \<and>
     lo_ref (loc (exchanged False) c) = cell_a"
  by (rule reachable_zero_unreferenced[OF demo_finite run_start_count reach_exchanged _ exchanged_zero])
     (simp_all add: exchanged_local)

lemma solo_run_witness:
  "\<exists>q. (pstep two_clients {obj_area} two_cells ^^ 7) run_start q \<and> at_pc q demo_client Idle \<and>
    (\<forall>d. d \<noteq> demo_client \<longrightarrow> loc q d = loc run_start d) \<and> cell (mem q) cell_a = 0 \<and> obj_cnt obj_area (mem q) = 0 \<and>
    unlink_reference demo_client cell_a obj_area (mem run_start) = cxl_free demo_client False obj_area (mem q)"
proof -
  have "obj_cnt obj_area (mem run_start) = 1" by (simp add: obj_cnt_def run_start_word demo_info_fields)
  then show ?thesis
    using solo_run[OF demo_system _ _ _ _ may_start_demo[of False, unfolded the_cell_def if_False]]
    by (simp add: at_pc_def run_start_word demo_range)
qed

section \<open>What a dead thread leaves behind\<close>

text \<open>
  Every segment belongs to thread 1; page 3 of segment 0 has one counted object. The thread state is a
  parameter.
\<close>

definition left_state :: "cxl_tls \<Rightarrow> shm" where
  "left_state t = \<lparr>cell = (\<lambda>_. 0)(obj_info obj_area := pack_ref_info 1 1 4),
     page = (\<lambda>_. zero_page)(obj_page := demo_page 0 0 1024 64), segment = (\<lambda>_. \<lparr>sg_thread_id = 1, sg_used = 1\<rparr>),
     sas = (\<lambda>_. \<lparr>sas_thread_id = 1, sas_ver = 0, sas_state = NORMAL, sas_thread_free = 0\<rparr>),
     era_tab = (\<lambda>_. 5), tls = (\<lambda>_. t)\<rparr>"

definition dead_tls :: cxl_tls where
  "dead_tls = demo_tls\<lparr>tls_pages := (\<lambda>i. if i = 65 then \<lparr>pq_first = obj_page, pq_last = obj_page, pq_block_size = 1024\<rparr>
     else \<lparr>pq_first = 0, pq_last = 0, pq_block_size = 0\<rparr>)\<rparr>"

definition free_tls :: cxl_tls where "free_tls = demo_tls\<lparr>tls_packed_id := 0\<rparr>"

lemma left_sel [simp]:
  "sas (left_state t) i = \<lparr>sas_thread_id = 1, sas_ver = 0, sas_state = NORMAL, sas_thread_free = 0\<rparr>"
  "tls (left_state t) a = t" "page (left_state t) obj_page = demo_page 0 0 1024 64"
  "cell (left_state t) (obj_info obj_area) = pack_ref_info 1 1 4"
  by (simp_all add: left_state_def)

lemma left_page_other:
  "i < MAX_SEGMENT_NUM \<Longrightarrow> k < PAGES_PER_SEGMENT \<Longrightarrow> (i, k) \<noteq> (0, 3) \<Longrightarrow>
     page (left_state t) (meta_at (seg_at i) k) = zero_page"
  by (auto simp: left_state_def meta_at_segment_inject)

lemma left_bs: "page_bs 0 3 (left_state t) = 1024"
  by (simp add: page_bs_def demo_page_def)

lemma left_block: "obj_area \<in> set (blocks_of 0 3 (left_state t))"
  unfolding blocks_of_def left_bs by (rule area_head[OF area_ok_demo(2)])

lemma left_cnt: "obj_cnt obj_area (left_state t) = 1"
  by (simp add: obj_cnt_def demo_info_fields)

lemma left_fit: "i < MAX_SEGMENT_NUM \<Longrightarrow> segment_fit i (left_state t)"
  unfolding segment_fit_def
proof (intro allI impI)
  fix k assume i: "i < MAX_SEGMENT_NUM" and k: "k < PAGES_PER_SEGMENT"
  show "page_fit i k (left_state t)"
  proof (cases "(i, k) = (0, 3)")
    case True
    then show ?thesis by (simp add: page_fit_def left_bs demo_page_def)
  next
    case False
    then show ?thesis using left_page_other[OF i k] by (simp add: page_fit_def zero_page_def)
  qed
qed

lemma left_used0: "segment_used 0 (left_state t)"
proof -
  have "page_used 0 3 (left_state t)"
    using left_block left_cnt unfolding page_used_def
    by (intro conjI bexI[of _ obj_area]) (simp_all add: demo_page_def)
  then show ?thesis unfolding segment_used_def by (intro exI[of _ 3]) simp
qed

lemma left_used1: "i < MAX_SEGMENT_NUM \<Longrightarrow> i \<noteq> 0 \<Longrightarrow> \<not> segment_used i (left_state t)"
  by (auto simp: segment_used_def page_used_def left_page_other zero_page_def)

lemma monitor_round_witness:
  "\<exists>s'. single_recovery_loop (left_state free_tls) = Some s' \<and> sas_thread_id (sas s' (of_nat 0)) = 1 \<and>
     sas_thread_id (sas s' (of_nat 2)) = 0 \<and> \<not> check_recovery s'"
proof -
  have free: "no_thread (left_state free_tls)" by (simp add: no_thread_def free_tls_def)
  obtain s' where s': "single_recovery_loop (left_state free_tls) = Some s'"
    "\<forall>i < MAX_SEGMENT_NUM. sas_thread_id (sas s' (of_nat i)) =
       (if segment_used i (left_state free_tls) then sas_thread_id (sas (left_state free_tls) (of_nat i)) else 0)"
    "check_recovery s' \<longleftrightarrow> (\<forall>i < MAX_SEGMENT_NUM. sas_thread_id (sas (left_state free_tls) (of_nat i)) \<noteq> 0 \<longrightarrow>
       \<not> segment_used i (left_state free_tls))"
    using monitor_round[OF free] left_fit by blast
  have n: "0 < MAX_SEGMENT_NUM" "2 < MAX_SEGMENT_NUM" by (simp_all add: layout_simps)
  have "\<not> check_recovery s'" using s'(3)[THEN iffD1, rule_format, OF _ n(1)] left_used0 by auto
  then show ?thesis
    using s'(1) s'(2)[rule_format, OF n(1)] s'(2)[rule_format, OF n(2)] left_used0 left_used1[OF n(2)]
    by (intro exI[of _ s']) (simp del: of_nat_0 of_nat_numeral)
qed

definition dead_pages :: "nat \<Rightarrow> page_no list" where
  "dead_pages i = (if i = 65 then [(0, 3)] else [])"

lemma all_dead_pages: "all_pages dead_pages CXL_BIN_SIZE = [(0, 3)]"
  by (simp add: all_pages_def layout_simps dead_pages_def upt_conv_Cons)

lemma held_dead: "held (0, 3) (left_state t)"
  using left_block left_cnt unfolding held_def
  by (intro bexI[of _ obj_area]) (simp_all add: demo_page_def)

lemma dead_page_ok: "obj_page_ok (0, 3) (left_state t)"
  by (simp add: obj_page_ok_def valid_page_def left_bs) (simp add: demo_page_def)

lemma dead_thread_recovered_witness:
  "\<exists>s'. recovery_garbage_collection THREAD_LOCAL_VEC_START 1 (left_state dead_tls) = Some s' \<and>
     tls_packed_id (tls s' THREAD_LOCAL_VEC_START) = 0 \<and>
     sas_thread_id (sas s' (of_nat 0)) = 1 \<and> sas_thread_id (sas s' (of_nat 2)) = 0"
proof -
  let ?s = "left_state dead_tls" and ?t = "THREAD_LOCAL_VEC_START"
  have chains: "\<forall>i. 2 \<le> i \<and> i < CXL_BIN_SIZE \<longrightarrow> bin_chain ?t i (dead_pages i) ?s"
    by (simp add: bin_chain_def dead_pages_def dead_tls_def demo_page_def)
  have ok: "\<forall>p \<in> set (all_pages dead_pages CXL_BIN_SIZE). obj_page_ok p ?s"
    by (simp add: all_dead_pages dead_page_ok)
  obtain s' where s': "recovery_garbage_collection ?t 1 ?s = Some s'"
    "tls s' = (tls ?s)(?t := (reset_queues (tls ?s ?t))\<lparr>tls_packed_id := 0\<rparr>)"
    "\<forall>i < MAX_SEGMENT_NUM. sas_thread_id (sas s' (of_nat i)) =
       released_id ?t {p \<in> set (all_pages dead_pages CXL_BIN_SIZE). held p ?s} ?s i"
    using dead_thread_recovered[OF _ _ _ _ chains ok, of 1] by (auto simp: dead_tls_def demo_tls_def all_dead_pages)
  have n: "0 < MAX_SEGMENT_NUM" "2 < MAX_SEGMENT_NUM" by (simp_all add: layout_simps)
  have "NORMAL \<noteq> ABANDON" by (simp add: NORMAL_def ABANDON_def)
  moreover have "{p \<in> set (all_pages dead_pages CXL_BIN_SIZE). held p ?s} = {(0, 3)}"
    using held_dead by (auto simp: all_dead_pages)
  ultimately show ?thesis
    using s'(1,2) s'(3)[rule_format, OF n(1)] s'(3)[rule_format, OF n(2)]
    by (intro exI[of _ s']) (simp add: released_id_def to_release_def tls_id_at0(1) del: of_nat_0 of_nat_numeral)
qed

text \<open>A dead thread with one root reference, the last one to an object of its own.\<close>

definition root_cells :: "u64 \<Rightarrow> u64" where
  "root_cells = (\<lambda>_. 0)(tbr_area := obj_area, tbr_area + 8 := 1, obj_info obj_area := pack_ref_info 1 1 4)"

abbreviation "root_state \<equiv> demo (demo_page 0 0 16 4096) (demo_page 0 0 1024 64) root_cells"

abbreviation "demo_objs \<equiv> set (page_blocks obj_area 1024)"

lemma demo_root_page: "valid_page (0, 2)" "root_blk (0, 2) 0 = tbr_area" "block_cnt 16 = 4096"
  by (simp_all add: valid_page_def root_blk_def blk_def)

lemma demo_header_in: "x \<in> headers demo_objs \<Longrightarrow> in_page 0 3 x"
  unfolding headers_def by (elim UN_E, rule block_cells_in[where bs = 1024]) simp_all

lemma demo_obj_member: "obj_area \<in> demo_objs"
  by (rule area_head[OF area_ok_demo(2)])

lemma demo_off_page: "off_page demo_objs (0, 2)"
  using in_page_unique[of 0 3] demo_header_in by (fastforce simp: off_page_def)

lemma demo_on_pages: "on_pages demo_objs"
  using block_in_page0[OF _ area_ok_demo(2)] unfolding on_pages_def by (intro ballI exI[of _ "(0, 3)"]) simp

lemma root_state_empty:
  assumes "j < block_cnt 16" "j \<noteq> 0"
  shows "root_cells (root_blk (0, 2) j) = 0" "root_cells (root_blk (0, 2) j + 8) = 0"
proof -
  have "\<not> in_page 0 2 (obj_info obj_area)"
    using demo_off_page headers_mem(2)[OF demo_obj_member] by (auto simp: off_page_def)
  then have "obj_info obj_area \<notin> {root_blk (0, 2) j, root_blk (0, 2) j + 8}"
    using root_blk_in[OF demo_root_page(1) assms(1)] by auto
  then show "root_cells (root_blk (0, 2) j) = 0" "root_cells (root_blk (0, 2) j + 8) = 0"
    using root_blk_apart[OF demo_root_page(1) assms(1) _ assms(2)] by (auto simp: root_cells_def demo_root_page(2,3))
qed

lemma root_state_sel:
  "root_cells tbr_area = obj_area" "root_cells (tbr_area + 8) = 1" "root_cells (obj_emb obj_area) = 0"
  "obj_cnt obj_area root_state = 1"
  by (simp_all add: root_cells_def obj_cnt_def demo_addresses obj_info_def obj_emb_def pack_ref_info_fields)

lemma demo_not_own: "\<not> own_block (0, 2) obj_area"
  by (simp add: own_block_def root_blk_def last_blk_def blk_def demo_addresses)

lemma root_state_roots: "all_roots [(0, 2)] root_state = [obj_area]"
proof -
  have "root_target (0, 2) root_state j = []" if "j < block_cnt 16" "j \<noteq> 0" for j
    using root_state_empty[OF that] by (simp add: root_target_def Let_def get_in_use_def get_field_def)
  then have "roots_from (0, 2) root_state (Suc 0) = []"
    by (simp add: roots_from_def del: demo_counts)
  moreover have "in_page 0 3 obj_area" using block_in_page0[OF demo_obj_member area_ok_demo(2)] by simp
  then have "root_target (0, 2) root_state 0 = [obj_area]"
    using demo_not_own by (simp add: root_target_def demo_root_page(2) root_state_sel get_in_use_def
        get_field_def cxl_ptr_page_in demo_page_def)
  moreover have "0 < block_cnt 16" by simp
  ultimately show ?thesis
    by (simp add: all_roots_def roots_from_Suc[of 0] del: demo_counts)
qed

lemma root_state_bs: "page_bs 0 3 root_state = 1024"
  by (simp add: page_bs_def demo_page_def)

lemma root_state_ok: "roots_ok THREAD_LOCAL_VEC_START demo_objs [(0, 2)] root_state"
proof -
  have "root_page_ok THREAD_LOCAL_VEC_START (0, 2) root_state"
    by (simp add: root_page_ok_def demo_root_page(1) tls_id_at0(1)) (simp add: demo_page_def)
  moreover have "roots_known demo_objs (0, 2) root_state"
    unfolding roots_known_def
  proof (intro allI impI)
    fix j assume j: "j < block_cnt 16"
    show "cell root_state (root_blk (0, 2) j) = 0 \<or> own_block (0, 2) (cell root_state (root_blk (0, 2) j)) \<or>
        cell root_state (root_blk (0, 2) j) \<in> demo_objs"
      using root_state_empty[OF j] demo_obj_member by (cases "j = 0") (simp_all add: demo_root_page(2) root_state_sel)
  qed
  ultimately show ?thesis
    using demo_off_page demo_obj_member
    by (simp add: roots_ok_def root_state_roots releasable_def root_state_sel)
qed

lemma root_state_pages:
  "\<forall>p \<in> set (all_pages dead_pages CXL_BIN_SIZE). p \<notin> set [(0, 2)] \<and> obj_page_ok p root_state \<and>
     set (blocks_of (fst p) (snd p) root_state) \<subseteq> demo_objs"
  by (simp add: all_dead_pages obj_page_ok_def valid_page_def root_state_bs blocks_of_def) (simp add: demo_page_def)

lemma root_state_only: "b \<in> demo_objs \<Longrightarrow> obj_cnt b root_state = count_list [obj_area] b"
proof (cases "b = obj_area")
  case False
  assume b: "b \<in> demo_objs"
  have "in_page 0 3 (obj_info b)" by (rule demo_header_in[OF headers_mem(2)[OF b]])
  then have "obj_info b \<notin> {tbr_area, tbr_area + 8}"
    using in_page_unique[of 0 3 "obj_info b" 0 2] root_blk_in[OF demo_root_page(1), of 0] by (auto simp: demo_root_page(2,3))
  then show ?thesis using False by (simp add: obj_cnt_def root_cells_def obj_info_inj get_ref_cnt_from_info_def)
qed (simp add: root_state_sel)

lemma dead_thread_released_witness:
  "\<exists>s'. recovery_garbage_collection THREAD_LOCAL_VEC_START 1 root_state = Some s' \<and>
     tls_packed_id (tls s' THREAD_LOCAL_VEC_START) = 0 \<and> sas_thread_id (sas s' (of_nat 0)) = 0"
proof -
  let ?s = root_state and ?t = THREAD_LOCAL_VEC_START
  have id: "valid_id (tid_of ?t)" unfolding tls_id_at0(1) by (simp add: valid_id_def layout_simps)
  have roots: "chain (\<lambda>x. pg_next (page ?s x)) (pq_first (tls_pages (tls ?s ?t) 0)) (map desc [(0, 2)])"
    by (simp add: demo_tls_def demo_page_def)
  have chains: "\<forall>i. 2 \<le> i \<and> i < CXL_BIN_SIZE \<longrightarrow> bin_chain ?t i (dead_pages i) ?s"
    by (simp add: bin_chain_def dead_pages_def demo_tls_def demo_page_def)
  obtain s' where s': "recovery_garbage_collection ?t 1 ?s = Some s'"
    "tls s' = (tls ?s)(?t := (reset_queues (tls ?s ?t))\<lparr>tls_packed_id := 0\<rparr>)"
    "\<forall>i < MAX_SEGMENT_NUM. sas_thread_id (sas s' (of_nat i)) = released_id ?t
       (shared_pages (set (all_pages dead_pages CXL_BIN_SIZE)) (all_roots [(0, 2)] ?s) ?s) ?s i"
    using dead_thread_released[OF id page_blocks_apart[OF area_ok_demo(2)] demo_on_pages _ _ _ roots root_state_ok
        chains root_state_pages, of 1] by (auto simp: demo_tls_def all_dead_pages)
  have "shared_pages (set (all_pages dead_pages CXL_BIN_SIZE)) (all_roots [(0, 2)] ?s) ?s = {}"
    using root_state_only by (auto simp: shared_pages_def all_dead_pages blocks_of_def root_state_bs root_state_roots)
  then show ?thesis
    using s'(1,2) s'(3)[rule_format, OF demo_seg(1)]
    by (intro exI[of _ s']) (simp add: released_id_def to_release_def tls_id_at0(1) NORMAL_def ABANDON_def del: of_nat_0)
qed

section \<open>Queues\<close>

text \<open>A queue received by thread 1 with one pending reference, to an object that is counted twice.\<close>

definition pending_cells :: "u64 \<Rightarrow> u64" where
  "pending_cells = (\<lambda>_. 0)(obj_info obj_area := pack_ref_info 1 2 4, mq_end queue_at := 1,
     mq_ids queue_at := 0x10000, mq_slot queue_at 0 := obj_area)"

abbreviation "demo_pending \<equiv> demo (demo_page 0 0 16 4096) (demo_page 0 0 1024 64) pending_cells"

lemma pending_cells_at:
  "pending_cells (obj_info obj_area) = pack_ref_info 1 2 4" "pending_cells (mq_start queue_at) = 0"
  "pending_cells (mq_end queue_at) = 1" "pending_cells (mq_slot queue_at 0) = obj_area"
  "pending_cells (mq_receiver_next queue_at) = 0"
  by (simp_all add: pending_cells_def demo_addresses obj_info_def mq_start_def mq_end_def mq_ids_def
      mq_slot_def mq_receiver_next_def)

lemma pending_idx: "ring_idx_list (unat (cell demo_pending (mq_start queue_at))) (unat (cell demo_pending (mq_end queue_at))) = [0]"
  by (simp add: pending_cells_at ring_idx_list_def ring_list_def ring_len_def)

lemma pending_refs: "slot_refs queue_at [0] demo_pending = [obj_area]"
  by (simp add: slot_refs_def pending_cells_at)

lemma pending_count: "obj_cnt obj_area demo_pending = 2"
  by (simp add: obj_cnt_def pending_cells_at pack_ref_info_fields)

lemma receiver_queue_released_witness:
  "\<exists>s'. receiver_queues (recovery_test_free THREAD_LOCAL_VEC_START) queue_at demo_pending = Some s' \<and>
     get_receiver_id (cell s' (mq_ids queue_at)) = 0 \<and> obj_cnt obj_area s' = 1 \<and> cell s' (mq_slot queue_at 0) = 0"
proof -
  let ?q = queue_at and ?s = demo_pending
  let ?idx = "ring_idx_list (unat (cell ?s (mq_start ?q))) (unat (cell ?s (mq_end ?q)))"
  have id: "valid_id (tid_of THREAD_LOCAL_VEC_START)"
    unfolding tls_id_at0(1) by (simp add: valid_id_def layout_simps)
  have ok: "mq_ok ?q ?s" by (simp add: mq_ok_def pending_cells_at)
  have sh: "slots_shared ?q ?idx ?s"
    unfolding pending_idx slots_shared_def pending_refs using pending_count demo_obj_apart by simp
  have pend: "mq_pending ?q ?s = [obj_area]"
    using slot_refs_pending[OF refl refl, of ?q ?s] by (simp only: pending_idx pending_refs)
  have "\<exists>s'. receiver_queues (recovery_test_free THREAD_LOCAL_VEC_START) ?q ?s = Some s' \<and>
    get_receiver_id (cell s' (mq_ids ?q)) = 0 \<and> get_sender_id (cell s' (mq_ids ?q)) = get_sender_id (cell ?s (mq_ids ?q)) \<and>
    (\<forall>b. obj_info b \<notin> mq_cells ?q \<longrightarrow> obj_cnt b s' + count_list (mq_pending ?q ?s) b = obj_cnt b ?s) \<and>
    (\<forall>i \<in> set ?idx. cell s' (mq_slot ?q (of_nat i)) = 0) \<and>
    page s' = page ?s \<and> segment s' = segment ?s \<and> sas s' = sas ?s \<and> tls s' = tls ?s"
    by (rule receiver_queue_released[OF id _ _ ok sh])
       (simp_all add: demo_addresses pending_cells_at[unfolded demo_addresses])
  then obtain s' where s': "receiver_queues (recovery_test_free THREAD_LOCAL_VEC_START) ?q ?s = Some s'"
    "get_receiver_id (cell s' (mq_ids ?q)) = 0"
    "\<forall>b. obj_info b \<notin> mq_cells ?q \<longrightarrow> obj_cnt b s' + count_list [obj_area] b = obj_cnt b ?s"
    "\<forall>i \<in> set [0 :: nat]. cell s' (mq_slot ?q (of_nat i)) = 0"
    unfolding pend pending_idx by blast
  have "obj_cnt obj_area s' + 1 = 2" using s'(3)[rule_format, OF demo_obj_apart] pending_count by simp
  then show ?thesis using s'(1,2,4) by auto
qed

lemma sent_to_full_witness:
  "sent_to demo_client queue_at \<lparr>ref_tbr = tbr_area, ref_data = obj_area + 24\<rparr>
     (demo (demo_page 0 0 16 4096) (demo_page 0 0 1024 64) (demo_cells 0 15 0 0)) =
   Some (False, demo (demo_page 0 0 16 4096) (demo_page 0 0 1024 64) (demo_cells 0 15 0 0))"
  by (rule sent_to_full) (simp_all add: mq_ok_def mq_pending_def demo_cells_at ring_len_def)

abbreviation "demo_empty \<equiv> demo (demo_page 0 0 16 4096) (demo_page 0 0 1024 64) (\<lambda>_. 0)"

lemma cxl_unwrap_empty_witness:
  "cxl_unwrap demo_client queue_at demo_empty =
     Some (\<lparr>ref_tbr = 0, ref_data = 0\<rparr>, register_receiver demo_client queue_at demo_empty)"
  by (rule cxl_unwrap_empty) (simp_all add: mq_ok_def mq_pending_def ring_list_def ring_len_def)

section \<open>Blocks of another thread\<close>

abbreviation "other_client \<equiv> demo_client\<lparr>cl_thread_id := 3\<rparr>"



lemma cxl_page_free_collect_inv_witness:
  "\<exists>s'. cxl_page_free_collect obj_page (upd_sas 0 (\<lambda>x. x\<lparr>sas_thread_free := obj_area\<rparr>) demo_empty) = Some s' \<and>
     page_inv 0 3 1024 [obj_area] [] s' \<and> sas_thread_free (sas s' (of_nat 0)) = 0"
proof -
  let ?s = "upd_sas 0 (\<lambda>x. x\<lparr>sas_thread_free := obj_area\<rparr>) demo_empty"
  have inp: "in_page 0 3 obj_area" by (simp add: in_page_def unat_area_at unat_seg_at)
  have mine: "mine 0 3 [obj_area] = [obj_area]" by (simp add: mine_def cxl_ptr_page_in[OF inp])
  have inv: "page_inv 0 3 1024 [] [] ?s"
    using demo_obj_inv(2)[of "\<lambda>_. 0"] by (simp add: page_inv_def state_simps)
  have "\<exists>s'. cxl_page_free_collect obj_page ?s = Some s' \<and>
     (if [] = ([] :: u64 list) then page_inv 0 3 1024 (rev (mine 0 3 [obj_area]) @ []) [] s'
      else page_inv 0 3 1024 [] (rev (mine 0 3 [obj_area]) @ []) s') \<and>
     sas_thread_free (sas s' (of_nat 0)) = 0 \<and>
     (\<forall>b. b \<notin> set [obj_area] \<longrightarrow> cell s' b = cell ?s b) \<and> segment s' = segment ?s \<and> era_tab s' = era_tab ?s \<and>
     tls s' = tls ?s \<and> (\<forall>p. pg_next (page s' p) = pg_next (page ?s p))"
    by (rule cxl_page_free_collect_inv[OF inv])
       (simp_all add: state_simps mine area_head)
  then show ?thesis by (auto simp: mine)
qed

section \<open>Pages and segments\<close>

text \<open>Page 3 on the list of free pages, and every segment claimed.\<close>

definition free_page_tls :: cxl_tls where
  "free_page_tls = demo_tls\<lparr>tls_pages := (\<lambda>_. \<lparr>pq_first = 0, pq_last = 0, pq_block_size = 48\<rparr>),
     tls_free_page := \<lparr>pq_first = obj_page, pq_last = obj_page, pq_block_size = 0\<rparr>\<rparr>"

abbreviation "demo_fresh \<equiv> (demo zero_page zero_page (\<lambda>_. 0))\<lparr>tls := (\<lambda>_. free_page_tls)\<rparr>"

lemma fresh_lists:
  "pq_list (THREAD_LOCAL_VEC_START, Free_Page) [obj_page] demo_fresh"
  "pq_list (THREAD_LOCAL_VEC_START, Bin j) [] demo_fresh"
  by (simp_all add: pq_list_def free_page_tls_def) (simp_all add: zero_page_def)

lemma cxl_page_malloc_fresh_witness:
  "\<exists>s'. cxl_page_malloc demo_client (THREAD_LOCAL_VEC_START, Bin 4) (cxl_find_page (THREAD_LOCAL_VEC_START, Bin 4) demo_fresh)
       demo_fresh = Some ((Some obj_area, obj_page), s') \<and>
     page_inv 0 3 48 (page_blocks obj_area 48) [] s' \<and> pq_list (THREAD_LOCAL_VEC_START, Bin 4) [obj_page] s'"
proof -
  have "\<exists>s'. cxl_page_malloc demo_client (cl_tls_offset demo_client, Bin 4)
       (cxl_find_page (cl_tls_offset demo_client, Bin 4) demo_fresh) demo_fresh = Some ((Some obj_area, obj_page), s') \<and>
     page_inv 0 3 48 (page_blocks obj_area 48) [] s' \<and> pq_list (cl_tls_offset demo_client, Bin 4) [obj_page] s' \<and>
     pq_list (cl_tls_offset demo_client, Free_Page) [] s' \<and>
     (\<forall>x. \<not> in_page 0 3 x \<longrightarrow> cell s' x = cell demo_fresh x) \<and> sas s' = sas demo_fresh \<and> era_tab s' = era_tab demo_fresh"
    by (rule cxl_page_malloc_fresh)
       (simp_all add: fresh_lists, simp_all add: free_page_tls_def zero_page_def area_ok_area_at)
  then show ?thesis by auto
qed

lemma cxl_page_free_spec_witness:
  "\<exists>s'. cxl_page_free demo_client obj_page (THREAD_LOCAL_VEC_START, Bin 65) demo_empty = Some s' \<and>
     pq_list (THREAD_LOCAL_VEC_START, Bin 65) [] s' \<and> pq_list (THREAD_LOCAL_VEC_START, Free_Page) [obj_page] s'"
proof -
  have q: "pq_list (cl_tls_offset demo_client, Bin 65) [obj_page] demo_empty"
    "pq_list (cl_tls_offset demo_client, Free_Page) [] demo_empty"
    by (simp_all add: pq_list_def demo_tls_def demo_page_def)
  have "\<exists>s'. cxl_page_free demo_client obj_page (cl_tls_offset demo_client, Bin 65) demo_empty = Some s' \<and>
     pq_list (cl_tls_offset demo_client, Bin 65) (remove1 obj_page [obj_page]) s' \<and>
     pq_list (cl_tls_offset demo_client, Free_Page) (obj_page # []) s' \<and>
     page_body (page s' obj_page) = zero_page \<and>
     segment s' = (segment demo_empty)(seg_at 0 := (segment demo_empty (seg_at 0))
       \<lparr>sg_used := sg_used (segment demo_empty (seg_at 0)) - 1\<rparr>) \<and>
     (\<forall>p. p \<noteq> obj_page \<longrightarrow> page_body (page s' p) = page_body (page demo_empty p)) \<and>
     cell s' = cell demo_empty \<and> sas s' = sas demo_empty \<and> era_tab s' = era_tab demo_empty"
    by (rule cxl_page_free_spec[OF _ _ q(1) _ q(2)]) simp_all
  then show ?thesis by auto
qed

definition two_queued :: shm where
  "two_queued = cxl_page_queue_push (0, Bin 4) obj_page demo_empty"

lemma two_queued_list: "pq_list (0, Bin 4) [obj_page] two_queued"
  unfolding two_queued_def by (rule pq_list_push) (simp_all add: pq_list_def demo_tls_def)

lemma queue_push_then_remove_witness:
  "pq_list (0, Bin 4) [tbr_page, obj_page] (cxl_page_queue_push (0, Bin 4) tbr_page two_queued) \<and>
   pq_list (0, Bin 4) [tbr_page]
     (cxl_page_queue_remove (0, Bin 4) obj_page (cxl_page_queue_push (0, Bin 4) tbr_page two_queued))"
  using queue_push_then_remove[OF two_queued_list, of tbr_page obj_page] by simp

lemma fresh_page_oom_witness:
  "cxl_segment_page_alloc demo_client 64 demo_empty = Some (None, demo_empty) \<and>
   cxl_page_fresh demo_client (0, Bin 4) demo_empty = None"
  by (rule fresh_page_oom[where n = 14])
     (simp_all add: pq_list_def demo_tls_def segment_fits_def layout_simps)

lemma cxl_page_malloc_oom_instance:
  "cxl_page_malloc demo_client (0, Bin 4) (cxl_find_page (0, Bin 4) demo_empty) demo_empty = None"
  by (rule cxl_page_malloc_oom[where n = 14])
     (simp_all add: pq_list_def demo_tls_def segment_fits_def layout_simps)

abbreviation "demo_unclaimed \<equiv> demo_empty\<lparr>sas := (\<lambda>_. \<lparr>sas_thread_id = 0, sas_ver = 0, sas_state = NORMAL, sas_thread_free = 0\<rparr>)\<rparr>"

lemma unclaimed_fits: "segment_fits demo_client 0" "first_free_slot 0 demo_unclaimed"
  "pq_list (cl_tls_offset demo_client, Free_Page) [] demo_unclaimed"
  by (simp_all add: segment_fits_def first_free_slot_def pq_list_def demo_tls_def layout_simps)

lemma segment_refill_witness:
  "\<exists>s'. cxl_segment_page_alloc demo_client 48 demo_unclaimed = Some (Some (meta_at (seg_at 0) 1), s') \<and>
     pq_list (cl_tls_offset demo_client, Free_Page) (tl (seg_pages 0)) s'"
  using segment_refill[OF unclaimed_fits(3,1,2), of 48] by blast

lemma segment_given_back_witness:
  "\<exists>s s'. cxl_segment_free demo_client (seg_at 0) s = Some s' \<and> sas_thread_id (sas s' 0) = 0 \<and>
     pq_list (cl_tls_offset demo_client, Free_Page) [] s'"
proof -
  obtain s where s: "pq_list (cl_tls_offset demo_client, Free_Page) (seg_pages 0 @ []) s"
    "sas s = (sas demo_unclaimed)(of_nat 0 := claimed_sas demo_client)"
    by (rule cxl_segment_alloc_spec[OF unclaimed_fits(1,2,3)]) auto
  have "\<exists>s'. cxl_segment_free demo_client (seg_at 0) s = Some s' \<and>
    pq_list (cl_tls_offset demo_client, Free_Page) (filter (\<lambda>p. p \<notin> set (seg_pages 0)) (seg_pages 0)) s' \<and>
    sas s' = (sas s)(of_nat 0 := (sas s (of_nat 0))\<lparr>sas_thread_id := 0\<rparr>) \<and>
    segment s' = (segment s)(seg_at 0 := zero_segment) \<and>
    (\<forall>k<PAGES_PER_SEGMENT. page s' (meta_at (seg_at 0) k) = zero_page) \<and> cell s' = cell s"
    by (rule segment_given_back)
       (use s in \<open>auto simp: claimed_sas_def set_seg_pages\<close>)
  then obtain s' where "cxl_segment_free demo_client (seg_at 0) s = Some s'"
    "pq_list (cl_tls_offset demo_client, Free_Page) [] s'" "sas_thread_id (sas s' 0) = 0"
    by auto
  then show ?thesis by (intro exI[of _ s] exI[of _ s'] conjI)
qed

section \<open>The hash index\<close>

text \<open>A chain with one node, for key 5 in the partition of thread 1.\<close>

abbreviation "entry_5 \<equiv> hash_entry 0 5"

definition node_cells_5 :: "u64 \<Rightarrow> u64" where
  "node_cells_5 = (\<lambda>_. 0)(entry_5 := obj_area, obj_area + 24 := 5, obj_area + 32 := 70)"

abbreviation "demo_index \<equiv> demo (demo_page 0 0 16 4096) (demo_page 0 0 1024 64) node_cells_5"

lemma entry_5_at: "entry_5 = 0x4000028"
  by (simp add: hash_entry_def hash_offset_def layout_simps)

lemma hash_get_after_put_witness:
  "\<exists>s'. hash_put demo_client 5 80 demo_index = Some s' \<and> hash_get 5 s' = Some (Some 80)"
proof -
  have at: "node_cells_5 entry_5 = obj_area" "node_cells_5 (obj_area + 24) = 5" "node_cells_5 (obj_area + 32) = 70"
    "node_cells_5 (obj_area + 40) = 0"
    by (simp_all add: node_cells_5_def entry_5_at demo_addresses)
  have path: "hash_path (cell demo_index) entry_5 [obj_area]" using at by simp
  have ok: "nodes_ok entry_5 [obj_area]"
    by (simp add: nodes_ok_def node_cells_def entry_5_at demo_addresses)
  have content: "hash_content (cell demo_index) [obj_area] = [5 \<mapsto> 70]" using at by simp
  have holds: "bucket_holds entry_5 demo_index [5 \<mapsto> 70]"
    using path ok content unfolding bucket_holds_def by blast
  have key: "5 \<in> bucket_keys demo_client entry_5"
    by (simp add: bucket_keys_def in_partition_def valid_id_def layout_simps)
  have fits: "bucket_fits demo_client entry_5 5 demo_index"
    by (rule hix.fits_old[OF holds key]) simp
  show ?thesis using hash_get_after_put[OF holds key key fits, of 80] by simp
qed

section \<open>Crashes\<close>

lemma second_own: "own_era second_client (link_reference demo_client cell_a obj_area (mem run_start)) = 5"
proof -
  let ?s = "mem run_start"
  have ok: "era_ok demo_client (cell ?s (obj_info obj_area)) ?s"
    unfolding run_start_word by (simp add: era_ok_def demo_info_fields valid_id_def layout_simps)
  have "own_era second_client (link_reference demo_client cell_a obj_area ?s) =
      own_era second_client (bump_era demo_client (see_era demo_client (cell ?s (obj_info obj_area)) ?s))"
    by (rule own_era_tab[OF link_reference_era])
  also have "\<dots> = own_era second_client ?s"
    unfolding own_era_def using bump_see_era(3)[OF ok, of 3 3] by (simp add: valid_id_def layout_simps)
  finally show ?thesis by simp
qed

lemma fresh_start: "fresh_era demo_client obj_area (mem run_start)"
proof -
  have rows: "era (int j) 1 (mem run_start) < 5" if "int j \<noteq> 1" for j
    using run_start_rows[of "int j" demo_client] that by simp
  have logs: "rl_cur_era (tls_redo (tls (mem run_start) a) i) < 5" for a i
    by (simp add: run_start_def demo_tls_def zero_redo_def)
  show ?thesis
    using rows logs tls_id_at0(1)
    by (simp add: fresh_era_def run_start_word demo_info_fields valid_id_def) (simp add: layout_simps)
qed

lemma redo_after_transfer_witness:
  "\<exists>s3. cell s3 cell_a = 0 \<and> cell (redo_ref_cnt THREAD_LOCAL_VEC_START s3) cell_a = obj_area"
proof -
  let ?s1 = "link_reference demo_client cell_a obj_area (mem run_start)"
  let ?s2 = "link_reference second_client cell_b obj_area ?s1"
  let ?s3 = "unlink_commit second_client cell_a obj_area ?s2"
  have cnt: "obj_cnt obj_area (mem run_start) < 65534"
    by (simp add: obj_cnt_def run_start_word demo_info_fields)
  have e2: "own_era second_client ?s1 \<noteq> - 1" by (simp add: second_own)
  have "cell ?s1 cell_a = obj_area \<and> cell ?s3 cell_a = 0 \<and>
      cell (redo_ref_cnt (cl_tls_offset demo_client) ?s3) cell_a = obj_area \<and>
      cell (redo_ref_cnt (cl_tls_offset demo_client) ?s3) cell_b = obj_area \<and>
      obj_cnt obj_area (redo_ref_cnt (cl_tls_offset demo_client) ?s3) = obj_cnt obj_area (mem run_start) + 1 \<and>
      own_era demo_client (redo_ref_cnt (cl_tls_offset demo_client) ?s3) = own_era demo_client (mem run_start) + 1"
    by (rule redo_after_transfer[OF fresh_start cnt _ _ _ _ e2 _ _ _ refl refl refl refl])
       (simp_all add: valid_id_def layout_simps demo_addresses obj_info_def tls_at_def)
  then show ?thesis by auto
qed

lemma redo_prepared_node_witness:
  "cell (redo_ref_cnt THREAD_LOCAL_VEC_START (crash_after 2 (link_steps demo_client cell_b obj_area
     (demo zero_page zero_page ((\<lambda>_. 0)(obj_info obj_area := commit_word demo_client 0 5))))
     (demo zero_page zero_page ((\<lambda>_. 0)(obj_info obj_area := commit_word demo_client 0 5))))) cell_b = obj_area"
proof -
  let ?s = "demo zero_page zero_page ((\<lambda>_. 0)(obj_info obj_area := commit_word demo_client 0 5))"
  have logs: "\<forall>i < REDO_CACHELINE_CNT. rl_cur_era (tls_redo (tls ?s (cl_tls_offset demo_client)) i) < own_era demo_client ?s"
    by (simp add: demo_tls_def zero_redo_def)
  have "cell (redo_ref_cnt (cl_tls_offset demo_client) (crash_after 2 (link_steps demo_client cell_b obj_area ?s) ?s)) cell_b = obj_area \<and>
      obj_cnt obj_area (redo_ref_cnt (cl_tls_offset demo_client) (crash_after 2 (link_steps demo_client cell_b obj_area ?s) ?s)) = 0"
    by (rule redo_prepared_node[OF demo_valid _ _ logs _ refl])
       (simp_all add: tls_id_at0, simp add: demo_addresses obj_info_def)
  then show ?thesis by simp
qed

lemma max_seen_last_row_witness:
  "max_seen 1 (set_era (int MAX_THREAD) (uint (1 :: u32)) 7 (mem run_start)) = max_seen 1 (mem run_start)"
  by (rule max_seen_last_row) (simp add: valid_id_def layout_simps)

section \<open>Threads, counts and handles\<close>



definition crowded :: shm where
  "crowded = (left_state free_tls)\<lparr>tls := (\<lambda>a. if a = tls_at MAX_THREAD then free_tls else demo_tls)\<rparr>"

lemma thread_init_past_max_witness:
  "\<exists>c s'. thread_init 0x40000000 7 9 crowded = Some (c, s') \<and> \<not> valid_id (uint (cl_thread_id c))"
proof (rule thread_init_past_max)
  show "\<forall>j < MAX_THREAD. tls_packed_id (tls crowded (tls_at j)) \<noteq> 0"
    using tls_at_inject[of _ MAX_THREAD] by (auto simp: crowded_def demo_tls_def layout_simps)
  show "tls_packed_id (tls crowded (tls_at MAX_THREAD)) = 0" by (simp add: crowded_def free_tls_def)
qed

lemma thread_init_zero_id_witness:
  "\<exists>c s1 c' s2. thread_init 0x40000000 0 0 (left_state free_tls) = Some (c, s1) \<and>
     thread_init 0x40000000 7 9 s1 = Some (c', s2) \<and> cl_tls_offset c' = cl_tls_offset c \<and> cl_thread_id c' = cl_thread_id c"
  by (rule thread_init_zero_id[of 0]) (simp_all add: free_tls_def)

lemma size_class_witness:
  "\<exists>i. cxl_page_queue False 100 = Some (Bin i) \<and> 2 \<le> i \<and> i < CXL_BIN_SIZE \<and>
     100 \<le> unat (bin_size (Bin i)) \<and> unat (bin_size (Bin i)) < 116"
  using size_class[of 100] by simp

lemma moved_drop_witness:
  "\<exists>s'. ref_drop demo_client (snd (ref_move \<lparr>ref_tbr = tbr_area, ref_data = obj_area\<rparr>)) demo_empty =
     Some (\<lparr>ref_tbr = tbr_area, ref_data = obj_area\<rparr>, s') \<and> handles tbr_area s' = 65535"
  using moved_drop[of "\<lparr>ref_tbr = tbr_area, ref_data = obj_area\<rparr>" demo_empty demo_client] by auto

lemma copy_drop_id_witness:
  "\<exists>s'. ref_drop demo_client \<lparr>ref_tbr = tbr_area, ref_data = 0\<rparr>
       (snd (ref_copy \<lparr>ref_tbr = tbr_area, ref_data = 0\<rparr>
         (demo zero_page zero_page ((\<lambda>_. 0)(tbr_area + 8 := set_tbr_ref_cnt 1 0))))) =
     Some (\<lparr>ref_tbr = tbr_area, ref_data = 0\<rparr>, s') \<and> handles tbr_area s' = 1"
proof -
  let ?s = "demo zero_page zero_page ((\<lambda>_. 0)(tbr_area + 8 := set_tbr_ref_cnt 1 0))"
  let ?r = "\<lparr>ref_tbr = tbr_area, ref_data = 0 :: u64\<rparr>"
  have h: "handles tbr_area ?s = 1" by (simp add: handles_def tbr_fields)
  have "\<exists>s'. ref_drop demo_client ?r (snd (ref_copy ?r ?s)) = Some (?r, s') \<and>
     handles (ref_tbr ?r) s' = handles (ref_tbr ?r) ?s \<and>
     (\<forall>x. x \<noteq> ref_tbr ?r + 8 \<longrightarrow> cell s' x = cell ?s x) \<and> page s' = page ?s \<and> segment s' = segment ?s \<and>
     sas s' = sas ?s \<and> era_tab s' = era_tab ?s \<and> tls s' = tls ?s"
    by (rule copy_drop_id) (simp_all add: h)
  then show ?thesis using h by auto
qed

lemma link_reference_overflow_witness:
  "cell (link_reference demo_client cell_b obj_area (demo zero_page zero_page ((\<lambda>_. 0)(obj_info obj_area := pack_ref_info 1 0xFFFF 4))))
     (obj_info obj_area) = pack_ref_info 2 0 5"
proof -
  let ?s = "demo zero_page zero_page ((\<lambda>_. 0)(obj_info obj_area := pack_ref_info 1 0xFFFF 4))"
  have "obj_cnt obj_area ?s = 65535" by (simp add: obj_cnt_def pack_ref_info_fields)
  moreover have "cell_b \<noteq> obj_info obj_area" by (simp add: demo_addresses obj_info_def)
  ultimately show ?thesis using link_reference_overflow[of obj_area ?s cell_b demo_client] by simp
qed

lemma unlink_reference_zero_witness:
  "unlink_reference demo_client cell_b obj_area (demo zero_page zero_page ((\<lambda>_. 0)(obj_info obj_area := pack_ref_info 1 0 4))) =
     Some (unlink_commit demo_client cell_b obj_area (demo zero_page zero_page ((\<lambda>_. 0)(obj_info obj_area := pack_ref_info 1 0 4))))"
proof -
  let ?s = "demo zero_page zero_page ((\<lambda>_. 0)(obj_info obj_area := pack_ref_info 1 0 4))"
  have ok: "era_ok demo_client (cell ?s (obj_info obj_area)) ?s"
    by (simp add: era_ok_def saw_cid_def saw_era_def pack_ref_info_fields valid_id_def layout_simps)
  have cnt: "obj_cnt obj_area ?s = 0" by (simp add: obj_cnt_def pack_ref_info_fields)
  have "cell_b \<noteq> obj_info obj_area" by (simp add: demo_addresses obj_info_def)
  from unlink_reference_zero[OF ok cnt this] show ?thesis by simp
qed

lemma block_address_roundtrip_witness:
  "cxl_ptr_segment (obj_area + of_nat 40) = seg_at 0 \<and> cxl_ptr_page (obj_area + of_nat 40) = obj_page \<and>
   cxl_page_start (cxl_ptr_segment (cxl_ptr_page (obj_area + of_nat 40))) (cxl_ptr_page (obj_area + of_nat 40)) = obj_area"
  by (rule block_address_roundtrip[where bs = 1024]) (simp_all add: area_head)

end
