(* ===== verification/Leak_Instance.thy ===== *)
theory Leak_Instance
  imports Instances
begin

text \<open>
  A crash in which nothing leaks: the dead thread had a root reference to an object, in which a reference
  to a second object is embedded, and a message queue with a pending reference to this second object.
\<close>

abbreviation "obj_two \<equiv> obj_area + 1024"
abbreviation "queue_page \<equiv> meta_at (seg_at 0) 4"

text \<open>In the variant \<open>k\<close> a bucket of the hash index refers to the second object, too.\<close>

definition table_refs :: "bool \<Rightarrow> u64 set" where
  "table_refs k = (if k then {HASH_TABLE_START} else {})"

definition demo_graph :: "bool \<Rightarrow> obj_graph" where
  "demo_graph k = \<lparr>gr_obj = demo_objs, gr_emb = (\<lambda>b. if b = obj_area then 1 else 0),
     gr_ext = insert tbr_area (table_refs k \<union> slot_cells queue_at), gr_rank = (\<lambda>b. if b = obj_area then 1 else 0)\<rparr>"

definition graph_cells :: "bool \<Rightarrow> u64 \<Rightarrow> u64" where
  "graph_cells k = (\<lambda>_. 0)(tbr_area := obj_area, tbr_area + 8 := 1, obj_info obj_area := pack_ref_info 1 1 4,
     obj_emb obj_area := 1, obj_area + 24 := obj_two, obj_info obj_two := pack_ref_info 1 (if k then 3 else 2) 4,
     HASH_TABLE_START := (if k then obj_two else 0), mq_end queue_at := 1, mq_ids queue_at := 1, mq_slot queue_at 0 := obj_two)"

definition crashed_tls :: "u64 \<Rightarrow> cxl_tls" where
  "crashed_tls = (\<lambda>_. demo_tls\<lparr>tls_packed_id := 0\<rparr>)(THREAD_LOCAL_VEC_START := demo_tls\<lparr>tls_redo :=
     (\<lambda>_. zero_redo)(0 := \<lparr>rl_func_id = LINK_REF, rl_saved_ref_cnt = 0, rl_cur_era = 4, rl_ref = tbr_area,
       rl_refed = obj_area, rl_old_refed = 0\<rparr>), tls_sender_queue := queue_at\<rparr>)"

definition left_graph :: "bool \<Rightarrow> shm" where
  "left_graph k = (demo (demo_page 0 0 16 4096) (demo_page 0 0 1024 64) (graph_cells k))
     \<lparr>tls := crashed_tls, page := (\<lambda>_. zero_page)(tbr_page := demo_page 0 0 16 4096, obj_page := demo_page 0 0 1024 64,
        queue_page := (demo_page 0 0 192 1)\<lparr>pg_is_msg_queue := True\<rparr>)\<rparr>"

text \<open>The thread stopped between the exchange of the count and the write of its root reference.\<close>

definition crashed_state :: "bool \<Rightarrow> shm" where
  "crashed_state k = (left_graph k)\<lparr>cell := (graph_cells k)(tbr_area := 0)\<rparr>"

lemma left_graph_sel [simp]:
  "cell (left_graph k) = (graph_cells k)" "tls (left_graph k) = crashed_tls" "segment (left_graph k) a = \<lparr>sg_thread_id = 1, sg_used = 2\<rparr>"
  by (simp_all add: left_graph_def)

lemma crashed_log: "newest_redo (tls_redo (crashed_tls THREAD_LOCAL_VEC_START)) =
    \<lparr>rl_func_id = LINK_REF, rl_saved_ref_cnt = 0, rl_cur_era = 4, rl_ref = tbr_area, rl_refed = obj_area, rl_old_refed = 0\<rparr>"
  by (simp add: crashed_tls_def newest_redo_def layout_simps upt_conv_Cons zero_redo_def)

section \<open>The cells\<close>

lemma graph_cells_num:
  "graph_cells k = (\<lambda>_. 0)(0x8020000 := 0x8030000, 0x8020008 := 1, 0x8030008 := pack_ref_info 1 1 4,
     0x8030010 := 1, 0x8030018 := 0x8030400, 0x8030408 := pack_ref_info 1 (if k then 3 else 2) 4,
     0x4000000 := (if k then 0x8030400 else 0),
     0x8040008 := 1, 0x8040010 := 1, 0x8040028 := 0x8030400)"
  by (simp add: graph_cells_def demo_addresses obj_info_def obj_emb_def mq_end_def mq_ids_def mq_slot_def layout_simps)

lemma page_bounds:
  "in_page 0 2 x \<longleftrightarrow> 0x8020000 \<le> unat x \<and> unat x < 0x8030000"
  "in_page 0 3 x \<longleftrightarrow> 0x8030000 \<le> unat x \<and> unat x < 0x8040000"
  "in_page 0 4 x \<longleftrightarrow> 0x8040000 \<le> unat x \<and> unat x < 0x8050000"
  by (simp_all add: in_page_def demo_addresses layout_simps)

lemma graph_cells_in:
  "in_page 0 2 x \<Longrightarrow> graph_cells k x = (if x = tbr_area then obj_area else if x = tbr_area + 8 then 1 else 0)"
  "in_page 0 4 x \<Longrightarrow> graph_cells k x = (if x = mq_slot queue_at 0 then obj_two else if x = mq_end queue_at \<or> x = mq_ids queue_at then 1 else 0)"
  by (auto simp: page_bounds graph_cells_num demo_addresses mq_end_def mq_ids_def mq_slot_def)

lemma demo_block:
  assumes "b \<in> demo_objs"
  shows "\<exists>j < 64. unat b = 0x8030000 + 1024 * j"
proof -
  obtain j where j: "j < 64" "b = blk obj_area 1024 j" using assms by (auto simp: page_blocks_def)
  have "unat b = unat obj_area + j * 1024" using unat_blk[OF area_ok_demo(2), of j] j by simp
  then show ?thesis using j(1) by (auto simp: demo_addresses)
qed

lemma demo_two: "obj_two \<in> demo_objs" "obj_two \<noteq> obj_area"
proof -
  have "blk obj_area 1024 1 \<in> demo_objs" by (simp add: page_blocks_def)
  then show "obj_two \<in> demo_objs" by (simp add: blk_def)
qed simp

lemma demo_info:
  assumes "b \<in> demo_objs"
  shows "graph_cells k (obj_info b) =
    (if b = obj_area then pack_ref_info 1 1 4 else if b = obj_two then pack_ref_info 1 (if k then 3 else 2) 4 else 0)"
proof -
  obtain j where j: "j < 64" "unat b = 0x8030000 + 1024 * j" using demo_block[OF assms] by blast
  have "unat b + 8 < 2 ^ 64" using j by simp
  then have u: "unat (obj_info b) = 0x8030008 + 1024 * j"
    using unat_add_small[of b 8] j(2) by (simp add: obj_info_def)
  have "b = obj_area \<longleftrightarrow> j = 0" "b = obj_two \<longleftrightarrow> j = 1" using j by (auto simp: word_unat_eq_iff demo_addresses)
  then show ?thesis using u j(1) by (auto simp: graph_cells_num word_unat_eq_iff)
qed

section \<open>The graph\<close>

lemma demo_graph_sel [simp]:
  "gr_obj (demo_graph k) = demo_objs" "gr_ext (demo_graph k) = insert tbr_area (table_refs k \<union> slot_cells queue_at)"
  "gr_emb (demo_graph k) b = (if b = obj_area then 1 else 0)" "gr_rank (demo_graph k) b = (if b = obj_area then 1 else 0)"
  by (simp_all add: demo_graph_def)

lemma demo_emb: "emb_cells (demo_graph k) b = (if b = obj_area then {obj_area + 24} else {})"
proof -
  have "{..<Suc 0} = {0}" by auto
  then show ?thesis by (simp add: emb_cells_def emb_ref_def sizeof_CXLObj_def)
qed

lemma demo_ref_cells: "ref_cells (demo_graph k) = insert tbr_area (insert (obj_area + 24) (table_refs k \<union> slot_cells queue_at))"
  using demo_obj_member by (auto simp: ref_cells_def demo_emb)

lemma demo_slot:
  assumes "r \<in> slot_cells queue_at"
  shows "\<exists>i < 16. r = mq_slot queue_at (of_nat i) \<and> unat r = 0x8040028 + 8 * i"
proof -
  obtain i where i: "i < 16" "r = mq_slot queue_at (of_nat i)" using assms by (auto simp: slot_cells_def)
  have "unat (0x8040028 :: u64) + 8 * i < 2 ^ 64" using i(1) by simp
  then have "unat (0x8040028 + of_nat (8 * i) :: u64) = 0x8040028 + 8 * i" by (subst unat_add_small) simp_all
  moreover have "r = 0x8040028 + of_nat (8 * i)" unfolding i(2) mq_offsets(6) by (simp add: demo_addresses algebra_simps)
  ultimately show ?thesis using i by blast
qed

lemma demo_slot_in: "r \<in> slot_cells queue_at \<Longrightarrow> in_page 0 4 r"
  using demo_slot[of r] by (auto simp: page_bounds)

lemma demo_refs_in:
  "in_page 0 2 tbr_area" "in_page 0 3 (obj_area + 24)"
  by (simp_all add: page_bounds) (simp_all add: demo_addresses)

lemma demo_body_in: "x \<in> body (demo_graph k) \<Longrightarrow> in_page 0 3 x"
  using demo_header_in demo_refs_in(2) by (auto simp: body_def demo_emb headers_def split: if_splits)

lemma demo_header_num:
  assumes "x \<in> headers demo_objs"
  shows "\<exists>j < 64. unat x \<in> {0x8030000 + 1024 * j, 0x8030008 + 1024 * j, 0x8030010 + 1024 * j}"
proof -
  obtain b where b: "b \<in> demo_objs" "x \<in> {b, b + 8, b + 16}"
    using assms by (auto simp: headers_def obj_cells_def obj_info_def obj_emb_def)
  obtain j where j: "j < 64" "unat b = 0x8030000 + 1024 * j" using demo_block[OF b(1)] by blast
  then have "unat (b + 8) = 0x8030008 + 1024 * j" "unat (b + 16) = 0x8030010 + 1024 * j"
    using unat_add_small[of b 8] unat_add_small[of b 16] by simp_all
  then show ?thesis using b(2) j by auto
qed

lemma table_num: "x \<in> table_refs k \<Longrightarrow> unat x = 0x4000000"
  by (auto simp: table_refs_def layout_simps split: if_splits)

lemma other_page_refs: "in_page 0 3 x \<Longrightarrow> x \<noteq> tbr_area \<and> x \<notin> table_refs k \<and> x \<notin> slot_cells queue_at"
  using demo_refs_in(1) demo_slot_in[of x] table_num[of x k] by (auto simp: page_bounds)

lemma demo_graph_ok: "graph_ok (demo_graph k)"
proof -
  have "x \<notin> ref_cells (demo_graph k)" if x: "x \<in> headers demo_objs" for x
  proof -
    obtain j where j: "unat x \<in> {0x8030000 + 1024 * j, 0x8030008 + 1024 * j, 0x8030010 + 1024 * j}"
      using demo_header_num[OF x] by blast
    have "unat x \<noteq> 0x8030018"
    proof
      assume "unat x = 0x8030018"
      then have "1024 * j = 24 \<or> 1024 * j = 16 \<or> 1024 * j = 8" using j by auto
      then show False by (cases j) auto
    qed
    then have "x \<noteq> obj_area + 24" by (auto simp: demo_addresses)
    then show ?thesis using other_page_refs[OF demo_header_in[OF x], of k] by (simp add: demo_ref_cells)
  qed
  then have hdr: "headers demo_objs \<inter> ref_cells (demo_graph k) = {}" by blast
  have "obj_area + 24 \<notin> insert tbr_area (table_refs k \<union> slot_cells queue_at)" using other_page_refs[OF demo_refs_in(2), of k] by simp
  then show ?thesis
    using hdr page_blocks_apart[OF area_ok_demo(2)] by (auto simp: graph_ok_def demo_emb slot_cells_def table_refs_def)
qed

lemma demo_first_slot: "mq_slot queue_at 0 \<in> slot_cells queue_at"
  using slot_mem[of 0] by simp

text \<open>The references to the second object.\<close>

definition two_refs :: "bool \<Rightarrow> u64 set" where
  "two_refs k = insert (obj_area + 24) (insert (mq_slot queue_at 0) (table_refs k))"

lemma demo_ref_values:
  "r \<in> ref_cells (demo_graph k) \<Longrightarrow> graph_cells k r = (if r = tbr_area then obj_area else if r \<in> two_refs k then obj_two else 0)"
proof -
  have slot: "graph_cells k r = (if r = mq_slot queue_at 0 then obj_two else 0)" if slot: "r \<in> slot_cells queue_at" for r
  proof -
    obtain i where "unat r = 0x8040028 + 8 * i" using demo_slot[OF slot] by blast
    then have "r \<noteq> mq_end queue_at" "r \<noteq> mq_ids queue_at" by (auto simp: demo_addresses mq_end_def mq_ids_def)
    then show ?thesis using graph_cells_in(2)[OF demo_slot_in[OF slot]] by simp
  qed
  have ne: "tbr_area \<notin> slot_cells queue_at" "obj_area + 24 \<notin> slot_cells queue_at"
    using demo_slot_in[of tbr_area] demo_refs_in(1) other_page_refs[OF demo_refs_in(2)] by (auto simp: page_bounds)
  have table: "graph_cells k r = obj_two \<and> r \<noteq> tbr_area" if "r \<in> table_refs k" for r
    using that by (auto simp: graph_cells_num table_refs_def layout_simps demo_addresses split: if_splits)
  have here: "graph_cells k tbr_area = obj_area" "graph_cells k (obj_area + 24) = obj_two" "tbr_area \<noteq> obj_area + 24"
    by (simp_all add: graph_cells_num demo_addresses)
  assume "r \<in> ref_cells (demo_graph k)"
  then consider "r = tbr_area" | "r = obj_area + 24" | "r \<in> table_refs k" | "r \<in> slot_cells queue_at" by (auto simp: demo_ref_cells)
  then show ?thesis
  proof cases
    case 4
    then have "r \<noteq> tbr_area" "r \<noteq> obj_area + 24" "r \<notin> table_refs k"
      using ne demo_slot_in[OF 4] table_num[of r k] by (auto simp: page_bounds)
    then show ?thesis using slot[OF 4] by (simp add: two_refs_def)
  qed (use here table in \<open>auto simp: two_refs_def\<close>)
qed

lemma demo_referrers:
  assumes "b \<in> demo_objs"
  shows "referrers (demo_graph k) b (left_graph k) = (if b = obj_area then {tbr_area} else if b = obj_two then two_refs k else {})"
proof -
  have "b \<noteq> 0" using page_blocks_apart[OF area_ok_demo(2)] assms by (auto simp: apart_def)
  have "x \<noteq> tbr_area" if "x \<in> two_refs k" for x
    using that by (auto simp: two_refs_def table_refs_def mq_slot_def demo_addresses layout_simps split: if_splits)
  moreover have "two_refs k \<subseteq> ref_cells (demo_graph k)" "tbr_area \<in> ref_cells (demo_graph k)"
    using demo_first_slot by (auto simp: two_refs_def demo_ref_cells)
  moreover have "obj_area \<noteq> obj_two" by simp
  ultimately have "r \<in> ref_cells (demo_graph k) \<and> graph_cells k r = b \<longleftrightarrow>
    r \<in> (if b = obj_area then {tbr_area} else if b = obj_two then two_refs k else {})" for r
    using demo_ref_values[of r k] \<open>b \<noteq> 0\<close> by (cases "r \<in> ref_cells (demo_graph k)") (auto split: if_splits)
  moreover have "r \<in> referrers (demo_graph k) b (left_graph k) \<longleftrightarrow> r \<in> ref_cells (demo_graph k) \<and> graph_cells k r = b" for r
    by (simp add: referrers_def)
  ultimately show ?thesis by blast
qed

lemma two_refs_card: "card (two_refs k) = (if k then 3 else 2)"
  by (simp add: two_refs_def table_refs_def mq_slot_def demo_addresses layout_simps)

lemma demo_cnt:
  assumes "b \<in> demo_objs"
  shows "obj_cnt b (left_graph k) = (if b = obj_area then 1 else if b = obj_two then if k then 3 else 2 else 0)"
  by (simp add: obj_cnt_def demo_info[OF assms] pack_ref_info_fields) (simp add: get_ref_cnt_from_info_def)

lemma demo_heap_ok: "heap_ok (demo_graph k) (left_graph k)"
proof -
  have "cell (left_graph k) r = 0 \<or> cell (left_graph k) r \<in> demo_objs" if "r \<in> ref_cells (demo_graph k)" for r
    using demo_ref_values[OF that] demo_two(1) demo_obj_member by simp
  moreover have "obj_cnt b (left_graph k) = card (referrers (demo_graph k) b (left_graph k))" if "b \<in> demo_objs" for b
    using demo_cnt[OF that] demo_referrers[OF that] two_refs_card by auto
  moreover have "graph_cells k (obj_emb obj_area) = 1" "graph_cells k (obj_emb obj_two) = 0" "graph_cells k (obj_area + 24) = obj_two"
    by (simp_all add: graph_cells_num obj_emb_def demo_addresses)
  then have "if obj_cnt b (left_graph k) = 0 then \<forall>r \<in> emb_cells (demo_graph k) b. cell (left_graph k) r = 0
      else cell (left_graph k) (obj_emb b) = of_nat (gr_emb (demo_graph k) b)" if "b \<in> demo_objs" for b
    using demo_cnt[OF that] demo_two(2) by (auto simp: demo_emb)
  moreover have "graph_cells k r \<noteq> 0 \<longrightarrow> gr_rank (demo_graph k) (graph_cells k r) < gr_rank (demo_graph k) b"
    if "b \<in> demo_objs" "r \<in> emb_cells (demo_graph k) b" for b r
    using that \<open>graph_cells k (obj_area + 24) = obj_two\<close> demo_two(2) by (auto simp: demo_emb split: if_splits)
  ultimately show ?thesis
    unfolding heap_ok_def left_graph_sel demo_graph_sel(1) by (intro conjI ballI) (blast | assumption | simp only:)+
qed

section \<open>The pages and the queue\<close>

lemma left_graph_page:
  "page (left_graph k) tbr_page = demo_page 0 0 16 4096" "page (left_graph k) obj_page = demo_page 0 0 1024 64"
  "page (left_graph k) queue_page = (demo_page 0 0 192 1)\<lparr>pg_is_msg_queue := True\<rparr>"
  "valid_page p \<Longrightarrow> p \<notin> {(0, 2), (0, 3), (0, 4)} \<Longrightarrow> page (left_graph k) (desc p) = zero_page"
proof -
  have k: "4 < PAGES_PER_SEGMENT" by (simp add: layout_simps)
  have ne: "queue_page \<noteq> tbr_page" "queue_page \<noteq> obj_page" by (simp_all add: k)
  show "page (left_graph k) tbr_page = demo_page 0 0 16 4096" "page (left_graph k) obj_page = demo_page 0 0 1024 64"
    "page (left_graph k) queue_page = (demo_page 0 0 192 1)\<lparr>pg_is_msg_queue := True\<rparr>"
    using ne by (simp_all add: left_graph_def)
  assume v: "valid_page p" and p: "p \<notin> {(0, 2), (0, 3), (0, 4)}"
  have "desc p \<noteq> desc (0, 2)" "desc p \<noteq> desc (0, 3)" "desc p \<noteq> desc (0, 4)"
    using p by (subst desc_inject[OF v]; simp add: valid_page_def k)+
  then show "page (left_graph k) (desc p) = zero_page" by (simp add: left_graph_def)
qed

lemma left_graph_bs: "page_bs 0 3 (left_graph k) = 1024" "page_bs 0 4 (left_graph k) = 192"
  by (simp_all add: page_bs_def left_graph_page demo_page_def)

lemma demo_graph_off: "graph_off (demo_graph k) (0, 2)"
proof -
  have "root_blk (0, 2) j + 8 \<notin> ref_cells (demo_graph k)" if j: "j < block_cnt 16" for j
  proof -
    have pos: "0 < block_cnt 16" by simp
    have here: "in_page 0 2 (root_blk (0, 2) j + 8)" using root_blk_in(2)[OF demo_root_page(1) j] by simp
    have "root_blk (0, 2) j + 8 \<noteq> tbr_area"
      using root_blk_apart[OF demo_root_page(1) pos j] demo_root_page(2) by (cases "j = 0") auto
    moreover have "x \<noteq> obj_area + 24 \<and> x \<notin> table_refs k \<and> x \<notin> slot_cells queue_at" if "in_page 0 2 x" for x
      using that demo_refs_in(2) demo_slot_in[of x] table_num[of x k] by (auto simp: page_bounds)
    ultimately show ?thesis using here by (simp add: demo_ref_cells)
  qed
  moreover have "\<not> in_page 0 2 x" if "x \<in> body (demo_graph k)" for x using demo_body_in[OF that] by (auto simp: page_bounds)
  ultimately show ?thesis by (simp add: graph_off_def del: demo_counts)
qed

lemma demo_root_value:
  assumes j: "j < block_cnt 16"
  shows "graph_cells k (root_blk (0, 2) j) = (if j = 0 then obj_area else 0)" "graph_cells k (root_blk (0, 2) j + 8) = (if j = 0 then 1 else 0)"
proof -
  have pos: "0 < block_cnt 16" by simp
  have "in_page 0 2 (root_blk (0, 2) j)" "in_page 0 2 (root_blk (0, 2) j + 8)"
    using root_blk_in[OF demo_root_page(1) j] by simp_all
  moreover have ne: "root_blk (0, 2) j = tbr_area \<longleftrightarrow> j = 0" "root_blk (0, 2) j + 8 = tbr_area + 8 \<longleftrightarrow> j = 0"
    "root_blk (0, 2) j \<noteq> tbr_area + 8" "root_blk (0, 2) j + 8 \<noteq> tbr_area"
    using root_blk_apart[OF demo_root_page(1) j pos] demo_root_page(2) by (cases "j = 0"; auto)+
  ultimately show "graph_cells k (root_blk (0, 2) j) = (if j = 0 then obj_area else 0)"
    "graph_cells k (root_blk (0, 2) j + 8) = (if j = 0 then 1 else 0)"
    using ne by (simp_all add: graph_cells_in)
qed

lemma demo_roots_fit: "roots_fit (demo_graph k) THREAD_LOCAL_VEC_START [(0, 2)] (left_graph k)"
proof -
  have "root_page_ok THREAD_LOCAL_VEC_START (0, 2) (left_graph k)"
    by (simp add: root_page_ok_def demo_root_page(1) tls_id_at0(1) left_graph_page) (simp add: demo_page_def)
  moreover have "roots_known demo_objs (0, 2) (left_graph k)"
    using demo_root_value demo_obj_member unfolding roots_known_def left_graph_sel by simp
  moreover have "root_fit (demo_graph k) (0, 2) (left_graph k) j" if j: "j < block_cnt 16" for j
  proof (cases "j = 0")
    case True
    have "in_page 0 3 obj_area" by (simp add: page_bounds demo_addresses)
    then have "root_target (0, 2) (left_graph k) 0 = [obj_area]"
      using demo_not_own demo_root_value[of 0] by (simp add: root_target_def Let_def get_in_use_def get_field_def
          cxl_ptr_page_in left_graph_page demo_page_def)
    then show ?thesis using True demo_root_value[of 0] by (simp add: root_fit_def demo_root_page(2) demo_ref_cells)
  next
    case False
    then show ?thesis using demo_root_value[OF j] by (simp add: root_fit_def root_target_def Let_def)
  qed
  ultimately show ?thesis using demo_graph_off by (simp add: roots_fit_def del: demo_counts)
qed

lemma demo_queue_in:
  assumes "x \<in> mq_cells queue_at"
  shows "in_page 0 4 x"
proof -
  obtain j where j: "j < 24" "x = 0x8040000 + of_nat (8 * j)" using assms unfolding demo_queue_cells by blast
  have "unat (0x8040000 :: u64) + 8 * j < 2 ^ 64" using j(1) by simp
  then have "unat x = 0x8040000 + 8 * j" unfolding j(2) by (subst unat_add_small) simp_all
  then show ?thesis using j(1) by (simp add: page_bounds)
qed

lemma demo_queue_values:
  "graph_cells k (mq_start queue_at) = 0" "graph_cells k (mq_end queue_at) = 1" "graph_cells k (mq_ids queue_at) = 1"
  "graph_cells k (mq_sender_next queue_at) = 0"
  by (simp_all add: graph_cells_num mq_start_def mq_end_def mq_ids_def mq_sender_next_def demo_addresses)

lemma demo_queues_left: "queues_left (demo_graph k) [queue_at] [] (left_graph k)"
proof -
  have "queue_apart (demo_graph k) queue_at"
    unfolding queue_apart_def
  proof (intro conjI ballI impI)
    fix x assume x: "x \<in> mq_cells queue_at"
    show "x \<notin> body (demo_graph k)" using demo_queue_in[OF x] demo_body_in[of x] by (auto simp: page_bounds)
    assume "x \<notin> slot_cells queue_at"
    then show "x \<notin> ref_cells (demo_graph k)"
      using demo_queue_in[OF x] demo_refs_in table_num[of x k] by (auto simp: page_bounds demo_ref_cells)
  qed (simp add: demo_ref_cells)
  moreover have "mq_ok queue_at (left_graph k)" by (simp add: mq_ok_def demo_queue_values)
  moreover have "get_receiver_id 1 = 0" by (simp add: get_receiver_id_def get_field_def)
  ultimately show ?thesis
    by (simp add: queues_left_def queues_fit_def demo_queue_values) (simp add: demo_addresses)
qed

lemma demo_dead_state: "dead_state (demo_graph k) THREAD_LOCAL_VEC_START [(0, 2)] [queue_at] [] dead_pages (left_graph k)"
  unfolding dead_state_def
proof (intro conjI)
  show "chain (\<lambda>x. pg_next (page (left_graph k) x)) (pq_first (tls_pages (tls (left_graph k) THREAD_LOCAL_VEC_START) 0)) (map desc [(0, 2)])"
    by (simp add: crashed_tls_def left_graph_page) (simp add: demo_tls_def demo_page_def)
  show "chain (\<lambda>q. cell (left_graph k) (mq_sender_next q)) (tls_sender_queue (tls (left_graph k) THREAD_LOCAL_VEC_START)) [queue_at]"
    by (simp add: crashed_tls_def demo_queue_values) (simp add: demo_addresses)
  show "chain (\<lambda>q. cell (left_graph k) (mq_receiver_next q)) (tls_receiver_queue (tls (left_graph k) THREAD_LOCAL_VEC_START)) []"
    by (simp add: crashed_tls_def demo_tls_def)
  show "\<forall>i. 2 \<le> i \<and> i < CXL_BIN_SIZE \<longrightarrow> bin_chain THREAD_LOCAL_VEC_START i (dead_pages i) (left_graph k)"
    by (simp add: bin_chain_def dead_pages_def crashed_tls_def left_graph_page) (simp add: demo_tls_def demo_page_def)
  show "distinct (all_pages dead_pages CXL_BIN_SIZE)" by (simp add: all_dead_pages)
  show "\<forall>p \<in> set (all_pages dead_pages CXL_BIN_SIZE). p \<notin> set [(0, 2)] \<and> obj_page_ok p (left_graph k)"
    by (simp add: all_dead_pages obj_page_ok_def valid_page_def left_graph_bs left_graph_page) (simp add: demo_page_def)
  show "\<forall>q \<in> set [queue_at] \<union> set []. \<forall>x \<in> mq_cells q. \<forall>p \<in> set [(0, 2)] \<union> set (all_pages dead_pages CXL_BIN_SIZE).
      \<not> in_page (fst p) (snd p) x"
    using demo_queue_apart by (simp add: all_dead_pages)
qed (rule demo_heap_ok demo_roots_fit demo_queues_left)+

lemma demo_spare:
  assumes "q \<in> set (page_blocks queue_at 192)" "q \<noteq> queue_at"
  shows "spare_queue (demo_graph k) {queue_at} q (left_graph k)"
proof -
  have ok: "area_ok queue_at 192" by (rule area_ok_area_at) (simp_all add: layout_simps)
  have n: "block_cnt 192 = 341" by (simp add: block_cnt_def)
  obtain j where j: "j < 341" "q = blk queue_at 192 j" using assms(1) by (auto simp: page_blocks_def n)
  then have "j \<noteq> 0" using assms(2) by (cases "j = 0") (simp_all add: blk_def)
  have uq: "unat q = 0x8040000 + j * 192" using unat_blk[OF ok, of j] j n by (simp add: demo_addresses)
  then have u: "unat (mq_ids q) = 0x8040010 + j * 192"
    using unat_add_small[of q 16] j(1) by (simp add: mq_ids_def)
  have "unat x < 0x80400c0" if "x \<in> mq_cells queue_at" for x
  proof -
    obtain i where i: "i < 24" "x = 0x8040000 + of_nat (8 * i)" using \<open>x \<in> mq_cells queue_at\<close> unfolding demo_queue_cells by blast
    have "unat (0x8040000 :: u64) + 8 * i < 2 ^ 64" using i(1) by simp
    then have "unat x = 0x8040000 + 8 * i" unfolding i(2) by (subst unat_add_small) simp_all
    then show ?thesis using i(1) by simp
  qed
  then have "mq_ids q \<notin> mq_cells queue_at" using u \<open>j \<noteq> 0\<close> by force
  moreover have pg: "in_page 0 4 (mq_ids q)" using u j(1) by (simp add: page_bounds)
  then have "mq_ids q \<notin> body (demo_graph k)" using demo_body_in[of "mq_ids q"] by (auto simp: page_bounds)
  moreover have "mq_ids q \<notin> {mq_slot queue_at 0, mq_end queue_at, mq_ids queue_at}"
    using u \<open>j \<noteq> 0\<close> by (auto simp: mq_slot_def mq_end_def mq_ids_def demo_addresses)
  then have "graph_cells k (mq_ids q) = 0" using graph_cells_in(2)[OF pg] by simp
  then have "\<not> queue_used q (left_graph k)"
    by (simp add: queue_used_def get_receiver_id_def get_sender_id_def get_field_def)
  ultimately show ?thesis by (simp add: spare_queue_def)
qed

lemma demo_pages_known: "pages_known (demo_graph k) THREAD_LOCAL_VEC_START [(0, 2)] {queue_at} {(0, 3)} (left_graph k)"
  unfolding pages_known_def
proof (intro allI impI)
  fix p assume v: "valid_page p"
  consider "p = (0, 2)" | "p = (0, 3)" | "p = (0, 4)" | "p \<notin> {(0, 2), (0, 3), (0, 4)}" by blast
  then show "pg_block_size (page (left_graph k) (desc p)) = 0 \<or> p \<in> set [(0, 2)] \<or>
      page_fit (fst p) (snd p) (left_graph k) \<and> (if pg_is_msg_queue (page (left_graph k) (desc p))
        then p \<notin> {(0, 3)} \<and> (\<forall>q \<in> set (blocks_of (fst p) (snd p) (left_graph k)).
          q \<in> {queue_at} \<or> spare_queue (demo_graph k) {queue_at} q (left_graph k))
        else set (blocks_of (fst p) (snd p) (left_graph k)) \<subseteq> gr_obj (demo_graph k) \<and>
          (p \<in> {(0, 3)} \<or> \<not> to_release (tls_id_of THREAD_LOCAL_VEC_START) (sas (left_graph k) (of_nat (fst p)))))"
  proof cases
    case 2
    then show ?thesis
      by (simp add: page_fit_def left_graph_bs left_graph_page blocks_of_def) (simp add: demo_page_def)
  next
    case 3
    have "\<forall>q \<in> set (blocks_of 0 4 (left_graph k)). q \<in> {queue_at} \<or> spare_queue (demo_graph k) {queue_at} q (left_graph k)"
      using demo_spare unfolding blocks_of_def left_graph_bs by blast
    then show ?thesis using 3 by (simp add: page_fit_def left_graph_bs left_graph_page)
  next
    case 4
    then show ?thesis using left_graph_page(4)[OF v] by (simp add: zero_page_def)
  qed simp
qed

lemma demo_placed: "objs_placed (demo_graph k) [(0, 2)] {queue_at} {(0, 3)} (left_graph k)"
proof -
  have "holds_obj [(0, 2)] b (0, 3) (left_graph k)" if "b \<in> demo_objs" for b
    using that by (simp add: holds_obj_def valid_page_def left_graph_page blocks_of_def left_graph_bs) (simp add: demo_page_def)
  moreover have "\<not> reached (demo_graph k) E (left_graph k) 0" for E by (rule notI, erule reached.cases) simp_all
  ultimately show ?thesis unfolding objs_placed_def by (auto simp: left_graph_page demo_page_def)
qed

section \<open>The crash\<close>

lemma crashed_replay: "redo_ref_cnt THREAD_LOCAL_VEC_START (crashed_state k) = left_graph k"
proof -
  have "cell (crashed_state k) (obj_info obj_area) = pack_ref_info 1 1 4"
    by (simp add: crashed_state_def graph_cells_num demo_addresses obj_info_def)
  then have "need_redo 1 (newest_redo (tls_redo (crashed_tls THREAD_LOCAL_VEC_START))) (crashed_state k)"
    by (simp add: crashed_log need_redo_def Let_def pack_ref_info_fields)
  moreover have "tls (crashed_state k) = crashed_tls" by (simp add: crashed_state_def)
  moreover have "(graph_cells k)(tbr_area := obj_area) = graph_cells k"
    using fun_upd_triv[of "graph_cells k" tbr_area] by (simp add: graph_cells_num demo_addresses)
  then have "set_cell tbr_area obj_area (crashed_state k) = left_graph k"
    by (simp add: set_cell_def crashed_state_def left_graph_def demo_def)
  ultimately show ?thesis by (simp add: redo_ref_cnt_def Let_def tls_id_at0(1)) (simp add: crashed_log)
qed

lemma demo_crashed: "crashed (demo_graph k) 0 [(0, 2)] [queue_at] [] dead_pages (crashed_state k)"
proof -
  have t: "tls_at 0 = THREAD_LOCAL_VEC_START" by (simp add: tls_at_def)
  have tls: "tls (crashed_state k) = crashed_tls" by (simp add: crashed_state_def)
  have "\<forall>m < MAX_THREAD. m \<noteq> 0 \<longrightarrow> tls_packed_id (tls (crashed_state k) (tls_at m)) = 0"
    using tls_at_inject[of _ 0] by (simp add: tls crashed_tls_def t[symmetric] layout_simps)
  moreover have "tls_packed_id (tls (crashed_state k) (tls_at 0)) \<noteq> 0"
    by (simp add: tls t crashed_tls_def) (simp add: demo_tls_def)
  moreover have "0 < MAX_THREAD" by (simp add: layout_simps)
  ultimately show ?thesis
    using demo_graph_ok demo_on_pages demo_dead_state demo_pages_known demo_placed
    unfolding crashed_def Let_def t crashed_replay by (simp add: all_dead_pages)
qed

lemma demo_left_refs: "left_refs (demo_graph k) [(0, 2)] {queue_at} = table_refs k"
proof -
  have "root_blk (0, 2) 0 \<in> cells_from (0, 2) 0" using cells_from_Suc[of 0 "(0, 2)"] by simp
  then have "tbr_area \<in> root_cells_of [(0, 2)]" by (simp add: root_cells_of_def demo_root_page(2))
  moreover have "x \<notin> root_cells_of [(0, 2)]" "x \<notin> slot_cells queue_at" if "x \<in> table_refs k" for x
    using table_num[OF that] demo_slot_in[of x] cells_from_in[OF demo_root_page(1), of x 0]
    by (auto simp: root_cells_of_def page_bounds)
  ultimately show ?thesis by (auto simp: left_refs_def)
qed


text \<open>With the reference from the hash index the second object keeps segment 0.\<close>

lemma reclaims_exactly_witness:
  "\<exists>s'. single_recovery_loop (crashed_state True) = Some s' \<and> sas_thread_id (sas s' (of_nat 0)) = 1 \<and>
     sas_thread_id (sas s' (of_nat 2)) = 0"
proof -
  let ?g = "demo_graph True" and ?s = "left_graph True"
  have t: "tls_at 0 = THREAD_LOCAL_VEC_START" by (simp add: tls_at_def)
  have refs: "left_refs ?g [(0, 2)] (set [queue_at] \<union> set []) = {HASH_TABLE_START}"
    using demo_left_refs[of True] by (simp add: table_refs_def)
  obtain s' where s': "single_recovery_loop (crashed_state True) = Some s'"
    "\<forall>i < MAX_SEGMENT_NUM. sas_thread_id (sas s' (of_nat i)) =
       (if \<exists>b. reached ?g {HASH_TABLE_START} ?s b \<and> in_segment i b then sas_thread_id (sas ?s (of_nat i)) else 0)"
    using reclaims_exactly[OF demo_crashed[of True]] unfolding refs t crashed_replay by blast
  have "graph_cells True HASH_TABLE_START = obj_two" by (simp add: graph_cells_num layout_simps demo_addresses)
  then have "reached ?g {HASH_TABLE_START} ?s obj_two" using page_blocks_apart[OF area_ok_demo(2)] demo_two(1)
    by (intro reached.outside[of HASH_TABLE_START]) (auto simp: apart_def)
  moreover have "in_page 0 3 obj_two" by (simp add: page_bounds demo_addresses)
  ultimately have zero: "\<exists>b. reached ?g {HASH_TABLE_START} ?s b \<and> in_segment 0 b" using in_page_segment by blast
  have "\<not> in_segment 2 b" if "reached ?g {HASH_TABLE_START} ?s b" for b
  proof -
    have "b \<in> gr_obj ?g" using that by (rule reached_obj[OF demo_graph_ok demo_heap_ok, rotated]) (simp add: table_refs_def)
    then obtain q where q: "in_page (fst q) (snd q) b" "fst q = 0"
      using block_in_page0[OF _ area_ok_demo(2)] by (metis demo_graph_sel(1) demo_seg(1,3) fst_conv snd_conv)
    then show ?thesis using in_segment_unique[OF in_page_segment[OF q(1)], of 2] by auto
  qed
  moreover have "0 < MAX_SEGMENT_NUM" "2 < MAX_SEGMENT_NUM" by (simp_all add: layout_simps)
  moreover have "sas_thread_id (sas ?s (of_nat 0)) = 1" by (simp add: left_graph_def)
  ultimately show ?thesis using s' zero by (metis (no_types, lifting))
qed

section \<open>Single steps of the recovery\<close>

lemma demo_id: "valid_id (tid_of THREAD_LOCAL_VEC_START)"
  unfolding tls_id_at0(1) by (simp add: valid_id_def layout_simps)

lemma demo_reached_two:
  assumes "reached (demo_graph k) E (left_graph k) b" "E \<subseteq> ref_cells (demo_graph k) - {tbr_area}"
  shows "b = obj_two"
  using assms(1)
proof induction
  case (outside r b)
  then have "r \<in> ref_cells (demo_graph k)" "r \<noteq> tbr_area" using assms(2) by auto
  then show ?case using demo_ref_values[of r k] outside(2,3) by (simp split: if_splits)
next
  case (inside c x b)
  then show ?case using demo_two(2) by (simp add: demo_emb)
qed

text \<open>The last reference to the first object goes; the second is still in the queue.\<close>

lemma release_exact_witness:
  "\<exists>s'. recovery_test_free THREAD_LOCAL_VEC_START tbr_area (left_graph False) = Some s' \<and> cell s' tbr_area = 0 \<and>
     obj_cnt obj_area s' = 0 \<and> 0 < obj_cnt obj_two s'"
proof -
  let ?g = "demo_graph False" and ?s = "left_graph False"
  have "tbr_area \<in> gr_ext ?g" "cell ?s tbr_area \<noteq> 0" by (simp_all add: graph_cells_num demo_addresses)
  note r = release_exact[OF demo_id demo_graph_ok demo_heap_ok this]
  then obtain s' where s': "recovery_test_free THREAD_LOCAL_VEC_START tbr_area ?s = Some s'" "cell s' tbr_area = 0"
    "\<forall>b \<in> demo_objs. 0 < obj_cnt b s' \<longleftrightarrow> reached ?g (gr_ext ?g - {tbr_area}) ?s b"
    unfolding demo_graph_sel(1) by blast
  have slot: "mq_slot queue_at 0 \<in> gr_ext ?g - {tbr_area}"
    using demo_first_slot by (simp add: mq_slot_def demo_addresses)
  have "graph_cells False (mq_slot queue_at 0) = obj_two" by (simp add: graph_cells_num mq_slot_def demo_addresses)
  then have "reached ?g (gr_ext ?g - {tbr_area}) ?s obj_two"
    using page_blocks_apart[OF area_ok_demo(2)] demo_two(1) by (intro reached.outside[OF slot]) (auto simp: apart_def)
  moreover have "\<not> reached ?g (gr_ext ?g - {tbr_area}) ?s obj_area"
    using demo_reached_two[of False "gr_ext ?g - {tbr_area}" obj_area] demo_two(2) by (auto simp: ref_cells_def)
  ultimately show ?thesis using s' demo_two(1) demo_obj_member by blast
qed

text \<open>The queue goes; the second object is still embedded in the first.\<close>

lemma dead_queues_released_witness:
  "\<exists>s1 s2. sender_queues (recovery_test_free THREAD_LOCAL_VEC_START) queue_at (left_graph False) = Some s1 \<and>
     receiver_queues (recovery_test_free THREAD_LOCAL_VEC_START) 0 s1 = Some s2 \<and> queue_gone queue_at s2 \<and> 0 < obj_cnt obj_two s2"
proof -
  let ?g = "demo_graph False" and ?s = "left_graph False"
  have "chain (\<lambda>q. cell ?s (mq_sender_next q)) queue_at [queue_at]" "chain (\<lambda>q. cell ?s (mq_receiver_next q)) 0 []"
    by (simp_all add: demo_queue_values) (simp add: demo_addresses)
  from dead_queues_released[OF demo_id demo_graph_ok demo_heap_ok demo_queues_left this]
  obtain s1 s2 where s: "sender_queues (recovery_test_free THREAD_LOCAL_VEC_START) queue_at ?s = Some s1"
    "receiver_queues (recovery_test_free THREAD_LOCAL_VEC_START) 0 s1 = Some s2" "queue_gone queue_at s2"
    "\<forall>b \<in> demo_objs. 0 < obj_cnt b s2 \<longleftrightarrow> reached ?g (gr_ext ?g - slot_cells queue_at) ?s b"
    by auto
  have root: "tbr_area \<in> gr_ext ?g - slot_cells queue_at"
    using demo_slot_in[of tbr_area] demo_refs_in(1) by (auto simp: page_bounds)
  have vals: "graph_cells False tbr_area = obj_area" "graph_cells False (obj_area + 24) = obj_two" "obj_area \<noteq> 0" "obj_two \<noteq> 0"
    by (simp_all add: graph_cells_num demo_addresses)
  have "reached ?g (gr_ext ?g - slot_cells queue_at) ?s obj_area"
    by (rule reached.outside[OF root]) (simp_all add: vals)
  then have "reached ?g (gr_ext ?g - slot_cells queue_at) ?s obj_two"
    by (rule reached.inside[of _ _ _ _ "obj_area + 24"]) (simp_all only: demo_emb vals left_graph_sel, simp_all)
  then show ?thesis using s demo_two(1) by blast
qed

end
