(* ===== verification/Free_Race.thy ===== *)
theory Free_Race
  imports Page_Inv "HOL-Library.Multiset"
begin

text \<open>
  Freeing blocks of another thread, line by line. Any number of threads push blocks on the list of a
  segment while its owner takes the list; every exchange may fail. No block is lost or taken twice, and
  the list the owner walks over is its own. The walk is one step: nobody else can reach the blocks of the
  list once it is detached, nor the owner's pages.
\<close>

section \<open>Steps\<close>

text \<open>
  A freeing thread is at the top of its loop, has loaded the state of the segment, or has linked its
  block to the head it saw. The owner has loaded the state, or walks over the list it took.
\<close>

datatype free_pc = Free_Idle | Free_Load | Free_Write | Free_Swap
datatype take_pc = Take_Idle | Take_Load | Take_Swap | Take_Walk

record free_local =
  fr_pc :: free_pc
  fr_block :: u64
  fr_state :: u64
  fr_head :: u64

record race =
  rc_mem :: shm
  rc_free :: "nat \<Rightarrow> free_local"
  rc_pc :: take_pc
  rc_state :: u64
  rc_head :: u64

text \<open>The history of the run: the blocks on the list, on the list the owner took, freed, and taken.\<close>

record race_run = race +
  rc_list :: "u64 list"
  rc_taking :: "u64 list"
  rc_freed :: "u64 list"
  rc_taken :: "u64 list"

definition set_free :: "nat \<Rightarrow> (free_local \<Rightarrow> free_local) \<Rightarrow> race_run \<Rightarrow> race_run" where
  "set_free t f r = r\<lparr>rc_free := (rc_free r)(t := f (rc_free r t))\<rparr>"

definition seg_word :: "u64 \<Rightarrow> race_run \<Rightarrow> u64 \<times> u64" where
  "seg_word i r = (sas_state (sas (rc_mem r) i), sas_thread_free (sas (rc_mem r) i))"

definition free_load :: "u64 \<Rightarrow> nat \<Rightarrow> race_run \<Rightarrow> race_run" where
  "free_load i t r = set_free t (\<lambda>l. if fst (seg_word i r) = POTENTIAL_LEAKING then l\<lparr>fr_pc := Free_Idle\<rparr>
     else l\<lparr>fr_pc := Free_Write, fr_state := fst (seg_word i r), fr_head := snd (seg_word i r)\<rparr>) r"

definition free_write :: "nat \<Rightarrow> race_run \<Rightarrow> race_run" where
  "free_write t r = set_free t (\<lambda>l. l\<lparr>fr_pc := Free_Swap\<rparr>)
     (r\<lparr>rc_mem := set_cell (fr_block (rc_free r t)) (fr_head (rc_free r t)) (rc_mem r)\<rparr>)"

definition free_swap :: "u64 \<Rightarrow> nat \<Rightarrow> race_run \<Rightarrow> race_run" where
  "free_swap i t r = (let b = fr_block (rc_free r t) in
     set_free t (\<lambda>l. l\<lparr>fr_pc := Free_Idle\<rparr>)
       (r\<lparr>rc_mem := upd_sas i (\<lambda>x. x\<lparr>sas_thread_free := b\<rparr>) (rc_mem r),
          rc_list := b # rc_list r, rc_freed := b # rc_freed r\<rparr>))"

definition take_load :: "u64 \<Rightarrow> race_run \<Rightarrow> race_run" where
  "take_load i r = r\<lparr>rc_pc := Take_Swap, rc_state := fst (seg_word i r), rc_head := snd (seg_word i r)\<rparr>"

definition take_swap :: "u64 \<Rightarrow> race_run \<Rightarrow> race_run" where
  "take_swap i r = r\<lparr>rc_pc := Take_Walk, rc_mem := upd_sas i (\<lambda>x. x\<lparr>sas_thread_free := 0\<rparr>) (rc_mem r),
     rc_list := [], rc_taking := rc_list r\<rparr>"

definition take_walk :: "shm \<Rightarrow> race_run \<Rightarrow> race_run" where
  "take_walk s r = r\<lparr>rc_pc := Take_Idle, rc_mem := s, rc_taking := [], rc_taken := rc_taking r @ rc_taken r\<rparr>"

text \<open>Blocks on their way back to a page.\<close>

definition in_transit :: "race_run \<Rightarrow> u64 set" where
  "in_transit r = set (rc_list r) \<union> set (rc_taking r) \<union> {fr_block (rc_free r t) | t. fr_pc (rc_free r t) \<noteq> Free_Idle}"

text \<open>
  \<open>others\<close>: whatever else the threads and the monitor do, they leave the first cell of a block in
  transit and the list of the segment alone; the state of the segment may change.
\<close>

inductive race_step :: "u64 \<Rightarrow> race_run \<Rightarrow> race_run \<Rightarrow> bool" for i where
  start: "fr_pc (rc_free r t) = Free_Idle \<Longrightarrow> b \<noteq> 0 \<Longrightarrow> b \<notin> in_transit r \<Longrightarrow>
    race_step i r (set_free t (\<lambda>l. l\<lparr>fr_pc := Free_Load, fr_block := b\<rparr>) r)"
| load: "fr_pc (rc_free r t) = Free_Load \<Longrightarrow> race_step i r (free_load i t r)"
| link: "fr_pc (rc_free r t) = Free_Write \<Longrightarrow> race_step i r (free_write t r)"
| swap: "fr_pc (rc_free r t) = Free_Swap \<Longrightarrow> seg_word i r = (fr_state (rc_free r t), fr_head (rc_free r t)) \<Longrightarrow>
    race_step i r (free_swap i t r)"
| retry: "fr_pc (rc_free r t) = Free_Swap \<Longrightarrow> race_step i r (set_free t (\<lambda>l. l\<lparr>fr_pc := Free_Load\<rparr>) r)"
| test: "rc_pc r = Take_Idle \<Longrightarrow> snd (seg_word i r) \<noteq> 0 \<Longrightarrow> race_step i r (r\<lparr>rc_pc := Take_Load\<rparr>)"
| take: "rc_pc r = Take_Load \<Longrightarrow> race_step i r (take_load i r)"
| detach: "rc_pc r = Take_Swap \<Longrightarrow> seg_word i r = (rc_state r, rc_head r) \<Longrightarrow> race_step i r (take_swap i r)"
| again: "rc_pc r = Take_Swap \<Longrightarrow> race_step i r (r\<lparr>rc_pc := Take_Load\<rparr>)"
| walk: "rc_pc r = Take_Walk \<Longrightarrow> thread_free_loop (get_block_by_offset (rc_head r)) (rc_mem r) = Some s \<Longrightarrow>
    race_step i r (take_walk s r)"
| others: "sas_thread_free (sas s i) = sas_thread_free (sas (rc_mem r) i) \<Longrightarrow>
    \<forall>b \<in> in_transit r. cell s b = cell (rc_mem r) b \<Longrightarrow> race_step i r (r\<lparr>rc_mem := s\<rparr>)"

definition race_start :: "u64 \<Rightarrow> race_run \<Rightarrow> bool" where
  "race_start i r \<longleftrightarrow> sas_thread_free (sas (rc_mem r) i) = 0 \<and> (\<forall>t. fr_pc (rc_free r t) = Free_Idle) \<and>
     rc_pc r = Take_Idle \<and> rc_list r = [] \<and> rc_taking r = [] \<and> rc_freed r = [] \<and> rc_taken r = []"

inductive race_reach :: "u64 \<Rightarrow> race_run \<Rightarrow> bool" for i where
  first: "race_start i r \<Longrightarrow> race_reach i r"
| more: "race_reach i r \<Longrightarrow> race_step i r r' \<Longrightarrow> race_reach i r'"

section \<open>The invariant\<close>

abbreviation busy :: "race_run \<Rightarrow> nat \<Rightarrow> bool" where "busy r t \<equiv> fr_pc (rc_free r t) \<noteq> Free_Idle"

text \<open>A block that is being freed is on no list and belongs to one thread.\<close>

definition blocks_apart :: "race_run \<Rightarrow> bool" where
  "blocks_apart r \<longleftrightarrow> distinct (rc_list r @ rc_taking r) \<and>
     (\<forall>t. busy r t \<longrightarrow> fr_block (rc_free r t) \<noteq> 0 \<and> fr_block (rc_free r t) \<notin> set (rc_list r) \<union> set (rc_taking r)) \<and>
     (\<forall>t u. t \<noteq> u \<longrightarrow> busy r t \<longrightarrow> busy r u \<longrightarrow> fr_block (rc_free r t) \<noteq> fr_block (rc_free r u))"

definition race_inv :: "u64 \<Rightarrow> race_run \<Rightarrow> bool" where
  "race_inv i r \<longleftrightarrow> blocks_apart r \<and>
     chain (cell (rc_mem r)) (sas_thread_free (sas (rc_mem r) i)) (rc_list r) \<and>
     (if rc_pc r = Take_Walk then chain (cell (rc_mem r)) (rc_head r) (rc_taking r) else rc_taking r = []) \<and>
     (\<forall>t. fr_pc (rc_free r t) = Free_Swap \<longrightarrow> cell (rc_mem r) (fr_block (rc_free r t)) = fr_head (rc_free r t)) \<and>
     mset (rc_freed r) = mset (rc_list r) + mset (rc_taking r) + mset (rc_taken r)"

lemma set_free_sel [simp]:
  "rc_free (set_free t f r) u = (if u = t then f (rc_free r t) else rc_free r u)"
  "rc_mem (set_free t f r) = rc_mem r" "rc_pc (set_free t f r) = rc_pc r" "rc_head (set_free t f r) = rc_head r"
  "rc_list (set_free t f r) = rc_list r" "rc_taking (set_free t f r) = rc_taking r"
  "rc_freed (set_free t f r) = rc_freed r" "rc_taken (set_free t f r) = rc_taken r"
  by (simp_all add: set_free_def)

lemma race_invD:
  assumes "race_inv i r"
  shows "blocks_apart r" "chain (cell (rc_mem r)) (sas_thread_free (sas (rc_mem r) i)) (rc_list r)"
    "rc_pc r = Take_Walk \<Longrightarrow> chain (cell (rc_mem r)) (rc_head r) (rc_taking r)" "rc_pc r \<noteq> Take_Walk \<Longrightarrow> rc_taking r = []"
    "fr_pc (rc_free r t) = Free_Swap \<Longrightarrow> cell (rc_mem r) (fr_block (rc_free r t)) = fr_head (rc_free r t)"
    "mset (rc_freed r) = mset (rc_list r) + mset (rc_taking r) + mset (rc_taken r)"
  using assms by (simp_all add: race_inv_def)

text \<open>The phase of a freeing thread may change as long as its block stays the same.\<close>

lemma race_inv_local:
  assumes "race_inv i r" "busy r t" "fr_block (f (rc_free r t)) = fr_block (rc_free r t)"
    "fr_pc (f (rc_free r t)) \<noteq> Free_Swap"
  shows "race_inv i (set_free t f r)"
  using assms by (auto simp: race_inv_def blocks_apart_def split: if_splits)

lemma race_inv_owner:
  assumes "race_inv i r" "rc_pc r \<noteq> Take_Walk" "pc \<noteq> Take_Walk"
  shows "race_inv i (r\<lparr>rc_pc := pc\<rparr>)" "race_inv i (r\<lparr>rc_pc := pc, rc_state := x, rc_head := h\<rparr>)"
  using assms by (simp_all add: race_inv_def blocks_apart_def)

text \<open>A block on its way is on one of the lists or belongs to a thread.\<close>

lemma in_transitI:
  "b \<in> set (rc_list r) \<Longrightarrow> b \<in> in_transit r" "b \<in> set (rc_taking r) \<Longrightarrow> b \<in> in_transit r"
  "busy r t \<Longrightarrow> fr_block (rc_free r t) \<in> in_transit r"
  by (auto simp: in_transit_def)

lemma chain_keep:
  assumes "chain (cell s) a xs" "\<And>x. x \<in> set xs \<Longrightarrow> cell s' x = cell s x"
  shows "chain (cell s') a xs"
  using assms chain_cong[of xs "cell s" "cell s'" a] by simp

lemma race_inv_mem:
  assumes inv: "race_inv i r" and "sas_thread_free (sas s i) = sas_thread_free (sas (rc_mem r) i)"
    and cells: "\<And>b. b \<in> in_transit r \<Longrightarrow> cell s b = cell (rc_mem r) b"
  shows "race_inv i (r\<lparr>rc_mem := s\<rparr>)"
proof -
  note d = race_invD[OF inv]
  have "chain (cell s) (sas_thread_free (sas s i)) (rc_list r)"
    unfolding assms(2) by (rule chain_keep[OF d(2)]) (simp add: cells in_transitI)
  moreover have "chain (cell s) (rc_head r) (rc_taking r)" if "rc_pc r = Take_Walk"
    by (rule chain_keep[OF d(3)[OF that]]) (simp add: cells in_transitI)
  moreover have "cell s (fr_block (rc_free r t)) = fr_head (rc_free r t)" if "fr_pc (rc_free r t) = Free_Swap" for t
    using d(5)[OF that] cells[OF in_transitI(3)[of r t]] that by simp
  ultimately show ?thesis using d(1,4,6) by (simp add: race_inv_def blocks_apart_def)
qed

lemma free_write_inv:
  assumes inv: "race_inv i r" and t: "fr_pc (rc_free r t) = Free_Write"
  shows "race_inv i (free_write t r)"
proof -
  note d = race_invD[OF inv]
  let ?b = "fr_block (rc_free r t)"
  have b: "?b \<notin> set (rc_list r)" "?b \<notin> set (rc_taking r)" using d(1) t by (auto simp: blocks_apart_def)
  have other: "fr_block (rc_free r u) \<noteq> ?b" if "u \<noteq> t" "fr_pc (rc_free r u) = Free_Swap" for u
    using d(1) t that by (auto simp: blocks_apart_def)
  have "blocks_apart (free_write t r)" using d(1) t by (auto simp: blocks_apart_def free_write_def split: if_splits)
  then show ?thesis using d(2-6) b other by (auto simp: race_inv_def free_write_def state_simps)
qed

lemma free_swap_inv:
  assumes inv: "race_inv i r" and t: "fr_pc (rc_free r t) = Free_Swap"
    and seen: "seg_word i r = (fr_state (rc_free r t), fr_head (rc_free r t))"
  shows "race_inv i (free_swap i t r)"
proof -
  note d = race_invD[OF inv]
  let ?b = "fr_block (rc_free r t)"
  have b: "?b \<noteq> 0" "?b \<notin> set (rc_list r)" "?b \<notin> set (rc_taking r)" using d(1) t by (auto simp: blocks_apart_def)
  have "cell (rc_mem r) ?b = sas_thread_free (sas (rc_mem r) i)" using d(5)[OF t] seen by (simp add: seg_word_def)
  moreover have "blocks_apart (free_swap i t r)"
    using d(1) t b by (auto simp: blocks_apart_def free_swap_def Let_def split: if_splits)
  ultimately show ?thesis using d(2-6) b(1) by (auto simp: race_inv_def free_swap_def Let_def state_simps)
qed

lemma take_swap_inv:
  assumes inv: "race_inv i r" and pc: "rc_pc r = Take_Swap" and seen: "seg_word i r = (rc_state r, rc_head r)"
  shows "race_inv i (take_swap i r)"
proof -
  note d = race_invD[OF inv]
  have "rc_taking r = []" using d(4) pc by simp
  moreover have "rc_head r = sas_thread_free (sas (rc_mem r) i)" using seen by (simp add: seg_word_def)
  ultimately show ?thesis
    using d(1,2,5,6) by (simp add: race_inv_def take_swap_def blocks_apart_def state_simps)
qed

lemma take_walk_inv:
  assumes inv: "race_inv i r" and pc: "rc_pc r = Take_Walk"
    and run: "thread_free_loop (get_block_by_offset (rc_head r)) (rc_mem r) = Some s"
  shows "race_inv i (take_walk s r)"
proof -
  note d = race_invD[OF inv]
  obtain s' where s': "thread_free_loop (get_block_by_offset (rc_head r)) (rc_mem r) = Some s'"
    "\<forall>b. b \<notin> set (rc_taking r) \<longrightarrow> cell s' b = cell (rc_mem r) b" "sas s' = sas (rc_mem r)"
    using thread_free_loop_spec[OF d(3)[OF pc]] by blast
  have same: "cell s b = cell (rc_mem r) b" if "b \<notin> set (rc_taking r)" for b using s'(1,2) run that by simp
  have apart: "set (rc_list r) \<inter> set (rc_taking r) = {}" using d(1) by (auto simp: blocks_apart_def)
  have "chain (cell s) (sas_thread_free (sas s i)) (rc_list r)"
  proof -
    have "sas s = sas (rc_mem r)" using s'(1,3) run by simp
    moreover have "cell s x = cell (rc_mem r) x" if "x \<in> set (rc_list r)" for x using same apart that by blast
    ultimately show ?thesis using chain_keep[OF d(2), of s] by metis
  qed
  moreover have "cell s (fr_block (rc_free r t)) = fr_head (rc_free r t)" if "fr_pc (rc_free r t) = Free_Swap" for t
    using d(1) d(5)[OF that] same[of "fr_block (rc_free r t)"] that by (simp add: blocks_apart_def)
  ultimately show ?thesis
    using d(1,6) by (simp add: race_inv_def take_walk_def blocks_apart_def)
qed

lemma race_inv_step:
  assumes inv: "race_inv i r" and step: "race_step i r r'"
  shows "race_inv i r'"
  using step
proof cases
  case (start t b)
  then show ?thesis using inv by (auto simp: race_inv_def blocks_apart_def in_transit_def split: if_splits)
next
  case (load t)
  have "race_inv i (set_free t (\<lambda>l. l\<lparr>fr_pc := Free_Idle\<rparr>) r)"
    "race_inv i (set_free t (\<lambda>l. l\<lparr>fr_pc := Free_Write, fr_state := x, fr_head := h\<rparr>) r)" for x h
    by (rule race_inv_local[OF inv]; simp add: load(2))+
  then show ?thesis by (simp add: load(1) free_load_def split: if_splits) (simp add: set_free_def)
next
  case (link t)
  then show ?thesis using free_write_inv[OF inv] by simp
next
  case (swap t)
  then show ?thesis using free_swap_inv[OF inv] by simp
next
  case (retry t)
  then show ?thesis using race_inv_local[OF inv] by simp
next
  case test
  then show ?thesis using race_inv_owner(1)[OF inv] by simp
next
  case take
  then show ?thesis using race_inv_owner(2)[OF inv] by (simp add: take_load_def)
next
  case detach
  then show ?thesis using take_swap_inv[OF inv] by simp
next
  case again
  then show ?thesis using race_inv_owner(1)[OF inv] by simp
next
  case (walk s)
  then show ?thesis using take_walk_inv[OF inv] by simp
next
  case (others s)
  then show ?thesis using race_inv_mem[OF inv] by simp
qed

lemma race_reach_inv: "race_reach i r \<Longrightarrow> race_inv i r"
proof (induction rule: race_reach.induct)
  case (first r)
  then show ?case by (simp add: race_inv_def race_start_def blocks_apart_def)
next
  case (more r r')
  then show ?case using race_inv_step by blast
qed

section \<open>Undisturbed runs\<close>

text \<open>Without interference the steps of a thread are the sequential operations.\<close>

lemma free_alone:
  assumes "sas_state (sas (rc_mem r) i) \<noteq> POTENTIAL_LEAKING"
  shows "rc_mem (free_swap i t (free_write t (free_load i t r))) = remote_free i (fr_block (rc_free r t)) (rc_mem r)"
  using assms by (simp add: free_swap_def free_write_def free_load_def remote_free_def seg_word_def Let_def)

lemma take_alone:
  assumes "sas_thread_free (sas (rc_mem r) (segment_index (cxl_ptr_segment pg))) \<noteq> 0"
  defines "r' \<equiv> take_swap (segment_index (cxl_ptr_segment pg)) (take_load (segment_index (cxl_ptr_segment pg)) r)"
  shows "thread_free_loop (get_block_by_offset (rc_head r')) (rc_mem r') = cxl_thread_free_collect pg (rc_mem r)"
  using assms(1) by (simp add: r'_def take_swap_def take_load_def seg_word_def cxl_thread_free_collect_def Let_def)

section \<open>Nothing is lost\<close>

text \<open>
  C4: Under any interleaving of threads that free blocks of a segment and the owner that collects them,
  every block whose free succeeded is on the list, on the list the owner took, or was collected, exactly
  once; and the owner's walk returns and lowers the count of each page by the number of its blocks.
\<close>

lemma frees_collected:
  assumes "race_reach i r"
  shows "mset (rc_freed r) = mset (rc_list r) + mset (rc_taking r) + mset (rc_taken r) \<and>
    distinct (rc_list r @ rc_taking r) \<and> chain (cell (rc_mem r)) (sas_thread_free (sas (rc_mem r) i)) (rc_list r) \<and>
    (rc_pc r = Take_Walk \<longrightarrow> (\<exists>s. thread_free_loop (get_block_by_offset (rc_head r)) (rc_mem r) = Some s \<and>
       (\<forall>p. pg_used (page s p) = pg_used (page (rc_mem r) p) -
          of_nat (length (filter (\<lambda>b. cxl_ptr_page b = p) (rc_taking r))))))"
proof -
  have inv: "race_inv i r" by (rule race_reach_inv[OF assms])
  note d = race_invD[OF inv]
  have "\<exists>s. thread_free_loop (get_block_by_offset (rc_head r)) (rc_mem r) = Some s \<and>
    (\<forall>p. pg_used (page s p) = pg_used (page (rc_mem r) p) - of_nat (length (filter (\<lambda>b. cxl_ptr_page b = p) (rc_taking r))))"
    if pc: "rc_pc r = Take_Walk"
  proof -
    obtain s where s: "thread_free_loop (get_block_by_offset (rc_head r)) (rc_mem r) = Some s"
      "\<forall>p. page s p = (page (rc_mem r) p)\<lparr>pg_local_free := pg_local_free (page s p),
         pg_used := pg_used (page (rc_mem r) p) - of_nat (length (filter (\<lambda>b. cxl_ptr_page b = p) (rc_taking r)))\<rparr>"
      using thread_free_loop_spec[OF d(3)[OF pc]] by blast
    have "pg_used (page s p) = pg_used (page (rc_mem r) p) - of_nat (length (filter (\<lambda>b. cxl_ptr_page b = p) (rc_taking r)))" for p
      by (subst s(2)[rule_format]) simp
    then show ?thesis using s(1) by blast
  qed
  moreover have "distinct (rc_list r @ rc_taking r)" using d(1) by (simp only: blocks_apart_def)
  ultimately show ?thesis using d(2,6) by blast
qed

end
