(* ===== verification/Queue_Race.thy ===== *)
theory Queue_Race
  imports Msg_Transfer
begin

text \<open>
  One sender and one receiver on a message queue, line by line and interleaved with each other and with
  everything else that happens in the region: the receiver takes the references in the order in which
  they were sent, each once.
\<close>

section \<open>Steps\<close>

datatype send_pc = Send_Idle | Send_Link | Send_Publish
datatype recv_pc = Recv_Idle | Recv_Test | Recv_Root | Recv_Link | Recv_Unlink | Recv_Next

record queue_run =
  qr_mem :: shm
  qr_send :: send_pc
  qr_off :: u64
  qr_recv :: recv_pc
  qr_tbr :: u64
  qr_got :: u64
  qr_sent :: "u64 list"
  qr_received :: "u64 list"

text \<open>The cells that \<open>q->buffer[q->end]\<close> and \<open>q->buffer[q->start]\<close> are; \<open>qr_got\<close> and the two lists are history.\<close>

abbreviation tail_slot :: "u64 \<Rightarrow> shm \<Rightarrow> u64" where "tail_slot q s \<equiv> mq_slot q (cell s (mq_end q))"
abbreviation head_slot :: "u64 \<Rightarrow> shm \<Rightarrow> u64" where "head_slot q s \<equiv> mq_slot q (cell s (mq_start q))"

definition send_link :: "client \<Rightarrow> u64 \<Rightarrow> queue_run \<Rightarrow> queue_run" where
  "send_link c q r = r\<lparr>qr_mem := link_reference c (tail_slot q (qr_mem r)) (qr_off r) (qr_mem r), qr_send := Send_Publish\<rparr>"

definition send_publish :: "u64 \<Rightarrow> queue_run \<Rightarrow> queue_run" where
  "send_publish q r = r\<lparr>qr_mem := set_cell (mq_end q) ((cell (qr_mem r) (mq_end q) + 1) mod MESSAGE_BUFFER_SIZE) (qr_mem r),
     qr_send := Send_Idle, qr_sent := qr_sent r @ [qr_off r]\<rparr>"

definition recv_empty :: "u64 \<Rightarrow> shm \<Rightarrow> bool" where
  "recv_empty q s \<longleftrightarrow> cell s (mq_start q) = cell s (mq_end q) \<or> cell s (head_slot q s) = 0"

definition recv_link :: "client \<Rightarrow> u64 \<Rightarrow> queue_run \<Rightarrow> queue_run" where
  "recv_link d q r = (let b = cell (qr_mem r) (head_slot q (qr_mem r)) in
     r\<lparr>qr_mem := incr_tbr (qr_tbr r) (link_reference d (qr_tbr r) b (qr_mem r)), qr_recv := Recv_Unlink, qr_got := b\<rparr>)"

definition recv_next :: "u64 \<Rightarrow> queue_run \<Rightarrow> queue_run" where
  "recv_next q r = r\<lparr>qr_mem := set_cell (mq_start q) ((cell (qr_mem r) (mq_start q) + 1) mod MESSAGE_BUFFER_SIZE) (qr_mem r),
     qr_recv := Recv_Idle, qr_received := qr_received r @ [qr_got r]\<rparr>"

definition same_queue :: "u64 \<Rightarrow> shm \<Rightarrow> shm \<Rightarrow> bool" where
  "same_queue q s s' \<longleftrightarrow> (\<forall>x \<in> mq_cells q. cell s' x = cell s x)"

text \<open>
  Sender \<open>c\<close>, receiver \<open>d\<close>. The allocation of a root reference hands out cells that are not the queue's
  and leaves the queue alone, as does \<open>others\<close>. The receiver has linked the object before it unlinks the
  slot, so that the count is at least 2.
\<close>

inductive queue_step :: "client \<Rightarrow> client \<Rightarrow> u64 \<Rightarrow> u64 set \<Rightarrow> queue_run \<Rightarrow> queue_run \<Rightarrow> bool" for c d q Obj where
  send: "qr_send r = Send_Idle \<Longrightarrow> b \<in> Obj \<Longrightarrow> \<not> mq_full q (qr_mem r) \<Longrightarrow>
    queue_step c d q Obj r (r\<lparr>qr_send := Send_Link, qr_off := b\<rparr>)"
| link: "qr_send r = Send_Link \<Longrightarrow> queue_step c d q Obj r (send_link c q r)"
| publish: "qr_send r = Send_Publish \<Longrightarrow> queue_step c d q Obj r (send_publish q r)"
| receive: "qr_recv r = Recv_Idle \<Longrightarrow>
    queue_step c d q Obj r (r\<lparr>qr_mem := register_receiver d q (qr_mem r), qr_recv := Recv_Test\<rparr>)"
| none: "qr_recv r = Recv_Test \<Longrightarrow> recv_empty q (qr_mem r) \<Longrightarrow> queue_step c d q Obj r (r\<lparr>qr_recv := Recv_Idle\<rparr>)"
| some: "qr_recv r = Recv_Test \<Longrightarrow> \<not> recv_empty q (qr_mem r) \<Longrightarrow> queue_step c d q Obj r (r\<lparr>qr_recv := Recv_Root\<rparr>)"
| root: "qr_recv r = Recv_Root \<Longrightarrow> thread_base_ref_alloc d (qr_mem r) = Some (Some t, s) \<Longrightarrow> same_queue q (qr_mem r) s \<Longrightarrow>
    {t, t + 8} \<inter> mq_cells q = {} \<Longrightarrow> queue_step c d q Obj r (r\<lparr>qr_mem := s, qr_recv := Recv_Link, qr_tbr := t\<rparr>)"
| take: "qr_recv r = Recv_Link \<Longrightarrow> queue_step c d q Obj r (recv_link d q r)"
| unlink: "qr_recv r = Recv_Unlink \<Longrightarrow> b = cell (qr_mem r) (head_slot q (qr_mem r)) \<Longrightarrow> 1 < obj_cnt b (qr_mem r) \<Longrightarrow>
    unlink_reference d (head_slot q (qr_mem r)) b (qr_mem r) = Some s \<Longrightarrow>
    queue_step c d q Obj r (r\<lparr>qr_mem := s, qr_recv := Recv_Next\<rparr>)"
| advance: "qr_recv r = Recv_Next \<Longrightarrow> queue_step c d q Obj r (recv_next q r)"
| others: "same_queue q (qr_mem r) s \<Longrightarrow> queue_step c d q Obj r (r\<lparr>qr_mem := s\<rparr>)"

inductive queue_reach :: "client \<Rightarrow> client \<Rightarrow> u64 \<Rightarrow> u64 set \<Rightarrow> queue_run \<Rightarrow> bool" for c d q Obj where
  empty: "mq_ok q (qr_mem r) \<Longrightarrow> mq_pending q (qr_mem r) = [] \<Longrightarrow> qr_send r = Send_Idle \<Longrightarrow> qr_recv r = Recv_Idle \<Longrightarrow>
    qr_sent r = [] \<Longrightarrow> qr_received r = [] \<Longrightarrow> queue_reach c d q Obj r"
| step: "queue_reach c d q Obj r \<Longrightarrow> queue_step c d q Obj r r' \<Longrightarrow> queue_reach c d q Obj r'"

section \<open>The invariant\<close>

text \<open>The objects that may be sent: their count lies outside the queue.\<close>

definition sendable :: "u64 \<Rightarrow> u64 set \<Rightarrow> bool" where
  "sendable q Obj \<longleftrightarrow> (\<forall>b \<in> Obj. b \<noteq> 0 \<and> obj_info b \<notin> mq_cells q)"

text \<open>What was sent and has not been received: the pending references, with the one the receiver emptied.\<close>

definition in_flight :: "u64 \<Rightarrow> queue_run \<Rightarrow> u64 list" where
  "in_flight q r = (if qr_recv r = Recv_Next then qr_got r # tl (mq_pending q (qr_mem r)) else mq_pending q (qr_mem r))"

definition queue_inv :: "u64 \<Rightarrow> u64 set \<Rightarrow> queue_run \<Rightarrow> bool" where
  "queue_inv q Obj r \<longleftrightarrow> mq_ok q (qr_mem r) \<and> qr_sent r = qr_received r @ in_flight q r \<and> set (in_flight q r) \<subseteq> Obj \<and>
     (qr_recv r \<in> {Recv_Root, Recv_Link, Recv_Unlink, Recv_Next} \<longrightarrow> mq_pending q (qr_mem r) \<noteq> []) \<and>
     (qr_recv r = Recv_Unlink \<longrightarrow> hd (mq_pending q (qr_mem r)) = qr_got r) \<and>
     (qr_recv r \<in> {Recv_Link} \<longrightarrow> {qr_tbr r, qr_tbr r + 8} \<inter> mq_cells q = {}) \<and>
     (qr_send r \<noteq> Send_Idle \<longrightarrow> length (mq_pending q (qr_mem r)) \<noteq> 15 \<and> qr_off r \<in> Obj) \<and>
     (qr_send r = Send_Publish \<longrightarrow> cell (qr_mem r) (tail_slot q (qr_mem r)) = qr_off r)"

text \<open>Only the cells of the ring matter.\<close>

definition same_ring :: "u64 \<Rightarrow> shm \<Rightarrow> shm \<Rightarrow> bool" where
  "same_ring q s s' \<longleftrightarrow> cell s' (mq_start q) = cell s (mq_start q) \<and> cell s' (mq_end q) = cell s (mq_end q) \<and>
     (\<forall>i < 16. cell s' (mq_slot q (of_nat i)) = cell s (mq_slot q (of_nat i)))"

lemma same_queue_ring: "same_queue q s s' \<Longrightarrow> same_ring q s s'"
  using mq_cells_mem by (simp add: same_queue_def same_ring_def)

lemma same_ringD:
  assumes "same_ring q s s'"
  shows "mq_ok q s' = mq_ok q s" "mq_pending q s' = mq_pending q s"
    "mq_ok q s \<Longrightarrow> cell s' (tail_slot q s') = cell s (tail_slot q s)"
proof -
  have e: "cell s' (mq_start q) = cell s (mq_start q)" "cell s' (mq_end q) = cell s (mq_end q)"
    and slot: "\<And>i. i < 16 \<Longrightarrow> cell s' (mq_slot q (of_nat i)) = cell s (mq_slot q (of_nat i))"
    using assms by (simp_all add: same_ring_def)
  show "mq_ok q s' = mq_ok q s" by (rule mq_ok_cong[OF e])
  show "mq_pending q s' = mq_pending q s" by (rule mq_pending_cong[OF e slot])
  show "cell s' (tail_slot q s') = cell s (tail_slot q s)" if "mq_ok q s"
    using slot[of "unat (cell s (mq_end q))"] that by (simp add: e mq_ok_def)
qed

lemma queue_inv_mem:
  assumes "queue_inv q Obj r" "same_ring q (qr_mem r) s"
  shows "queue_inv q Obj (r\<lparr>qr_mem := s\<rparr>)"
proof -
  have "mq_ok q (qr_mem r)" using assms(1) by (simp add: queue_inv_def)
  note e = same_ringD(1,2)[OF assms(2)] same_ringD(3)[OF assms(2) this]
  show ?thesis using assms(1) by (cases "qr_recv r = Recv_Next") (simp_all add: queue_inv_def in_flight_def e)
qed

section \<open>Each step keeps it\<close>

lemma queue_invD:
  assumes "queue_inv q Obj r"
  shows "mq_ok q (qr_mem r)" "qr_sent r = qr_received r @ in_flight q r" "set (in_flight q r) \<subseteq> Obj"
    "qr_recv r \<in> {Recv_Root, Recv_Link, Recv_Unlink, Recv_Next} \<Longrightarrow> mq_pending q (qr_mem r) \<noteq> []"
    "qr_recv r = Recv_Unlink \<Longrightarrow> hd (mq_pending q (qr_mem r)) = qr_got r"
    "qr_send r \<noteq> Send_Idle \<Longrightarrow> length (mq_pending q (qr_mem r)) \<noteq> 15 \<and> qr_off r \<in> Obj"
    "qr_send r = Send_Publish \<Longrightarrow> cell (qr_mem r) (tail_slot q (qr_mem r)) = qr_off r"
  using assms by (simp_all add: queue_inv_def)

lemma tail_write:
  assumes ok: "mq_ok q s" and e: "cell s' (mq_start q) = cell s (mq_start q)" "cell s' (mq_end q) = cell s (mq_end q)"
    and slots: "\<And>i. i < 16 \<Longrightarrow> i \<noteq> unat (cell s (mq_end q)) \<Longrightarrow> cell s' (mq_slot q (of_nat i)) = cell s (mq_slot q (of_nat i))"
  shows "mq_pending q s' = mq_pending q s"
  unfolding mq_pending_def e
proof (rule ring_list_cong)
  let ?h = "unat (cell s (mq_start q))" and ?t = "unat (cell s (mq_end q))"
  fix j assume j: "j < ring_len 16 ?h ?t"
  have "(?h + j) mod 16 \<noteq> ?t" using ok by (intro ring_not_tail[OF _ _ j]) (simp_all add: mq_ok_def)
  then show "cell s' (mq_slot q (of_nat ((?h + j) mod 16))) = cell s (mq_slot q (of_nat ((?h + j) mod 16)))"
    by (intro slots) simp_all
qed

lemma send_link_inv:
  assumes inv: "queue_inv q Obj r" and Obj: "sendable q Obj" and pc: "qr_send r = Send_Link"
  shows "queue_inv q Obj (send_link c q r)"
proof -
  let ?s = "qr_mem r" and ?b = "qr_off r"
  note d = queue_invD[OF inv]
  have b: "obj_info ?b \<notin> mq_cells q" using d(6) pc Obj by (simp add: sendable_def)
  obtain n where n: "n < 16" "cell ?s (mq_end q) = of_nat n" "unat (cell ?s (mq_end q)) = n"
    using d(1) that[of "unat (cell ?s (mq_end q))"] by (simp add: mq_ok_def)
  let ?s' = "link_reference c (mq_slot q (of_nat n)) ?b ?s"
  have cell: "cell ?s' x = (if x = mq_slot q (of_nat n) then ?b else cell ?s x)" if "x \<in> mq_cells q" for x
    using that b by (auto simp: link_reference_sel)
  have e: "cell ?s' (mq_start q) = cell ?s (mq_start q)" "cell ?s' (mq_end q) = cell ?s (mq_end q)"
    using cell mq_cells_mem(1,2) mq_distinct(8,9)[OF n(1), of q] by auto
  have "cell ?s' (mq_slot q (of_nat i)) = (if i = n then ?b else cell ?s (mq_slot q (of_nat i)))" if "i < 16" for i
    using cell[OF mq_cells_mem(5)[OF that]] mq_distinct(12)[OF that n(1)] by simp
  then have "mq_pending q ?s' = mq_pending q ?s" "cell ?s' (mq_slot q (of_nat n)) = ?b"
    using tail_write[OF d(1) e] n(1,3) by simp_all
  then show ?thesis
    using inv pc e mq_ok_cong[OF e]
    by (cases "qr_recv r = Recv_Next") (simp_all add: queue_inv_def in_flight_def send_link_def n(2))
qed

lemma send_publish_inv:
  assumes inv: "queue_inv q Obj r" and pc: "qr_send r = Send_Publish"
  shows "queue_inv q Obj (send_publish q r)"
proof -
  let ?s = "qr_mem r"
  let ?s' = "set_cell (mq_end q) ((cell ?s (mq_end q) + 1) mod MESSAGE_BUFFER_SIZE) ?s"
  note d = queue_invD[OF inv]
  have b: "qr_off r \<in> Obj" "length (mq_pending q ?s) \<noteq> 15" using d(6) pc by simp_all
  have "mq_ok q ?s' \<and> mq_pending q ?s' = mq_pending q ?s @ [qr_off r]"
  proof (rule mq_put[OF d(1) b(2)])
    fix i :: nat assume i: "i < 16"
    then show "cell ?s' (mq_slot q (of_nat i)) = (if i = unat (cell ?s (mq_end q)) then qr_off r else cell ?s (mq_slot q (of_nat i)))"
      using d(7)[OF pc] mq_distinct(9)[OF i, of q] by (auto simp: state_simps)
  qed (simp_all add: state_simps mq_distinct)
  moreover have "mq_pending q ?s \<noteq> []" if "qr_recv r \<in> {Recv_Root, Recv_Link, Recv_Unlink, Recv_Next}" by (rule d(4)[OF that])
  ultimately show ?thesis
    using inv pc b(1) by (cases "qr_recv r") (simp_all add: queue_inv_def in_flight_def send_publish_def)
qed

lemma head_pending:
  assumes "mq_ok q s" "mq_pending q s \<noteq> []"
  shows "cell s (head_slot q s) = hd (mq_pending q s)" "cell s (mq_start q) \<noteq> cell s (mq_end q)"
  using mq_head[OF assms(1), of "hd (mq_pending q s)" "tl (mq_pending q s)"] assms(2) by simp_all

lemma recv_link_inv:
  assumes inv: "queue_inv q Obj r" and Obj: "sendable q Obj" and pc: "qr_recv r = Recv_Link"
  shows "queue_inv q Obj (recv_link d q r)"
proof -
  let ?s = "qr_mem r" and ?t = "qr_tbr r" and ?b = "hd (mq_pending q (qr_mem r))"
  note i = queue_invD[OF inv]
  have ne: "mq_pending q ?s \<noteq> []" using i(4) pc by simp
  then have "?b \<in> Obj" using i(3) pc by (cases "mq_pending q ?s") (simp_all add: in_flight_def)
  then have b: "obj_info ?b \<notin> mq_cells q" using Obj by (simp add: sendable_def)
  have t: "?t \<notin> mq_cells q" "?t + 8 \<notin> mq_cells q" using inv pc by (simp_all add: queue_inv_def)
  let ?s' = "incr_tbr ?t (link_reference d ?t ?b ?s)"
  have "same_queue q ?s ?s'" using b t by (auto simp: same_queue_def incr_tbr_def state_simps link_reference_sel)
  note e = same_ringD(1,2)[OF same_queue_ring[OF this]] same_ringD(3)[OF same_queue_ring[OF this] i(1)]
  show ?thesis
    using inv pc by (simp add: queue_inv_def in_flight_def recv_link_def Let_def head_pending(1)[OF i(1) ne] e)
qed

lemma unlink_commit_queue:
  "x \<noteq> obj_info b \<Longrightarrow> cell (unlink_commit d ref b s) x = (if x = ref then 0 else cell s x)"
  by (simp add: unlink_commit_def Let_def state_simps)

lemma head_write:
  assumes ok: "mq_ok q s" and ne: "mq_pending q s \<noteq> []"
    and e: "cell s' (mq_start q) = cell s (mq_start q)" "cell s' (mq_end q) = cell s (mq_end q)"
    and slots: "\<And>i. i < 16 \<Longrightarrow> cell s' (mq_slot q (of_nat i)) =
      (if i = unat (cell s (mq_start q)) then x else cell s (mq_slot q (of_nat i)))"
  shows "mq_pending q s' = x # tl (mq_pending q s)"
proof -
  let ?h = "unat (cell s (mq_start q))" and ?t = "unat (cell s (mq_end q))"
  let ?slot = "\<lambda>i. cell s (mq_slot q (of_nat i))"
  have b: "?h < 16" "?t < 16" using ok by (simp_all add: mq_ok_def)
  have ht: "?h \<noteq> ?t" using head_pending(2)[OF ok ne] word_unat_eq_iff by blast
  have "mq_pending q s' = ring_list 16 ?h ?t (?slot(?h := x))"
    unfolding mq_pending_def e by (rule ring_list_cong) (simp add: slots)
  also have "\<dots> = x # ring_list 16 ((?h + 1) mod 16) ?t (?slot(?h := x))"
    using ring_take[OF b ht, of "?slot(?h := x)" x] by simp
  also have "ring_list 16 ((?h + 1) mod 16) ?t (?slot(?h := x)) = tl (mq_pending q s)"
    unfolding mq_pending_def using ring_take[OF b ht, of ?slot x] by simp
  finally show ?thesis .
qed

lemma recv_unlink_inv:
  assumes inv: "queue_inv q Obj r" and Obj: "sendable q Obj" and pc: "qr_recv r = Recv_Unlink"
    and b: "b = cell (qr_mem r) (head_slot q (qr_mem r))" "1 < obj_cnt b (qr_mem r)"
    and run: "unlink_reference d (head_slot q (qr_mem r)) b (qr_mem r) = Some s"
  shows "queue_inv q Obj (r\<lparr>qr_mem := s, qr_recv := Recv_Next\<rparr>)"
proof -
  let ?s = "qr_mem r"
  note i = queue_invD[OF inv]
  have ne: "mq_pending q ?s \<noteq> []" using i(4) pc by simp
  obtain n where n: "n < 16" "cell ?s (mq_start q) = of_nat n" "unat (cell ?s (mq_start q)) = n"
    using i(1) that[of "unat (cell ?s (mq_start q))"] by (simp add: mq_ok_def)
  have hd: "b = hd (mq_pending q ?s)" "b = qr_got r" using head_pending(1)[OF i(1) ne] b(1) i(5)[OF pc] by simp_all
  then have "b \<in> Obj" using i(3) pc ne by (cases "mq_pending q ?s") (simp_all add: in_flight_def)
  then have off: "obj_info b \<notin> mq_cells q" using Obj by (simp add: sendable_def)
  have s: "s = unlink_commit d (mq_slot q (of_nat n)) b ?s" using run unlink_reference_cases[of b ?s] b(2) by (simp add: n(2))
  have cell: "cell s x = (if x = mq_slot q (of_nat n) then 0 else cell ?s x)" if "x \<in> mq_cells q" for x
    unfolding s using that off by (intro unlink_commit_queue) auto
  have e: "cell s (mq_start q) = cell ?s (mq_start q)" "cell s (mq_end q) = cell ?s (mq_end q)"
    using cell mq_cells_mem(1,2) mq_distinct(8,9)[OF n(1), of q] by auto
  have slot: "cell s (mq_slot q (of_nat i)) = (if i = n then 0 else cell ?s (mq_slot q (of_nat i)))" if "i < 16" for i
    using cell[OF mq_cells_mem(5)[OF that]] mq_distinct(12)[OF that n(1)] by simp
  have pend: "mq_pending q s = 0 # tl (mq_pending q ?s)" by (rule head_write[OF i(1) ne e]) (simp add: slot n(3))
  have "cell s (tail_slot q s) = cell ?s (tail_slot q ?s)"
  proof -
    have t: "unat (cell ?s (mq_end q)) < 16" using i(1) by (simp add: mq_ok_def)
    have "unat (cell ?s (mq_end q)) \<noteq> n" using head_pending(2)[OF i(1) ne] n(2,3) by auto
    then show ?thesis using slot[OF t] by (simp add: e)
  qed
  moreover have "mq_pending q ?s = b # tl (mq_pending q ?s)" using hd(1) ne by simp
  moreover have "mq_ok q s" using mq_ok_cong[OF e] i(1) by simp
  ultimately show ?thesis
    using inv pc pend hd(2) by (auto simp: queue_inv_def in_flight_def)
qed

lemma recv_next_inv:
  assumes inv: "queue_inv q Obj r" and pc: "qr_recv r = Recv_Next"
  shows "queue_inv q Obj (recv_next q r)"
proof -
  let ?s = "qr_mem r"
  let ?s' = "set_cell (mq_start q) ((cell ?s (mq_start q) + 1) mod MESSAGE_BUFFER_SIZE) ?s"
  note i = queue_invD[OF inv]
  have ne: "mq_pending q ?s \<noteq> []" using i(4) pc by simp
  then have "mq_pending q ?s = hd (mq_pending q ?s) # tl (mq_pending q ?s)" by simp
  then have "mq_ok q ?s' \<and> mq_pending q ?s' = tl (mq_pending q ?s)"
    by (rule mq_take[OF i(1)]) (simp_all add: state_simps mq_distinct)
  moreover have "cell ?s' (tail_slot q ?s') = cell ?s (tail_slot q ?s)"
    using i(1) mq_distinct(8)[of "unat (cell ?s (mq_end q))" q] mq_distinct(2)[of q] by (simp add: state_simps mq_ok_def)
  moreover have "length (mq_pending q ?s) < 16"
    using i(1) ring_len_bound[of _ 16] by (simp add: mq_pending_def mq_ok_def)
  ultimately show ?thesis
    using inv pc ne by (auto simp: queue_inv_def in_flight_def recv_next_def)
qed

lemma queue_inv_pc:
  assumes "queue_inv q Obj r" "qr_recv r \<in> {Recv_Idle, Recv_Test}"
  shows "queue_inv q Obj (r\<lparr>qr_recv := Recv_Idle\<rparr>)" "queue_inv q Obj (r\<lparr>qr_recv := Recv_Test\<rparr>)"
    "mq_pending q (qr_mem r) \<noteq> [] \<Longrightarrow> queue_inv q Obj (r\<lparr>qr_recv := Recv_Root\<rparr>)"
proof -
  have "qr_recv r \<noteq> Recv_Next" using assms(2) by auto
  with assms(1) show "queue_inv q Obj (r\<lparr>qr_recv := Recv_Idle\<rparr>)" "queue_inv q Obj (r\<lparr>qr_recv := Recv_Test\<rparr>)"
    "mq_pending q (qr_mem r) \<noteq> [] \<Longrightarrow> queue_inv q Obj (r\<lparr>qr_recv := Recv_Root\<rparr>)"
    by (simp_all add: queue_inv_def in_flight_def)
qed

lemma queue_inv_step:
  assumes inv: "queue_inv q Obj r" and Obj: "sendable q Obj" and step: "queue_step c d q Obj r r'"
  shows "queue_inv q Obj r'"
  using step
proof cases
  case (send b)
  have "mq_ok q (qr_mem r)" by (rule queue_invD(1)[OF inv])
  then have "length (mq_pending q (qr_mem r)) \<noteq> 15" using send(4) mq_full_iff by blast
  then show ?thesis
    using inv send(1-3) by (cases "qr_recv r = Recv_Next") (simp_all add: queue_inv_def in_flight_def)
next
  case link
  then show ?thesis using send_link_inv[OF inv Obj] by simp
next
  case publish
  then show ?thesis using send_publish_inv[OF inv] by simp
next
  case receive
  have "cell (register_receiver d q (qr_mem r)) x = cell (qr_mem r) x" if "x \<notin> {mq_receiver_next q, mq_ids q}" for x
    by (rule register_receiver_sel(6)[OF that])
  then have "same_ring q (qr_mem r) (register_receiver d q (qr_mem r))"
    unfolding same_ring_def using mq_distinct(3-6)[of q] mq_distinct(10,11)[of _ q] by simp
  from queue_inv_mem[OF inv this] show ?thesis
    using receive queue_inv_pc(2)[of q Obj "r\<lparr>qr_mem := register_receiver d q (qr_mem r)\<rparr>"] by simp
next
  case none
  then show ?thesis using queue_inv_pc(1)[OF inv] by simp
next
  case some
  have "mq_pending q (qr_mem r) \<noteq> []"
    using some(3) ring_list_empty[of _ 16] queue_invD(1)[OF inv]
    by (auto simp: recv_empty_def mq_pending_def mq_ok_def word_unat_eq_iff)
  then show ?thesis using queue_inv_pc(3)[OF inv] some by simp
next
  case (root t s)
  have "mq_pending q (qr_mem r) \<noteq> []" using queue_invD(4)[OF inv] root(2) by simp
  moreover have "queue_inv q Obj (r\<lparr>qr_mem := s\<rparr>)" by (rule queue_inv_mem[OF inv same_queue_ring[OF root(4)]])
  ultimately show ?thesis using root by (auto simp: queue_inv_def in_flight_def)
next
  case take
  then show ?thesis using recv_link_inv[OF inv Obj] by simp
next
  case (unlink b s)
  then show ?thesis using recv_unlink_inv[OF inv Obj] by simp
next
  case advance
  then show ?thesis using recv_next_inv[OF inv] by simp
next
  case (others s)
  then show ?thesis using queue_inv_mem[OF inv same_queue_ring] by simp
qed

lemma queue_reach_inv:
  assumes "queue_reach c d q Obj r" "sendable q Obj"
  shows "queue_inv q Obj r"
  using assms(1)
proof induction
  case (empty r)
  then show ?case by (simp add: queue_inv_def in_flight_def)
next
  case (step r r')
  then show ?case using queue_inv_step[OF _ assms(2)] by blast
qed

section \<open>Undisturbed runs\<close>

lemma send_alone:
  assumes "get_tbr h = Some t" "\<not> mq_full q (qr_mem r)" "qr_off r = cell (qr_mem r) t"
  shows "sent_to c q h (qr_mem r) = Some (True, qr_mem (send_publish q (send_link c q r)))"
  using assms by (simp add: sent_to_def send_publish_def send_link_def Let_def)

lemma receive_alone:
  assumes s: "s = register_receiver d q (qr_mem r)" and "\<not> recv_empty q s" "thread_base_ref_alloc d s = Some (Some t, s1)"
    and m: "m = qr_mem (recv_link d q (r\<lparr>qr_mem := s1, qr_tbr := t\<rparr>))"
    and "unlink_reference d (head_slot q m) (cell m (head_slot q m)) m = Some s2"
  shows "cxl_unwrap d q (qr_mem r) = (let s' = qr_mem (recv_next q (r\<lparr>qr_mem := s2\<rparr>))
    in Some (\<lparr>ref_tbr = t, ref_data = cell s' t + sizeof_CXLObj\<rparr>, s'))"
proof -
  have m': "m = incr_tbr t (link_reference d t (cell s1 (head_slot q s1)) s1)" by (simp add: m recv_link_def Let_def)
  have "\<not> (cell s (mq_start q) = cell s (mq_end q) \<or> cell s (head_slot q s) = 0)" using assms(2) by (simp add: recv_empty_def)
  then show ?thesis
    using assms(3,5) by (simp add: cxl_unwrap_def s[symmetric] m'[symmetric] recv_next_def Let_def)
qed

section \<open>First in, first out\<close>

text \<open>
  C5: Under any interleaving of the sender and the receiver of a queue, the references received are
  those sent, in the same order, up to the at most 15 that are on their way; and the reference the
  receiver is about to link is the next one that was sent. (The object of a slot that is being
  unlinked is held by the root reference the receiver has just linked, so its count is above 1.)
\<close>

lemma queue_fifo:
  assumes "queue_reach c d q Obj r" "sendable q Obj"
  shows "\<exists>rest. qr_sent r = qr_received r @ rest \<and> length rest \<le> 15 \<and> set rest \<subseteq> Obj \<and>
    (qr_recv r = Recv_Link \<longrightarrow> rest \<noteq> [] \<and> cell (qr_mem r) (head_slot q (qr_mem r)) = hd rest)"
proof -
  note i = queue_invD[OF queue_reach_inv[OF assms]]
  have "length (mq_pending q (qr_mem r)) \<le> 15"
    using i(1) ring_len_bound[of "unat (cell (qr_mem r) (mq_start q))" 16 "unat (cell (qr_mem r) (mq_end q))"]
    by (simp add: mq_pending_def mq_ok_def)
  moreover have "mq_pending q (qr_mem r) \<noteq> []" if "qr_recv r = Recv_Next \<or> qr_recv r = Recv_Link" using i(4) that by auto
  ultimately have "length (in_flight q r) \<le> 15" "qr_recv r = Recv_Link \<longrightarrow> in_flight q r \<noteq> [] \<and>
      cell (qr_mem r) (head_slot q (qr_mem r)) = hd (in_flight q r)"
    using head_pending(1)[OF i(1)] by (auto simp: in_flight_def)
  then show ?thesis using i(2,3) by blast
qed

end
