(* ===== verification/Race_Instance.thy ===== *)
theory Race_Instance
  imports Leak_Instance Free_Race Queue_Race
begin

text \<open>
  Concrete runs of the two interleavings: a thread frees a block that the owner of the segment then
  takes, and a reference travels through a queue while the receiver is already looking at it.
\<close>

section \<open>A block freed by another thread\<close>

definition free_run :: race_run where
  "free_run = \<lparr>rc_mem = demo_empty, rc_free = (\<lambda>_. \<lparr>fr_pc = Free_Idle, fr_block = 0, fr_state = 0, fr_head = 0\<rparr>),
     rc_pc = Take_Idle, rc_state = 0, rc_head = 0, rc_list = [], rc_taking = [], rc_freed = [], rc_taken = []\<rparr>"

definition free_run_started :: race_run where
  "free_run_started = set_free 7 (\<lambda>l. l\<lparr>fr_pc := Free_Load, fr_block := obj_area\<rparr>) free_run"

definition free_run_pushed :: race_run where
  "free_run_pushed = free_swap 0 7 (free_write 7 (free_load 0 7 free_run_started))"

definition free_run_taken :: race_run where
  "free_run_taken = take_swap 0 (take_load 0 (free_run_pushed\<lparr>rc_pc := Take_Load\<rparr>))"

lemmas race_simps = free_load_def free_write_def free_swap_def take_load_def take_swap_def seg_word_def Let_def
  set_free_def state_simps

lemma free_run_pushed_reach: "race_reach 0 free_run_pushed"
proof -
  have "race_start 0 free_run" by (simp add: race_start_def free_run_def)
  then have "race_reach 0 free_run" by (rule race_reach.first)
  moreover have "race_step 0 free_run free_run_started"
    unfolding free_run_started_def by (rule race_step.start) (simp_all add: free_run_def in_transit_def)
  ultimately have "race_reach 0 free_run_started" by (rule race_reach.more)
  moreover have "race_step 0 free_run_started (free_load 0 7 free_run_started)"
    by (rule race_step.load) (simp add: free_run_started_def)
  ultimately have "race_reach 0 (free_load 0 7 free_run_started)" by (rule race_reach.more)
  moreover have "race_step 0 (free_load 0 7 free_run_started) (free_write 7 (free_load 0 7 free_run_started))"
    by (rule race_step.link) (simp add: free_run_started_def free_run_def race_simps NORMAL_def POTENTIAL_LEAKING_def)
  ultimately have "race_reach 0 (free_write 7 (free_load 0 7 free_run_started))" by (rule race_reach.more)
  moreover have "race_step 0 (free_write 7 (free_load 0 7 free_run_started)) free_run_pushed"
    unfolding free_run_pushed_def
    by (rule race_step.swap) (simp_all add: free_run_started_def free_run_def race_simps NORMAL_def POTENTIAL_LEAKING_def)
  ultimately show ?thesis by (rule race_reach.more)
qed

lemma free_run_taken_reach: "race_reach 0 free_run_taken"
proof -
  let ?r = "free_run_pushed\<lparr>rc_pc := Take_Load\<rparr>"
  have head: "snd (seg_word 0 free_run_pushed) = obj_area" "rc_pc free_run_pushed = Take_Idle"
    by (simp_all add: free_run_pushed_def free_run_started_def free_run_def race_simps)
  then have "race_step 0 free_run_pushed ?r" by (intro race_step.test) simp_all
  with free_run_pushed_reach have "race_reach 0 ?r" by (rule race_reach.more)
  moreover have "race_step 0 ?r (take_load 0 ?r)" by (rule race_step.take) simp
  ultimately have "race_reach 0 (take_load 0 ?r)" by (rule race_reach.more)
  moreover have "race_step 0 (take_load 0 ?r) free_run_taken"
    unfolding free_run_taken_def by (rule race_step.detach) (simp_all add: take_load_def seg_word_def)
  ultimately show ?thesis by (rule race_reach.more)
qed

lemma free_run_taken_sel:
  "rc_pc free_run_taken = Take_Walk" "rc_taking free_run_taken = [obj_area]" "rc_freed free_run_taken = [obj_area]"
  "rc_list free_run_taken = []" "rc_taken free_run_taken = []"
  "page (rc_mem free_run_taken) = page demo_empty"
  by (simp_all add: free_run_taken_def free_run_pushed_def free_run_started_def free_run_def race_simps)

lemma frees_collected_witness:
  "race_reach 0 free_run_taken \<and> rc_taking free_run_taken = [obj_area] \<and>
   (\<exists>s. thread_free_loop (get_block_by_offset (rc_head free_run_taken)) (rc_mem free_run_taken) = Some s \<and>
      pg_used (page s obj_page) = 63)"
proof -
  have "in_page 0 3 obj_area" by (simp add: in_page_def)
  then have p: "cxl_ptr_page obj_area = obj_page" by (rule cxl_ptr_page_in)
  obtain s where s: "thread_free_loop (get_block_by_offset (rc_head free_run_taken)) (rc_mem free_run_taken) = Some s"
    "pg_used (page s obj_page) = pg_used (page (rc_mem free_run_taken) obj_page) -
       of_nat (length (filter (\<lambda>b. cxl_ptr_page b = obj_page) (rc_taking free_run_taken)))"
    using frees_collected[OF free_run_taken_reach] free_run_taken_sel(1) by blast
  have "pg_used (page s obj_page) = 63" by (simp add: s(2) free_run_taken_sel p demo_page_def)
  then show ?thesis using free_run_taken_reach free_run_taken_sel(2) s(1) by blast
qed

section \<open>A reference on its way\<close>

text \<open>Thread 1 sends to itself; the receiver looks at the queue after the slot is linked, before the tail moves.\<close>

abbreviation "demo_queue_mem \<equiv> demo (demo_page tbr_area 0 16 4095) (demo_page 0 0 1024 64) (demo_cells 0 0 0 0)"

definition queue_run_start :: queue_run where
  "queue_run_start = \<lparr>qr_mem = demo_queue_mem, qr_send = Send_Idle, qr_off = 0, qr_recv = Recv_Idle, qr_tbr = 0, qr_got = 0,
     qr_sent = [], qr_received = []\<rparr>"

definition queue_run_sending :: queue_run where
  "queue_run_sending = queue_run_start\<lparr>qr_send := Send_Link, qr_off := obj_area\<rparr>"

definition queue_run_looking :: queue_run where
  "queue_run_looking = (let r = send_link demo_client queue_at queue_run_sending in
     r\<lparr>qr_mem := register_receiver demo_client queue_at (qr_mem r), qr_recv := Recv_Test\<rparr>)"

definition queue_run_sent :: queue_run where
  "queue_run_sent = send_publish queue_at queue_run_looking"

abbreviation "queue_run_found \<equiv> queue_run_sent\<lparr>qr_recv := Recv_Root\<rparr>"

definition queue_run_rooted :: queue_run where
  "queue_run_rooted = queue_run_found\<lparr>qr_mem := block_to_tbr tbr_area tbr_page (qr_mem queue_run_found),
     qr_recv := Recv_Link, qr_tbr := tbr_area\<rparr>"

lemma queue_run_looking_reach: "queue_reach demo_client demo_client queue_at {obj_area} queue_run_looking"
proof -
  let ?reach = "queue_reach demo_client demo_client queue_at {obj_area}"
  let ?step = "queue_step demo_client demo_client queue_at {obj_area}"
  let ?linked = "send_link demo_client queue_at queue_run_sending"
  have "?reach queue_run_start"
    by (rule queue_reach.empty)
       (simp_all add: queue_run_start_def mq_ok_def mq_pending_def demo_cells_at ring_list_def ring_len_def)
  moreover have "?step queue_run_start queue_run_sending"
    unfolding queue_run_sending_def
    by (rule queue_step.send) (simp_all add: queue_run_start_def mq_full_def demo_cells_at layout_simps)
  ultimately have "?reach queue_run_sending" by (rule queue_reach.step)
  moreover have "?step queue_run_sending ?linked" by (rule queue_step.link) (simp add: queue_run_sending_def)
  ultimately have "?reach ?linked" by (rule queue_reach.step)
  moreover have "?step ?linked queue_run_looking"
    unfolding queue_run_looking_def Let_def
    by (rule queue_step.receive) (simp add: send_link_def queue_run_sending_def queue_run_start_def)
  ultimately show ?thesis by (rule queue_reach.step)
qed

lemma queue_run_looking_mem:
  "cell (qr_mem queue_run_looking) (mq_start queue_at) = 0" "cell (qr_mem queue_run_looking) (mq_end queue_at) = 0"
  "cell (qr_mem queue_run_looking) (mq_slot queue_at 0) = obj_area" "cell (qr_mem queue_run_looking) tbr_area = 0"
  "page (qr_mem queue_run_looking) = page demo_queue_mem" "get_pq pq (qr_mem queue_run_looking) = get_pq pq demo_queue_mem"
  by (simp_all add: queue_run_looking_def send_link_def queue_run_sending_def queue_run_start_def Let_def
      register_receiver_sel link_reference_sel demo_cells_def mq_slot_def mq_start_def mq_end_def mq_ids_def
      mq_receiver_next_def demo_addresses obj_info_def)

lemma queue_run_looking_sel:
  "qr_send queue_run_looking = Send_Publish" "qr_recv queue_run_looking = Recv_Test"
  "qr_off queue_run_looking = obj_area" "qr_sent queue_run_looking = []" "qr_received queue_run_looking = []"
  by (simp_all add: queue_run_looking_def send_link_def queue_run_sending_def queue_run_start_def Let_def)

lemma queue_run_sent_mem:
  "cell (qr_mem queue_run_sent) = (cell (qr_mem queue_run_looking))(mq_end queue_at := 1)"
  "page (qr_mem queue_run_sent) = page demo_queue_mem" "get_pq pq (qr_mem queue_run_sent) = get_pq pq demo_queue_mem"
  "qr_sent queue_run_sent = [obj_area]" "qr_received queue_run_sent = []" "qr_recv queue_run_sent = Recv_Test"
  by (simp_all add: queue_run_sent_def send_publish_def queue_run_looking_mem queue_run_looking_sel state_simps layout_simps)

lemma queue_run_rooted_reach: "queue_reach demo_client demo_client queue_at {obj_area} queue_run_rooted"
proof -
  let ?reach = "queue_reach demo_client demo_client queue_at {obj_area}"
  let ?step = "queue_step demo_client demo_client queue_at {obj_area}"
  let ?s = "qr_mem queue_run_sent"
  have "?step queue_run_looking queue_run_sent"
    unfolding queue_run_sent_def by (rule queue_step.publish) (simp add: queue_run_looking_sel)
  with queue_run_looking_reach have "?reach queue_run_sent" by (rule queue_reach.step)
  moreover have "?step queue_run_sent queue_run_found"
  proof (rule queue_step.some)
    have "cell ?s (mq_start queue_at) = 0" "cell ?s (mq_end queue_at) = 1" "cell ?s (mq_slot queue_at 0) = obj_area"
      using mq_distinct(9)[of 0 queue_at] by (simp_all add: queue_run_sent_mem queue_run_looking_mem mq_distinct)
    then show "\<not> recv_empty queue_at (qr_mem queue_run_sent)" by (simp add: recv_empty_def)
  qed (simp add: queue_run_sent_mem)
  ultimately have "?reach queue_run_found" by (rule queue_reach.step)
  moreover have "?step queue_run_found queue_run_rooted"
    unfolding queue_run_rooted_def
  proof (rule queue_step.root)
    have "tbr_area \<noteq> mq_end queue_at" by (simp add: mq_end_def demo_addresses)
    then have "cell ?s tbr_area = 0" by (simp add: queue_run_sent_mem queue_run_looking_mem)
    then have inv: "page_inv 0 2 16 [tbr_area] [] ?s"
      using demo_tbr_inv(1)[of "demo_cells 0 0 0 0"] by (simp add: page_inv_def queue_run_sent_mem demo_cells_at)
    have front: "queue_front (cl_tls_offset demo_client, Bin 0) 0 2 ?s"
      using demo_front(1) by (simp add: queue_front_def queue_run_sent_mem)
    show "thread_base_ref_alloc demo_client (qr_mem queue_run_found) =
        Some (Some tbr_area, block_to_tbr tbr_area tbr_page (qr_mem queue_run_found))"
      using thread_base_ref_alloc_hit[OF inv front] by simp
    show "same_queue queue_at (qr_mem queue_run_found) (block_to_tbr tbr_area tbr_page (qr_mem queue_run_found))"
      using take_block_to_tbr_frame[OF inv] demo_queue_apart(1) by (simp add: same_queue_def)
    show "{tbr_area, tbr_area + 8} \<inter> mq_cells queue_at = {}"
      using demo_queue_apart(1)[of tbr_area] demo_queue_apart(1)[of "tbr_area + 8"]
      by (auto simp: in_page_def unat_area_at unat_seg_at demo_addresses)
  qed simp
  ultimately show ?thesis by (rule queue_reach.step)
qed

lemma queue_fifo_witness:
  "queue_reach demo_client demo_client queue_at {obj_area} queue_run_rooted \<and> qr_sent queue_run_rooted = [obj_area] \<and>
   cell (qr_mem queue_run_rooted) (head_slot queue_at (qr_mem queue_run_rooted)) = obj_area"
proof -
  have "sendable queue_at {obj_area}" using demo_obj_apart by (simp add: sendable_def)
  from queue_fifo[OF queue_run_rooted_reach this]
  obtain rest where "qr_sent queue_run_rooted = qr_received queue_run_rooted @ rest"
    "qr_recv queue_run_rooted = Recv_Link \<longrightarrow>
      rest \<noteq> [] \<and> cell (qr_mem queue_run_rooted) (head_slot queue_at (qr_mem queue_run_rooted)) = hd rest" by blast
  then have "cell (qr_mem queue_run_rooted) (head_slot queue_at (qr_mem queue_run_rooted)) = obj_area"
    by (auto simp: queue_run_rooted_def queue_run_sent_mem)
  then show ?thesis using queue_run_rooted_reach by (simp add: queue_run_rooted_def queue_run_sent_mem)
qed

end
