(* ===== verification/Stale_Block.thy ===== *)
theory Stale_Block
  imports Sweep
begin

text \<open>
  What a page holds before it is initialised: \<open>cxl_page_init\<close> clears \<open>sizeof(block_size)\<close> bytes of a block
  of root references or message queues, which is the cell with the link of the free list, and nothing of
  the last block. The rest of a block keeps what an earlier owner of the page wrote.
\<close>

section \<open>Cells that the initialisation keeps\<close>

lemma page_init_loop_keeps:
  assumes ok: "area_ok area bs" and "j \<le> n" "n < block_cnt bs"
    and "page_init_loop True bs (blk area bs n) (blk area bs j) s = Some s'" "\<forall>m < n. x \<noteq> blk area bs m"
  shows "cell s' x = cell s x"
  using assms(2-)
proof (induction j arbitrary: s rule: inc_induct)
  case base
  then show ?case by (simp add: page_init_loop.simps[of True bs "blk area bs n" "blk area bs n"])
next
  case (step m)
  let ?b = "blk area bs m" and ?l = "blk area bs n"
  have bs: "0 < unat bs" using ok by (auto simp: area_ok_def)
  have "m * unat bs < n * unat bs" using step.hyps bs by simp
  then have "?b < ?l" using step.hyps step.prems(1) by (simp add: word_less_nat_alt unat_blk[OF ok])
  then have "page_init_loop True bs ?l (blk area bs (Suc m)) (set_cell ?b (blk area bs (Suc m)) (clear_cells ?b 1 s)) = Some s'"
    using step.prems(2) by (subst (asm) page_init_loop.simps) (simp add: Let_def blk_Suc)
  from step.IH[OF step.prems(1) this step.prems(3)] show ?case
    using step.prems(3) step.hyps(2) by (simp add: state_simps cell_clear_cells)
qed

lemma page_init_keeps:
  assumes "i < MAX_SEGMENT_NUM" "k < PAGES_PER_SEGMENT" "area_ok (area_at (seg_at i) k) bs"
    and run: "cxl_page_init True (meta_at (seg_at i) k) bs s = Some s'"
    and x: "x \<notin> set (page_blocks (area_at (seg_at i) k) bs)"
  shows "cell s' x = cell s x"
proof -
  let ?p = "meta_at (seg_at i) k" and ?a = "area_at (seg_at i) k"
  let ?n = "block_cnt bs - 1"
  have area: "cxl_page_start (cxl_ptr_segment ?p) ?p = ?a"
    using assms(1,2) by (simp add: cxl_ptr_segment_in[OF in_segment_meta] cxl_page_start_meta)
  have n: "?n < block_cnt bs" using block_cnt_pos[OF assms(3)] by simp
  have bs0: "bs \<noteq> 0" using assms(3) by (auto simp: area_ok_def)
  have start: "cxl_page_block_at ?a bs 0 = blk ?a bs 0" by (simp add: cxl_page_block_at_def blk_def)
  have ne: "x \<noteq> blk ?a bs m" if "m < block_cnt bs" for m using x that by (auto simp: page_blocks_def)
  define s0 where "s0 = s\<lparr>page := (page s)(?p := (fresh_page ?a bs)\<lparr>pg_free := pg_free (page s ?p)\<rparr>)\<rparr>"
  have "page s ?p\<lparr>pg_local_free := 0, pg_block_size := ucast bs, pg_used := 0, pg_next := 0, pg_prev := 0,
      pg_is_msg_queue := False\<rparr> = (fresh_page ?a bs)\<lparr>pg_free := pg_free (page s ?p)\<rparr>"
    by (cases "page s ?p") (simp add: fresh_page_def)
  then have "cxl_page_init True ?p bs s = do {
      s1 \<leftarrow> page_init_loop True bs (blk ?a bs ?n) (blk ?a bs 0) s0;
      Some (upd_page ?p (\<lambda>p. p\<lparr>pg_free := blk ?a bs 0\<rparr>) (set_cell (blk ?a bs ?n) (pg_free (page s1 ?p)) s1)) }"
    unfolding cxl_page_init_def Let_def area start last_block_eq[OF assms(3)] using bs0
    by (simp add: upd_page_def s0_def)
  then obtain s1 where s1: "page_init_loop True bs (blk ?a bs ?n) (blk ?a bs 0) s0 = Some s1"
    "s' = upd_page ?p (\<lambda>p. p\<lparr>pg_free := blk ?a bs 0\<rparr>) (set_cell (blk ?a bs ?n) (pg_free (page s1 ?p)) s1)"
    using run by (cases "page_init_loop True bs (blk ?a bs ?n) (blk ?a bs 0) s0") auto
  have "cell s0 = cell s" by (simp add: s0_def)
  moreover have "cell s1 x = cell s0 x" by (rule page_init_loop_keeps[OF assms(3) le0 n s1(1)]) (use ne in auto)
  ultimately show ?thesis using ne[OF n] by (simp add: s1(2) state_simps)
qed

section \<open>Message queues that never were\<close>

lemma block_offset_not_block:
  assumes ok: "area_ok a bs" and b: "b \<in> set (page_blocks a bs)" and d: "0 < d" "d < unat bs"
  shows "b + of_nat d \<notin> set (page_blocks a bs)"
  using block_offset_ne[OF b _ ok] assms by blast

text \<open>
  C13: A page of message queues that was carved from memory in which the word where a queue has its ids
  names a sender: as long as nobody makes a queue of that block, no number of rounds of the monitor with
  no thread registered gives the page's segment back, if it was claimed when the rounds began. The sweep
  takes the old word for the ids of a queue, although the page has no block in use.
\<close>

lemma stale_queue_kept:
  assumes p: "i < MAX_SEGMENT_NUM" "k < PAGES_PER_SEGMENT"
    and free: "pg_free (page s (meta_at (seg_at i) k)) = 0"
    and run: "cxl_page_init True (meta_at (seg_at i) k) sizeof_msg_queue s = Some s1"
    and q: "q = blk (area_at (seg_at i) k) sizeof_msg_queue j" "j < block_cnt sizeof_msg_queue"
    and stale: "get_sender_id (cell s (mq_ids q)) \<noteq> 0"
    and later: "pg_block_size (page t (meta_at (seg_at i) k)) = pg_block_size (page s1 (meta_at (seg_at i) k))"
      "pg_is_msg_queue (page t (meta_at (seg_at i) k))" "cell t (mq_ids q) = cell s1 (mq_ids q)"
    and idle: "idle_system t"
  shows "pg_used (page s1 (meta_at (seg_at i) k)) = 0 \<and>
    (\<exists>t'. recovery_loop n t = Some t' \<and> sas t' (of_nat i) = sas t (of_nat i))"
proof -
  let ?p = "meta_at (seg_at i) k" and ?a = "area_at (seg_at i) k" and ?bs = "sizeof_msg_queue"
  have ok: "area_ok ?a ?bs" using p by (intro area_ok_area_at) (simp_all add: layout_simps)
  have b: "q \<in> set (page_blocks ?a ?bs)" using q by (simp add: page_blocks_def)
  have "mq_ids q \<notin> set (page_blocks ?a ?bs)"
    using block_offset_not_block[OF ok b, of 16] by (simp add: mq_ids_def layout_simps)
  then have "cell t (mq_ids q) = cell s (mq_ids q)" using page_init_keeps[OF p ok run] later(3) by simp
  then have used: "queue_used q t" using stale by (simp add: queue_used_def)
  obtain s' where "cxl_page_init True ?p ?bs s = Some s'" "page s' = (page s)(?p := fresh_page ?a ?bs)"
    using cxl_page_init_spec[OF p ok _ free, of True] by blast
  then have pg: "page s1 ?p = fresh_page ?a ?bs" using run by simp
  have bs: "page_bs i k t = ?bs" by (simp add: page_bs_def later(1) pg fresh_page_def layout_simps)
  have "page_used i k t"
    unfolding page_used_def blocks_of_def bs
    using b used later(2) by (intro conjI bexI[of _ q]) (simp_all add: later(1) pg fresh_page_def layout_simps)
  then have "segment_used i t" using p(2) unfolding segment_used_def by blast
  then have "\<exists>t'. recovery_loop n t = Some t' \<and> sas t' (of_nat i) = sas t (of_nat i)"
    using used_segment_stays[OF idle, of n] p(1) by blast
  then show ?thesis by (simp add: pg fresh_page_def)
qed

end
