(* ===== verification/Orderly_Exit.thy ===== *)
theory Orderly_Exit
  imports Dead_Roots Stale_Block
begin

text \<open>
  The orderly exit of a thread whose objects others still hold or own. The walk over a page of root
  references reads the mark \<open>in_use\<close> of every block it meets, and marks of blocks that were never
  allocated are not initialised; the walk is right because such blocks lie behind all the others and the
  walk ends with the last block in use.
\<close>

section \<open>Pages of root references\<close>

text \<open>
  Blocks below \<open>n\<close> were allocated at least once: their marks say whether they are in use. The blocks
  from \<open>n\<close> on are the free list, as long as there are any.
\<close>

definition root_inv :: "page_no \<Rightarrow> nat \<Rightarrow> u64 list \<Rightarrow> u64 list \<Rightarrow> shm \<Rightarrow> bool" where
  "root_inv p n fs ls s \<longleftrightarrow> page_inv (fst p) (snd p) 16 fs ls s \<and> n \<le> block_cnt 16 \<and>
     (n < block_cnt 16 \<longrightarrow> fs = map (root_blk p) [n..<block_cnt 16]) \<and>
     (\<forall>j < n. get_in_use (cell s (root_blk p j + 8)) = (if root_blk p j \<in> set fs \<union> set ls then 0 else 1))"

abbreviation live_roots :: "page_no \<Rightarrow> u64 list \<Rightarrow> u64 list \<Rightarrow> u64 set" where
  "live_roots p fs ls \<equiv> live_blocks (fst p) (snd p) 16 fs ls"

lemma root_invD:
  assumes "root_inv p n fs ls s"
  shows "page_inv (fst p) (snd p) 16 fs ls s" "valid_page p" "n \<le> block_cnt 16"
    "n < block_cnt 16 \<Longrightarrow> fs = map (root_blk p) [n..<block_cnt 16]"
    "j < n \<Longrightarrow> get_in_use (cell s (root_blk p j + 8)) = (if root_blk p j \<in> set fs \<union> set ls then 0 else 1)"
    "distinct (fs @ ls)"
  using assms page_inv_facts[of "fst p" "snd p" 16 fs ls s] by (simp_all add: root_inv_def valid_page_def)

lemma page_blocks_root: "page_blocks (data_area p) 16 = map (root_blk p) [0..<block_cnt 16]"
  by (simp add: page_blocks_def root_blk_def fun_eq_iff comp_def)

lemma root_blk_inject:
  "valid_page p \<Longrightarrow> j < block_cnt 16 \<Longrightarrow> m < block_cnt 16 \<Longrightarrow> root_blk p j = root_blk p m \<longleftrightarrow> j = m"
  using root_blk_apart[of p j m] by (cases "j = m") auto

lemma root_blk_mark:
  assumes "valid_page p" "j < block_cnt 16" "m < block_cnt 16"
  shows "root_blk p j + 8 \<noteq> root_blk p m" "root_blk p j + 8 = root_blk p m + 8 \<longleftrightarrow> j = m"
proof -
  show "root_blk p j + 8 \<noteq> root_blk p m"
    using root_blk_apart[OF assms] by (cases "j = m") auto
qed (simp add: root_blk_inject[OF assms])

lemma root_member:
  assumes "valid_page p" "x \<in> set (page_blocks (data_area p) 16)"
  obtains j where "j < block_cnt 16" "x = root_blk p j"
  using assms by (auto simp: page_blocks_root)

lemma live_rootE:
  assumes inv: "root_inv p n fs ls s" and t: "t \<in> live_roots p fs ls"
  obtains j where "j < n" "t = root_blk p j"
proof -
  obtain j where j: "j < block_cnt 16" "t = root_blk p j"
    using t root_member[OF root_invD(2)[OF inv]] by (auto simp: live_blocks_def)
  have "j < n"
  proof (rule ccontr)
    assume "\<not> j < n"
    then have "t \<in> set fs" using root_invD(4)[OF inv] j by auto
    then show False using t by (simp add: live_blocks_def)
  qed
  then show ?thesis using that j(2) by blast
qed

lemma live_root_iff:
  assumes inv: "root_inv p n fs ls s" and j: "j < n"
  shows "root_blk p j \<in> live_roots p fs ls \<longleftrightarrow> get_in_use (cell s (root_blk p j + 8)) = 1"
proof -
  have "root_blk p j \<in> set (page_blocks (data_area p) 16)"
    using j root_invD(3)[OF inv] by (simp add: page_blocks_root)
  then show ?thesis using root_invD(5)[OF inv j] by (simp add: live_blocks_def)
qed

section \<open>Every operation keeps them\<close>

lemma root_inv_fresh:
  assumes p: "valid_page p" and free: "pg_free (page s (desc p)) = 0"
  shows "\<exists>s'. cxl_page_init True (desc p) 16 s = Some s' \<and> root_inv p 0 (map (root_blk p) [0..<block_cnt 16]) [] s'"
proof -
  have ik: "fst p < MAX_SEGMENT_NUM" "snd p < PAGES_PER_SEGMENT" using p by (simp_all add: valid_page_def)
  note ok = area_ok_root[OF p]
  obtain s' where s': "cxl_page_init True (desc p) 16 s = Some s'"
    "page s' = (page s)(desc p := fresh_page (data_area p) 16)"
    "chain (cell s') (data_area p) (page_blocks (data_area p) 16)"
    using cxl_page_init_spec[OF ik ok _ free, of True] by blast
  have "distinct (page_blocks (data_area p) 16)" by (rule page_blocks_distinct[OF ok])
  then have "page_inv (fst p) (snd p) 16 (page_blocks (data_area p) 16) [] s'"
    using s'(2,3) ik ok by (simp add: page_inv_def fresh_page_def)
  then show ?thesis using s'(1) by (simp add: root_inv_def page_blocks_root)
qed

lemma root_inv_take:
  assumes inv: "root_inv p n (t # fs) ls s"
  shows "\<exists>n'. root_inv p n' fs ls (block_to_tbr t (desc p) s)"
proof -
  note d = root_invD[OF inv]
  let ?s = "block_to_tbr t (desc p) s"
  have pinv: "page_inv (fst p) (snd p) 16 fs ls ?s" by (rule block_to_tbr_inv[OF d(1)])
  obtain m where m: "m < block_cnt 16" "t = root_blk p m"
    using root_member[OF d(2), of t] page_inv_facts(4)[OF d(1)] by auto
  have t: "t \<notin> set fs \<union> set ls" using d(6) by auto
  have mark: "get_in_use (cell ?s (root_blk p j + 8)) = (if j = m then 1 else get_in_use (cell s (root_blk p j + 8)))"
    if "j < block_cnt 16" for j
    using root_blk_mark[OF d(2) that m(1)] root_blk_mark(1)[OF d(2) m(1) m(1)]
    by (auto simp: m(2) block_to_tbr_sel fresh_tbr_word_def take_bit_eq_mod)
  have keep: "get_in_use (cell ?s (root_blk p j + 8)) = (if root_blk p j \<in> set fs \<union> set ls then 0 else 1)"
    if "j < n \<or> j = m" for j
  proof (cases "j = m")
    case True
    then show ?thesis using mark[OF m(1)] t m(2) by simp
  next
    case False
    then have jn: "j < n" "j < block_cnt 16" using that d(3) by auto
    have "root_blk p j \<noteq> t" using root_blk_inject[OF d(2) jn(2) m(1)] False m(2) by simp
    then show ?thesis using mark[OF jn(2)] d(5)[OF jn(1)] False by auto
  qed
  show ?thesis
  proof (cases "n < block_cnt 16")
    case True
    then have "t # fs = root_blk p n # map (root_blk p) [Suc n..<block_cnt 16]"
      using d(4) by (simp add: upt_rec[of n])
    then have fs: "fs = map (root_blk p) [Suc n..<block_cnt 16]" "t = root_blk p n" by simp_all
    then have "m = n" using root_blk_inject[OF d(2) m(1) True] m(2) by simp
    then show ?thesis
      using pinv True fs(1) keep by (intro exI[of _ "Suc n"]) (auto simp: root_inv_def less_Suc_eq)
  next
    case False
    then show ?thesis using pinv keep d(3) by (intro exI[of _ n]) (auto simp: root_inv_def)
  qed
qed

lemma root_inv_give:
  assumes inv: "root_inv p n fs ls s" and t: "t \<in> live_roots p fs ls"
    and pinv: "page_inv (fst p) (snd p) 16 fs (t # ls) s'" and mark: "cell s' (t + 8) = 0"
    and cells: "\<And>x. x \<notin> {t, t + 8} \<Longrightarrow> in_page (fst p) (snd p) x \<Longrightarrow> cell s' x = cell s x"
  shows "root_inv p n fs (t # ls) s'"
proof -
  note d = root_invD[OF inv]
  obtain m where m: "m < n" "t = root_blk p m" by (rule live_rootE[OF inv t])
  have "get_in_use (cell s' (root_blk p j + 8)) = (if root_blk p j \<in> set fs \<union> set (t # ls) then 0 else 1)"
    if "j < n" for j
  proof (cases "j = m")
    case True
    then show ?thesis using mark m(2) by (simp add: get_in_use_def get_field_def)
  next
    case False
    have b: "j < block_cnt 16" "m < block_cnt 16" using that m(1) d(3) by simp_all
    have "cell s' (root_blk p j + 8) = cell s (root_blk p j + 8)"
      using cells[OF _ root_blk_in(2)[OF d(2) b(1)]] root_blk_apart[OF d(2) b False] m(2) by auto
    then show ?thesis using d(5)[OF that] root_blk_inject[OF d(2) b] False m(2) by simp
  qed
  then show ?thesis using pinv d(3,4) by (simp add: root_inv_def)
qed

lemma page_inv_swap:
  assumes inv: "page_inv i k bs [] ls s" and ls: "ls \<noteq> []" and none: "sas_thread_free (sas s (of_nat i)) = 0"
  shows "\<exists>s'. cxl_page_free_collect (meta_at (seg_at i) k) s = Some s' \<and> page_inv i k bs ls [] s' \<and> cell s' = cell s"
proof -
  note f = page_inv_facts[OF inv]
  have free: "pg_free (page s (meta_at (seg_at i) k)) = 0" "pg_local_free (page s (meta_at (seg_at i) k)) \<noteq> 0"
    using inv ls chain_zero_iff by (auto simp: page_inv_def)
  have "cxl_thread_free_collect (meta_at (seg_at i) k) s = Some s"
    using none f(1,2) by (simp add: cxl_thread_free_collect_def Let_def cxl_ptr_segment_in[OF in_segment_meta] segment_index_seg_at)
  then show ?thesis using free inv by (auto simp: cxl_page_free_collect_def Let_def page_inv_def state_simps)
qed

text \<open>
  C12: A page of root references keeps its shape under allocation, release and collection, also when it was
  carved from memory that is not zero: the mark of a block says whether the block is in use, except for
  blocks that were never allocated, and these lie behind all the others and are next on the free list.
\<close>

lemma root_page_kept:
  assumes "root_inv p n fs ls s"
  shows "(fs = t # fs' \<longrightarrow> (\<exists>n'. root_inv p n' fs' ls (block_to_tbr t (desc p) s))) \<and>
    (t \<in> live_roots p fs ls \<and> owned_by c (fst p) s \<and> pg_used (page s (desc p)) \<noteq> 1 \<longrightarrow>
      (\<exists>s'. cxl_free c True t s = Some s' \<and> root_inv p n fs (t # ls) s')) \<and>
    (fs = [] \<and> ls \<noteq> [] \<and> sas_thread_free (sas s (of_nat (fst p))) = 0 \<longrightarrow>
      (\<exists>s'. cxl_page_free_collect (desc p) s = Some s' \<and> root_inv p n ls [] s'))"
proof (intro conjI impI; (elim conjE)?)
  assume "fs = t # fs'"
  then show "\<exists>n'. root_inv p n' fs' ls (block_to_tbr t (desc p) s)" using assms root_inv_take by blast
next
  note d = root_invD[OF assms]
  assume t: "t \<in> live_roots p fs ls" and own: "owned_by c (fst p) s" and used: "pg_used (page s (desc p)) \<noteq> 1"
  obtain s' where s': "cxl_free c True t s = Some s'" "page_inv (fst p) (snd p) 16 fs (t # ls) s'"
    "\<forall>x. (\<forall>j < clear_cnt True 16. x \<noteq> t + 8 * of_nat j) \<longrightarrow> cell s' x = cell s x"
    "\<forall>j < clear_cnt True 16. 0 < j \<longrightarrow> cell s' (t + 8 * of_nat j) = 0"
    using cxl_free_local[OF d(1) t own _ used, of True] by (auto simp: clear_fits_def clear_cnt_def)
  have "root_inv p n fs (t # ls) s'"
  proof (rule root_inv_give[OF assms t s'(2)])
    show "cell s' (t + 8) = 0" using s'(4)[rule_format, of 1] by (simp add: clear_cnt_def)
    show "cell s' x = cell s x" if "x \<notin> {t, t + 8}" for x
      using s'(3) that by (auto simp: clear_cnt_def less_2_cases_iff)
  qed
  then show "\<exists>s'. cxl_free c True t s = Some s' \<and> root_inv p n fs (t # ls) s'" using s'(1) by blast
next
  note d = root_invD[OF assms]
  assume fs: "fs = []" and ls: "ls \<noteq> []" "sas_thread_free (sas s (of_nat (fst p))) = 0"
  have n: "n = block_cnt 16" using d(3,4) fs by (cases "n < block_cnt 16") auto
  obtain s' where s': "cxl_page_free_collect (desc p) s = Some s'" "page_inv (fst p) (snd p) 16 ls [] s'" "cell s' = cell s"
    using page_inv_swap[OF _ ls] d(1) fs by blast
  then have "root_inv p n ls [] s'" using assms n fs by (simp add: root_inv_def)
  then show "\<exists>s'. cxl_page_free_collect (desc p) s = Some s' \<and> root_inv p n ls [] s'" using s'(1) by blast
qed

section \<open>Giving up a reference\<close>

text \<open>
  \<open>exit_gave\<close> is \<open>gave_up\<close> for a thread that writes its redo log. A reference can be given up when the
  object stays counted, or belongs to another thread, which then gets the block back, and refers to
  nothing.
\<close>

definition forget_redo :: "cxl_tls \<Rightarrow> cxl_tls" where
  "forget_redo t = t\<lparr>tls_redo := (\<lambda>_. zero_redo)\<rparr>"

definition foreign :: "client \<Rightarrow> u64 \<Rightarrow> shm \<Rightarrow> bool" where
  "foreign c b s \<longleftrightarrow> (ucast (sg_thread_id (segment s (cxl_ptr_segment b))) :: u32) \<noteq> cl_thread_id c"

definition exit_gave :: "client \<Rightarrow> u64 set \<Rightarrow> u64 set \<Rightarrow> u64 list \<Rightarrow> shm \<Rightarrow> shm \<Rightarrow> bool" where
  "exit_gave c Obj refs bs s s' \<longleftrightarrow> gave_up Obj refs bs s (s'\<lparr>tls := tls s\<rparr>) \<and>
     (\<forall>a. forget_redo (tls s' a) = forget_redo (tls s a)) \<and>
     (\<forall>i. (\<forall>b \<in> Obj. foreign c b s \<longrightarrow> segment_index (cxl_ptr_segment b) \<noteq> i) \<longrightarrow> sas s' i = sas s i)"

definition exit_releasable :: "client \<Rightarrow> u64 set \<Rightarrow> u64 list \<Rightarrow> shm \<Rightarrow> bool" where
  "exit_releasable c Obj bs s \<longleftrightarrow> (\<forall>b \<in> set bs. b \<in> Obj \<and> count_list bs b \<le> obj_cnt b s \<and>
     (count_list bs b < obj_cnt b s \<or> foreign c b s \<and> cell s (obj_emb b) = 0))"

lemma exit_gaveD:
  assumes "exit_gave c Obj refs bs s s'"
  shows "b \<in> Obj \<Longrightarrow> obj_cnt b s' + count_list bs b = obj_cnt b s"
    "b \<in> Obj \<Longrightarrow> cell s' (obj_emb b) \<in> {0, cell s (obj_emb b)}"
    "x \<notin> headers Obj \<Longrightarrow> x \<notin> refs \<Longrightarrow> cell s' x = cell s x"
    "sas_thread_id (sas s' i) = sas_thread_id (sas s i)" "sas_state (sas s' i) = sas_state (sas s i)"
    "segment s' = segment s" "forget_redo (tls s' a) = forget_redo (tls s a)"
    "(\<And>b. b \<in> Obj \<Longrightarrow> foreign c b s \<Longrightarrow> segment_index (cxl_ptr_segment b) \<noteq> i) \<Longrightarrow> sas s' i = sas s i"
  using assms by (simp_all add: exit_gave_def gave_up_def obj_cnt_def)

lemma exit_gaveI:
  assumes "\<And>b. b \<in> Obj \<Longrightarrow> obj_cnt b s' + count_list bs b = obj_cnt b s"
    "\<And>b. b \<in> Obj \<Longrightarrow> cell s' (obj_emb b) \<in> {0, cell s (obj_emb b)}"
    "\<And>x. x \<notin> headers Obj \<Longrightarrow> x \<notin> refs \<Longrightarrow> cell s' x = cell s x"
    "\<And>i. sas_thread_id (sas s' i) = sas_thread_id (sas s i)" "\<And>i. sas_state (sas s' i) = sas_state (sas s i)"
    "segment s' = segment s" "\<And>a. forget_redo (tls s' a) = forget_redo (tls s a)"
    "\<And>i. (\<And>b. b \<in> Obj \<Longrightarrow> foreign c b s \<Longrightarrow> segment_index (cxl_ptr_segment b) \<noteq> i) \<Longrightarrow> sas s' i = sas s i"
  shows "exit_gave c Obj refs bs s s'"
  using assms by (simp add: exit_gave_def gave_up_def obj_cnt_def)

lemma exit_gave_none: "exit_gave c Obj refs [] s s"
  by (rule exit_gaveI) simp_all

lemma exit_gave_trans:
  assumes "exit_gave c Obj refs bs s s1" "exit_gave c Obj refs' bs' s1 s2"
  shows "exit_gave c Obj (refs \<union> refs') (bs @ bs') s s2"
proof (rule exit_gaveI)
  note d = exit_gaveD[OF assms(1)] exit_gaveD[OF assms(2)]
  show "obj_cnt b s2 + count_list (bs @ bs') b = obj_cnt b s" if "b \<in> Obj" for b using d(1,9)[OF that] by simp
  show "cell s2 (obj_emb b) \<in> {0, cell s (obj_emb b)}" if "b \<in> Obj" for b using d(2,10)[OF that] by auto
  have "foreign c b s1 = foreign c b s" for b by (simp add: foreign_def d(6))
  then show "sas s2 i = sas s i" if "\<And>b. b \<in> Obj \<Longrightarrow> foreign c b s \<Longrightarrow> segment_index (cxl_ptr_segment b) \<noteq> i" for i
    using d(8)[of i] d(16)[of i] that by simp
qed (simp_all add: exit_gaveD[OF assms(1)] exit_gaveD[OF assms(2)])

text \<open>A write to cells that are no headers.\<close>

lemma exit_gave_write:
  assumes "refs \<inter> headers Obj = {}" "\<And>x. x \<notin> refs \<Longrightarrow> cell s' x = cell s x"
    "sas s' = sas s" "segment s' = segment s" "tls s' = tls s"
  shows "exit_gave c Obj refs [] s s'"
proof (rule exit_gaveI)
  fix b assume "b \<in> Obj"
  then have "obj_info b \<notin> refs" "obj_emb b \<notin> refs" using headers_mem[of b Obj] assms(1) by auto
  then show "obj_cnt b s' + count_list [] b = obj_cnt b s" "cell s' (obj_emb b) \<in> {0, cell s (obj_emb b)}"
    using assms(2) by (simp_all add: obj_cnt_def)
qed (simp_all add: assms)

lemma exit_releasable_later:
  assumes "exit_releasable c Obj (bs @ bs') s" "exit_gave c Obj refs bs s s1"
  shows "exit_releasable c Obj bs' s1"
  unfolding exit_releasable_def
proof (intro ballI)
  note d = exit_gaveD[OF assms(2)]
  fix b assume "b \<in> set bs'"
  then have r: "b \<in> Obj" "count_list (bs @ bs') b \<le> obj_cnt b s"
    "count_list (bs @ bs') b < obj_cnt b s \<or> foreign c b s \<and> cell s (obj_emb b) = 0"
    using assms(1) by (simp_all add: exit_releasable_def)
  have "foreign c b s1 = foreign c b s" using d(6) by (simp add: foreign_def)
  then show "b \<in> Obj \<and> count_list bs' b \<le> obj_cnt b s1 \<and>
      (count_list bs' b < obj_cnt b s1 \<or> foreign c b s1 \<and> cell s1 (obj_emb b) = 0)"
    using r d(1)[OF r(1)] d(2)[OF r(1)] by auto
qed

lemma exit_releasable_front:
  assumes "exit_releasable c Obj (bs @ bs') s"
  shows "exit_releasable c Obj bs s"
  unfolding exit_releasable_def
proof (intro ballI)
  fix b assume "b \<in> set bs"
  then have "b \<in> Obj" "count_list (bs @ bs') b \<le> obj_cnt b s"
    "count_list (bs @ bs') b < obj_cnt b s \<or> foreign c b s \<and> cell s (obj_emb b) = 0"
    using assms by (simp_all add: exit_releasable_def)
  then show "b \<in> Obj \<and> count_list bs b \<le> obj_cnt b s \<and>
      (count_list bs b < obj_cnt b s \<or> foreign c b s \<and> cell s (obj_emb b) = 0)" by auto
qed

lemma unlink_commit_parts:
  "cell (unlink_commit c ref b s) = (cell s)(obj_info b := commit_word c (get_ref_cnt_from_info (cell s (obj_info b)) - 1)
     (own_era c (see_era c (cell s (obj_info b)) s)), ref := 0)"
  "forget_redo (tls (unlink_commit c ref b s) a) = forget_redo (tls s a)"
  by (simp_all add: unlink_commit_def Let_def state_simps ucast_ref_info_cnt commit_word_def forget_redo_def write_redo_def)

lemma cxl_free_foreign:
  assumes "foreign c b s"
  shows "\<exists>s'. cxl_free c False b s = Some s' \<and> (\<forall>x. x \<notin> obj_cells b \<longrightarrow> cell s' x = cell s x) \<and>
    cell s' (obj_info b) = 0 \<and> cell s' (obj_emb b) = 0 \<and> page s' = page s \<and> segment s' = segment s \<and> tls s' = tls s \<and>
    (\<forall>i. sas_thread_id (sas s' i) = sas_thread_id (sas s i) \<and> sas_state (sas s' i) = sas_state (sas s i)) \<and>
    (\<forall>i. i \<noteq> segment_index (cxl_ptr_segment b) \<longrightarrow> sas s' i = sas s i)"
  using assms
  by (auto simp: foreign_def cxl_free_def remote_free_def clear_block_def Let_def state_simps cell_clear_cells obj_cells_def
      obj_info_def obj_emb_def less_Suc_eq numeral_3_eq_3)

lemma exit_release:
  assumes id: "valid_id (uint (cl_thread_id c))" and Obj: "apart Obj"
    and ref: "cell s ref = b" "ref \<notin> headers Obj" and rel: "exit_releasable c Obj [b] s"
  shows "\<exists>s'. test_free c ref s = Some s' \<and> exit_gave c Obj {ref} [b] s s' \<and> cell s' ref = 0 \<and> page s' = page s"
proof -
  have b: "b \<in> Obj" "0 < obj_cnt b s" "obj_cnt b s = 1 \<longrightarrow> foreign c b s \<and> cell s (obj_emb b) = 0"
    using rel by (auto simp: exit_releasable_def)
  have b0: "b \<noteq> 0" using Obj b(1) by (auto simp: apart_def)
  have ne: "ref \<notin> obj_cells x" if "x \<in> Obj" for x using that ref(2) by (auto simp: headers_def)
  have other: "a \<notin> obj_cells b" if "x \<in> Obj" "x \<noteq> b" "a \<in> obj_cells x" for a x
    by (rule obj_cells_apart[OF Obj that(1) b(1) that(2,3)])
  let ?n = "get_ref_cnt_from_info (cell s (obj_info b))"
  let ?u = "unlink_commit c ref b s"
  have n: "unat (?n - 1) = unat ?n - 1" using b(2) by (intro unat_dec) (simp add: obj_cnt_def)
  then have small: "unat (?n - 1) < 2 ^ 16" using obj_cnt_bound[of b s] by (simp add: obj_cnt_def)
  note f = commit_word_fields(1)[OF id small]
  note u = unlink_commit_parts[of c ref b s] unlink_commit_sel(2-4)[of c ref b s]
  have ucnt: "obj_cnt b ?u + 1 = obj_cnt b s"
    using ne[OF b(1)] n b(2) by (auto simp: obj_cnt_def u(1) f obj_cells_def)
  have gave: "exit_gave c Obj {ref} [b] s s'"
    if cells: "\<And>x. x \<notin> obj_cells b \<Longrightarrow> cell s' x = cell ?u x" and cnt: "obj_cnt b s' + 1 = obj_cnt b s"
      and emb: "cell s' (obj_emb b) \<in> {0, cell s (obj_emb b)}"
      and rest: "\<And>i. sas_thread_id (sas s' i) = sas_thread_id (sas s i)" "\<And>i. sas_state (sas s' i) = sas_state (sas s i)"
        "segment s' = segment s" "tls s' = tls ?u"
      and lists: "\<And>i. sas s' i \<noteq> sas s i \<Longrightarrow> foreign c b s \<and> i = segment_index (cxl_ptr_segment b)" for s'
  proof (rule exit_gaveI)
    fix x assume x: "x \<in> Obj"
    have same: "cell s' a = cell s a" if "x \<noteq> b" "a \<in> obj_cells x" for a
      using cells[OF other[OF x that]] other[OF x that] ne[OF x] that(2) by (auto simp: u(1) obj_cells_def)
    show "obj_cnt x s' + count_list [b] x = obj_cnt x s"
      using cnt same[of "obj_info x"] by (cases "x = b") (auto simp: obj_cnt_def)
    show "cell s' (obj_emb x) \<in> {0, cell s (obj_emb x)}"
      using emb same[of "obj_emb x"] by (cases "x = b") auto
  next
    fix x assume "x \<notin> headers Obj" "x \<notin> {ref}"
    then have "x \<notin> obj_cells b" "x \<noteq> ref" using b(1) by (auto simp: headers_def)
    then show "cell s' x = cell s x" using cells by (auto simp: u(1) obj_cells_def)
  next
    fix i assume "\<And>x. x \<in> Obj \<Longrightarrow> foreign c x s \<Longrightarrow> segment_index (cxl_ptr_segment x) \<noteq> i"
    then show "sas s' i = sas s i" using lists b(1) by metis
  qed (simp_all add: rest u(2))
  show ?thesis
  proof (cases "obj_cnt b s = 1")
    case False
    then have "test_free c ref s = Some ?u" using test_free_shared[OF ref(1) b0] b(2) by simp
    moreover have "exit_gave c Obj {ref} [b] s ?u"
      by (rule gave) (use ucnt u ne[OF b(1)] in \<open>auto simp: obj_cells_def\<close>)
    ultimately show ?thesis by (simp add: u)
  next
    case True
    have "foreign c b ?u" using b(3) True by (simp add: foreign_def u)
    then obtain s' where s': "cxl_free c False b ?u = Some s'" "\<forall>x. x \<notin> obj_cells b \<longrightarrow> cell s' x = cell ?u x"
      "cell s' (obj_info b) = 0" "cell s' (obj_emb b) = 0" "page s' = page ?u" "segment s' = segment ?u" "tls s' = tls ?u"
      "\<forall>i. sas_thread_id (sas s' i) = sas_thread_id (sas ?u i) \<and> sas_state (sas s' i) = sas_state (sas ?u i)"
      "\<forall>i. i \<noteq> segment_index (cxl_ptr_segment b) \<longrightarrow> sas s' i = sas ?u i"
      using cxl_free_foreign by blast
    have "unlink_reference c ref b s = Some s'" using unlink_reference_cases[OF b(2)] True s'(1) by simp
    then have "test_free c ref s = Some s'" using test_free_leaf[OF ref(1) b0 True] b(3) True by simp
    moreover have "obj_cnt b s' = 0" by (simp add: obj_cnt_def s'(3) get_ref_cnt_from_info_def)
    then have "exit_gave c Obj {ref} [b] s s'" by (intro gave) (use s' True u b(3) in auto)
    moreover have "cell s' ref = 0" using s'(2) ne[OF b(1)] by (simp add: u)
    ultimately show ?thesis using s'(5) u by simp
  qed
qed

section \<open>The walk over a page\<close>

definition exit_target :: "page_no \<Rightarrow> shm \<Rightarrow> nat \<Rightarrow> u64 list" where
  "exit_target p s j = (if get_in_use (cell s (root_blk p j + 8)) = 1 \<and> cell s (root_blk p j) \<noteq> 0
     then [cell s (root_blk p j)] else [])"

definition exit_targets :: "page_no \<Rightarrow> nat \<Rightarrow> nat \<Rightarrow> shm \<Rightarrow> u64 list" where
  "exit_targets p j n s = concat (map (exit_target p s) [j..<n])"

lemma exit_targets_Suc: "j < n \<Longrightarrow> exit_targets p j n s = exit_target p s j @ exit_targets p (Suc j) n s"
  by (simp add: exit_targets_def upt_rec[of j])

lemma exit_targets_cong:
  assumes "\<And>m. j \<le> m \<Longrightarrow> m < n \<Longrightarrow> cell s' (root_blk p m) = cell s (root_blk p m) \<and> cell s' (root_blk p m + 8) = cell s (root_blk p m + 8)"
  shows "exit_targets p j n s' = exit_targets p j n s"
  unfolding exit_targets_def exit_target_def using assms by (intro arg_cong[where f = concat] map_cong) auto

lemma page_used_live:
  assumes "page_inv i k bs fs ls s"
  shows "pg_used (page s (meta_at (seg_at i) k)) = of_nat (card (live_blocks i k bs fs ls))"
proof -
  note f = page_inv_facts[OF assms]
  have "live_blocks i k bs fs ls = set (page_blocks (area_at (seg_at i) k) bs) - set (fs @ ls)"
    by (auto simp: live_blocks_def)
  then have "card (live_blocks i k bs fs ls) = card (set (page_blocks (area_at (seg_at i) k) bs)) - card (set (fs @ ls))"
    using f(4) by (simp only:) (rule card_Diff_subset; simp)
  also have "card (set (fs @ ls)) = length fs + length ls" using distinct_card[OF f(5)] by simp
  also have "card (set (page_blocks (area_at (seg_at i) k) bs)) = block_cnt bs"
    using distinct_card[OF page_blocks_distinct[OF f(3)]] by simp
  finally show ?thesis using assms by (simp add: page_inv_def diff_diff_left)
qed

lemma page_used_one:
  assumes inv: "page_inv i k 16 fs ls s"
  shows "pg_used (page s (meta_at (seg_at i) k)) = 1 \<longleftrightarrow> card (live_blocks i k 16 fs ls) = 1"
proof -
  have "card (live_blocks i k 16 fs ls) \<le> card (set (page_blocks (area_at (seg_at i) k) 16))"
    by (rule card_mono) (auto simp: live_blocks_def)
  also have "\<dots> \<le> block_cnt 16" using card_length[of "page_blocks (area_at (seg_at i) k) 16"] by simp
  finally have "card (live_blocks i k 16 fs ls) < 2 ^ 32" by (simp add: block_cnt_def)
  then show ?thesis unfolding page_used_live[OF inv] by (simp add: word_unat_eq_iff unat_of_nat)
qed

text \<open>One block in use, up to the test whether it was the last.\<close>

abbreviation same_links :: "u64 \<Rightarrow> shm \<Rightarrow> shm \<Rightarrow> bool" where
  "same_links pg s s' \<equiv> pg_next (page s' pg) = pg_next (page s pg) \<and> pg_prev (page s' pg) = pg_prev (page s pg) \<and>
     (\<forall>x. x \<noteq> pg \<longrightarrow> page s' x = page s x)"

lemma exit_root_step:
  assumes id: "valid_id (uint (cl_thread_id c))" and Obj: "apart Obj" "off_page Obj p"
    and inv: "root_inv p n fs ls s" and own: "owned_by c (fst p) s"
    and j: "j < n" "root_blk p j \<in> live_roots p fs ls" and rel: "exit_releasable c Obj (exit_target p s j) s"
  shows "\<exists>s1 s3. test_free c (root_blk p j) s = Some s1 \<and> pg_used (page s1 (desc p)) = pg_used (page s (desc p)) \<and>
    cxl_free c True (root_blk p j) (set_cell (root_blk p j + 8) (set_in_use 0 (cell s1 (root_blk p j + 8))) s1) =
      (if card (live_roots p fs ls) = 1 then cxl_page_free c (desc p) (cl_tls_offset c, Bin 0) s3 else Some s3) \<and>
    root_inv p n fs (root_blk p j # ls) s3 \<and> exit_gave c Obj {root_blk p j, root_blk p j + 8} (exit_target p s j) s s3 \<and>
    same_links (desc p) s s3"
proof -
  let ?b = "root_blk p j"
  note d = root_invD[OF inv]
  have jc: "j < block_cnt 16" using j(1) d(3) by simp
  have inp: "in_page (fst p) (snd p) ?b" "in_page (fst p) (snd p) (?b + 8)" by (rule root_blk_in[OF d(2) jc])+
  have off: "?b \<notin> headers Obj" "?b + 8 \<notin> headers Obj" using Obj(2) inp by (auto simp: off_page_def)
  have mark: "get_in_use (cell s (?b + 8)) = 1" using live_root_iff[OF inv j(1)] j(2) by simp
  have "\<exists>s1. test_free c ?b s = Some s1 \<and> exit_gave c Obj {?b} (exit_target p s j) s s1 \<and> page s1 = page s"
  proof (cases "cell s ?b = 0")
    case True
    then have "exit_gave c Obj {?b} (exit_target p s j) s s"
      by (simp add: exit_target_def) (rule exit_gave_write; use off in simp)
    then show ?thesis using test_free_null[OF True] by simp
  next
    case False
    then have "exit_target p s j = [cell s ?b]" using mark by (simp add: exit_target_def)
    then show ?thesis using exit_release[OF id Obj(1) refl off(1)] rel by auto
  qed
  then obtain s1 where s1: "test_free c ?b s = Some s1" "exit_gave c Obj {?b} (exit_target p s j) s s1" "page s1 = page s"
    by blast
  let ?s2 = "set_cell (?b + 8) (set_in_use 0 (cell s1 (?b + 8))) s1"
  let ?s3 = "give_block ?b (desc p) (clear_cells ?b 2 ?s2)"
  have frame: "cell s1 x = cell s x" if "in_page (fst p) (snd p) x" "x \<noteq> ?b" for x
    using exit_gaveD(3)[OF s1(2)] that Obj(2) by (auto simp: off_page_def)
  have "cell ?s2 x = cell s x" if x: "x \<in> set (fs @ ls)" for x
  proof -
    have "x \<in> set (page_blocks (data_area p) 16)" using page_inv_facts(4)[OF d(1)] x by blast
    then obtain m where m: "m < block_cnt 16" "x = root_blk p m" by (rule root_member[OF d(2)])
    have "x \<noteq> ?b" using j(2) x by (auto simp: live_blocks_def)
    then show ?thesis
      using frame[of x] root_blk_in(1)[OF d(2) m(1)] root_blk_mark(1)[OF d(2) jc m(1)] m(2) by (auto simp: state_simps)
  qed
  then have p2: "page_inv (fst p) (snd p) 16 fs ls ?s2"
    using d(1) s1(3) by (subst page_inv_cong[where s = s]) (auto simp: state_simps)
  have own2: "owned_by c (fst p) ?s2" using own exit_gaveD(6)[OF s1(2)] by (simp add: owned_by_def state_simps)
  have "page_inv (fst p) (snd p) 16 fs ls (clear_cells ?b 2 ?s2)"
    using clear_block_inv[OF p2 j(2), of 2] by simp
  then have p3: "page_inv (fst p) (snd p) 16 fs (?b # ls) ?s3" by (rule page_inv_give[OF _ j(2)])
  have cells: "cell ?s3 x = cell s1 x" if "x \<notin> {?b, ?b + 8}" for x
    using that by (auto simp: state_simps cell_clear_cells less_2_cases_iff)
  have "\<exists>i < 2. ?b + 8 = ?b + 8 * of_nat i" by (intro exI[of _ 1]) simp
  then have "cell (clear_cells ?b 2 ?s2) (?b + 8) = 0" unfolding cell_clear_cells by simp
  then have zero: "cell ?s3 (?b + 8) = 0" by (simp add: give_block_sel)
  have r3: "root_inv p n fs (?b # ls) ?s3"
    by (rule root_inv_give[OF inv j(2) p3 zero]) (use cells frame in auto)
  have free: "cxl_free c True ?b ?s2 =
      (if card (live_roots p fs ls) = 1 then cxl_page_free c (desc p) (cl_tls_offset c, Bin 0) ?s3 else Some ?s3)"
    using cxl_free_unfold_local[OF p2 j(2) own2, of True] page_used_one[OF p2]
    by (simp add: clear_cnt_def Let_def cxl_page_queue_def)
  have "exit_gave c Obj {?b, ?b + 8} [] s1 ?s3"
    by (rule exit_gave_write) (use off cells in \<open>auto simp: state_simps\<close>)
  from exit_gave_trans[OF s1(2) this] have "exit_gave c Obj {?b, ?b + 8} (exit_target p s j) s ?s3" by (simp add: insert_commute)
  moreover have "same_links (desc p) s ?s3" using s1(3) by (auto simp: give_block_def Let_def state_simps)
  ultimately show ?thesis using s1(1,3) free r3 by (intro exI[of _ s1] exI[of _ ?s3]) simp
qed

lemma exit_walk:
  assumes id: "valid_id (uint (cl_thread_id c))" and Obj: "apart Obj" "off_page Obj p"
    and "j \<le> n" "root_inv p n fs ls s" "owned_by c (fst p) s" "live_roots p fs ls \<noteq> {}"
    "\<forall>m < j. root_blk p m \<notin> live_roots p fs ls" "exit_releasable c Obj (exit_targets p j n s) s"
  shows "\<exists>s1. exit_tbr_blocks c (desc p) (last_blk (data_area p) 16) (root_blk p j) s =
      cxl_page_free c (desc p) (cl_tls_offset c, Bin 0) s1 \<and>
    exit_gave c Obj (cells_from p j) (exit_targets p j n s) s s1 \<and> same_links (desc p) s s1"
  using assms(4-)
proof (induction j arbitrary: ls s rule: inc_induct)
  case base
  obtain t where "t \<in> live_roots p fs ls" using base by blast
  then obtain m where "m < n" "root_blk p m \<in> live_roots p fs ls" using live_rootE[OF base(1)] by metis
  then show ?case using base by blast
next
  case (step j)
  let ?b = "root_blk p j"
  let ?walk = "exit_tbr_blocks c (desc p) (last_blk (data_area p) 16)"
  note d = root_invD[OF step.prems(1)]
  have j: "j < n" "j < block_cnt 16" using step.hyps(2) d(3) by simp_all
  have le: "?b \<le> last_blk (data_area p) 16"
    using blk_le_last[OF area_ok_root[OF d(2)], of j] j(2) by (simp add: root_blk_def)
  have "pg_block_size (page s (desc p)) = 16" using d(1) by (simp add: page_inv_def)
  then have nxt: "?b + ucast (pg_block_size (page s (desc p))) = root_blk p (Suc j)" by (simp add: root_blk_def blk_Suc)
  have split: "exit_targets p j n s = exit_target p s j @ exit_targets p (Suc j) n s" by (rule exit_targets_Suc[OF j(1)])
  have grow: "cells_from p j = {?b, ?b + 8} \<union> cells_from p (Suc j)" by (rule cells_from_Suc[OF j(2)])
  show ?case
  proof (cases "?b \<in> live_roots p fs ls")
    case False
    then have mark: "get_in_use (cell s (?b + 8)) \<noteq> 1" using live_root_iff[OF step.prems(1) j(1)] by simp
    then have none: "exit_target p s j = []" by (simp add: exit_target_def)
    have "\<forall>m < Suc j. root_blk p m \<notin> live_roots p fs ls" using step.prems(4) False by (auto simp: less_Suc_eq)
    moreover have "exit_releasable c Obj (exit_targets p (Suc j) n s) s" using step.prems(5) unfolding split none by simp
    ultimately obtain s1 where s1: "?walk (root_blk p (Suc j)) s = cxl_page_free c (desc p) (cl_tls_offset c, Bin 0) s1"
      "exit_gave c Obj (cells_from p (Suc j)) (exit_targets p (Suc j) n s) s s1" "same_links (desc p) s s1"
      using step.IH[OF step.prems(1-3)] by blast
    have "?walk ?b s = cxl_page_free c (desc p) (cl_tls_offset c, Bin 0) s1"
      using s1(1) le nxt mark by (subst exit_tbr_blocks.simps) (simp add: Let_def)
    moreover have "exit_gave c Obj (cells_from p j) (exit_targets p j n s) s s1"
    proof (rule exit_gaveI)
      fix x assume "x \<notin> headers Obj" "x \<notin> cells_from p j"
      then show "cell s1 x = cell s x" using exit_gaveD(3)[OF s1(2)] grow by blast
    qed (use exit_gaveD[OF s1(2)] in \<open>simp_all add: split none\<close>)
    ultimately show ?thesis using s1(3) by blast
  next
    case True
    have mark: "get_in_use (cell s (?b + 8)) = 1" using live_root_iff[OF step.prems(1) j(1)] True by simp
    have rel: "exit_releasable c Obj (exit_target p s j) s"
      by (rule exit_releasable_front[OF step.prems(5)[unfolded split]])
    obtain s1 s3 where s1: "test_free c ?b s = Some s1" "pg_used (page s1 (desc p)) = pg_used (page s (desc p))"
      and free: "cxl_free c True ?b (set_cell (?b + 8) (set_in_use 0 (cell s1 (?b + 8))) s1) =
        (if card (live_roots p fs ls) = 1 then cxl_page_free c (desc p) (cl_tls_offset c, Bin 0) s3 else Some s3)"
      and s3: "root_inv p n fs (?b # ls) s3" "exit_gave c Obj {?b, ?b + 8} (exit_target p s j) s s3" "same_links (desc p) s s3"
      using exit_root_step[OF id Obj step.prems(1,2) j(1) True rel] by blast
    have flag: "pg_used (page s1 (desc p)) = 1 \<longleftrightarrow> card (live_roots p fs ls) = 1"
      using s1(2) page_used_one[OF d(1)] by simp
    have walk: "?walk ?b s = (if card (live_roots p fs ls) = 1 then cxl_page_free c (desc p) (cl_tls_offset c, Bin 0) s3
        else ?walk (root_blk p (Suc j)) s3)"
      using s1(1) le nxt mark free flag by (subst exit_tbr_blocks.simps) (simp add: Let_def state_simps)
    show ?thesis
    proof (cases "card (live_roots p fs ls) = 1")
      case one: True
      then have only: "live_roots p fs ls = {?b}" using True by (auto simp: card_1_singleton_iff)
      have "exit_target p s m = []" if m: "m \<in> set [Suc j..<n]" for m
      proof -
        have "root_blk p m \<noteq> ?b" using root_blk_inject[OF d(2) _ j(2), of m] m d(3) by simp
        then show ?thesis using live_root_iff[OF step.prems(1), of m] m only by (simp add: exit_target_def)
      qed
      then have none: "exit_targets p (Suc j) n s = []" by (simp add: exit_targets_def)
      have "exit_gave c Obj (cells_from p j) (exit_targets p j n s) s s3"
      proof (rule exit_gaveI)
        fix x assume "x \<notin> headers Obj" "x \<notin> cells_from p j"
        then show "cell s3 x = cell s x" using exit_gaveD(3)[OF s3(2)] grow by blast
      qed (use exit_gaveD[OF s3(2)] in \<open>simp_all add: split none\<close>)
      then show ?thesis using walk one s3(3) by auto
    next
      case more: False
      have live: "live_roots p fs (?b # ls) = live_roots p fs ls - {?b}" by (auto simp: live_blocks_def)
      have "live_roots p fs ls \<noteq> {?b}" using more by auto
      then have ne: "live_roots p fs (?b # ls) \<noteq> {}" unfolding live using True by blast
      have below: "\<forall>m < Suc j. root_blk p m \<notin> live_roots p fs (?b # ls)"
        unfolding live using step.prems(4) by (auto simp: less_Suc_eq)
      have same: "exit_targets p (Suc j) n s3 = exit_targets p (Suc j) n s"
      proof (rule exit_targets_cong)
        fix m assume m: "Suc j \<le> m" "m < n"
        then have mc: "m < block_cnt 16" "m \<noteq> j" using d(3) by simp_all
        have "root_blk p m \<notin> headers Obj" "root_blk p m + 8 \<notin> headers Obj"
          using Obj(2) root_blk_in[OF d(2) mc(1)] by (auto simp: off_page_def)
        then show "cell s3 (root_blk p m) = cell s (root_blk p m) \<and> cell s3 (root_blk p m + 8) = cell s (root_blk p m + 8)"
          using exit_gaveD(3)[OF s3(2)] root_blk_apart[OF d(2) mc(1) j(2) mc(2)] by blast
      qed
      have own: "owned_by c (fst p) s3" using step.prems(2) exit_gaveD(6)[OF s3(2)] by (simp add: owned_by_def)
      have "exit_releasable c Obj (exit_targets p (Suc j) n s3) s3"
        unfolding same by (rule exit_releasable_later[OF step.prems(5)[unfolded split] s3(2)])
      then obtain s' where s': "?walk (root_blk p (Suc j)) s3 = cxl_page_free c (desc p) (cl_tls_offset c, Bin 0) s'"
        "exit_gave c Obj (cells_from p (Suc j)) (exit_targets p (Suc j) n s) s3 s'" "same_links (desc p) s3 s'"
        using step.IH[OF s3(1) own ne below] unfolding same by blast
      have "exit_gave c Obj (cells_from p j) (exit_targets p j n s) s s'"
        unfolding split grow by (rule exit_gave_trans[OF s3(2) s'(2)])
      then show ?thesis using walk more s'(1,3) s3(3) by auto
    qed
  qed
qed

section \<open>Giving the page back\<close>

lemma upd_pq_tls:
  "tls_sender_queue (tls (upd_pq q f s) a) = tls_sender_queue (tls s a)"
  "tls_receiver_queue (tls (upd_pq q f s) a) = tls_receiver_queue (tls s a)"
  by (cases "(q, f, s)" rule: upd_pq.cases; simp add: state_simps)+

lemma queue_ops_tls:
  "tls_sender_queue (tls (cxl_page_queue_push q pg s) a) = tls_sender_queue (tls s a)"
  "tls_receiver_queue (tls (cxl_page_queue_push q pg s) a) = tls_receiver_queue (tls s a)"
  "tls_sender_queue (tls (cxl_page_queue_remove q pg s) a) = tls_sender_queue (tls s a)"
  "tls_receiver_queue (tls (cxl_page_queue_remove q pg s) a) = tls_receiver_queue (tls s a)"
  by (auto simp: cxl_page_queue_push_def cxl_page_queue_remove_def Let_def upd_pq_tls state_simps split: option.split)

lemma cxl_page_free_frame:
  assumes i: "i < MAX_SEGMENT_NUM" "k < PAGES_PER_SEGMENT"
    and q: "pq_list (cl_tls_offset c, Bin j) qs s" "meta_at (seg_at i) k \<in> set qs"
    and fp: "pq_list (cl_tls_offset c, Free_Page) ps s" "set qs \<inter> set ps = {}"
    and run: "cxl_page_free c (meta_at (seg_at i) k) (cl_tls_offset c, Bin j) s = Some s'"
    and used: "sg_used (segment s (seg_at i)) \<noteq> 1"
  shows "x \<notin> set qs \<Longrightarrow> x \<notin> set ps \<Longrightarrow> page s' x = page s x"
    "q' \<notin> {(cl_tls_offset c, Bin j), (cl_tls_offset c, Free_Page)} \<Longrightarrow> get_pq q' s' = get_pq q' s"
    "tls_sender_queue (tls s' a) = tls_sender_queue (tls s a)"
    "tls_receiver_queue (tls s' a) = tls_receiver_queue (tls s a)"
proof -
  let ?p = "meta_at (seg_at i) k" and ?f = "(cl_tls_offset c, Free_Page)" and ?q = "(cl_tls_offset c, Bin j)"
  let ?s1 = "cxl_page_queue_remove ?q ?p s"
  let ?s2 = "upd_page ?p (\<lambda>_. zero_page) ?s1"
  let ?s3 = "cxl_page_queue_push ?f ?p ?s2"
  have seg: "cxl_ptr_segment ?p = seg_at i" using i by (simp add: cxl_ptr_segment_in[OF in_segment_meta])
  have s': "s' = upd_segment (seg_at i) (\<lambda>x. x\<lparr>sg_used := sg_used x - 1\<rparr>) ?s3"
    using run used by (simp add: cxl_page_free_def Let_def seg state_simps)
  have "pq_list ?f ps ?s1" by (rule pql.lst_remove_other[OF q(1) fp(1) _ fp(2) q(2)]) simp
  moreover have "?p \<notin> set ps" using q(2) fp(2) by blast
  ultimately have fp2: "pq_list ?f ps ?s2" using pq_list_set_page[of ?p _ ?s2 ?s1] by (simp add: state_simps)
  show "page s' x = page s x" if "x \<notin> set qs" "x \<notin> set ps"
  proof -
    have "x \<noteq> ?p" using that(1) q(2) by blast
    then show ?thesis
      using pq_list_push_page[OF fp2 that(2)] pq_list_remove_page[OF q that(1)] by (simp add: s' state_simps)
  qed
  show "get_pq q' s' = get_pq q' s" if "q' \<notin> {?q, ?f}"
    using that by (simp add: s' state_simps)
  show "tls_sender_queue (tls s' a) = tls_sender_queue (tls s a)"
    "tls_receiver_queue (tls s' a) = tls_receiver_queue (tls s a)"
    by (simp_all add: s' queue_ops_tls state_simps)
qed

section \<open>Pages of objects\<close>

text \<open>Pages with blocks in use stay; their segments are left to the monitor.\<close>

definition abandoned :: "page_no set \<Rightarrow> shm \<Rightarrow> shm" where
  "abandoned P s = s\<lparr>sas := (\<lambda>i. if i \<in> (\<lambda>p. of_nat (fst p)) ` P then (sas s i)\<lparr>sas_state := ABANDON\<rparr> else sas s i)\<rparr>"

definition stays :: "page_no \<Rightarrow> shm \<Rightarrow> bool" where
  "stays p s \<longleftrightarrow> valid_page p \<and> pg_used (page s (desc p)) \<noteq> 0 \<and> sas_thread_free (sas s (of_nat (fst p))) = 0"

lemma abandoned_sel [simp]:
  "cell (abandoned P s) = cell s" "page (abandoned P s) = page s" "segment (abandoned P s) = segment s"
  "tls (abandoned P s) = tls s" "get_pq q (abandoned P s) = get_pq q s" "abandoned {} s = s"
  "sas_thread_free (sas (abandoned P s) i) = sas_thread_free (sas s i)"
  "sas_thread_id (sas (abandoned P s) i) = sas_thread_id (sas s i)"
  by (cases "(q, s)" rule: get_pq.cases; simp add: abandoned_def)+

lemma abandoned_union: "abandoned P (abandoned Q s) = abandoned (Q \<union> P) s"
  by (simp add: abandoned_def fun_eq_iff image_Un)

lemma abandoned_one: "valid_page p \<Longrightarrow> set_sas_state ABANDON (desc p) s = abandoned {p} s"
  by (auto simp: set_sas_state_def abandoned_def valid_page_def upd_sas_def fun_eq_iff
      cxl_ptr_segment_in[OF in_segment_meta] segment_index_seg_at)

lemma exit_obj_pages_spec:
  assumes "chain (\<lambda>x. pg_next (page s x)) first (map desc ps)" "\<forall>p \<in> set ps. stays p s"
  shows "exit_obj_pages c (get_page_by_offset first) s = Some (abandoned (set ps) s)"
  using assms
proof (induction ps arbitrary: first s)
  case Nil
  then show ?case by (simp add: exit_obj_pages.simps get_page_by_offset_def)
next
  case (Cons p ps)
  have p: "first = desc p" "desc p \<noteq> 0" "valid_page p" "pg_used (page s (desc p)) \<noteq> 0"
    "sas_thread_free (sas s (of_nat (fst p))) = 0"
    using Cons.prems by (auto simp: stays_def desc_nonnull)
  have "cxl_thread_free_collect (desc p) s = Some s"
    using p(3,5) by (simp add: cxl_thread_free_collect_def Let_def valid_page_def cxl_ptr_segment_in[OF in_segment_meta]
        segment_index_seg_at)
  moreover have "exit_obj_pages c (get_page_by_offset (pg_next (page s (desc p)))) (abandoned {p} s) =
      Some (abandoned (set ps) (abandoned {p} s))"
    by (rule Cons.IH) (use Cons.prems p(1) in \<open>auto simp: stays_def\<close>)
  ultimately show ?case
    using p(1,2,4) by (subst exit_obj_pages.simps)
      (simp add: get_page_by_offset_def abandoned_one[OF p(3)] abandoned_union)
qed

lemma exit_bins:
  assumes "\<forall>i. 2 \<le> i \<and> i < CXL_BIN_SIZE \<longrightarrow> bin_chain t i (ps i) s"
    and "\<forall>p \<in> set (all_pages ps CXL_BIN_SIZE). stays p s"
  shows "for_range (\<lambda>i s. exit_obj_pages c (get_page_by_offset (pq_first (get_pq (t, Bin i) s))) s) 2 (CXL_BIN_SIZE - 2) s =
    Some (abandoned (set (all_pages ps CXL_BIN_SIZE)) s)"
proof -
  define f where "f = (\<lambda>i s. exit_obj_pages c (get_page_by_offset (pq_first (get_pq (t, Bin i) s))) s)"
  have "\<exists>s'. for_range f 2 (CXL_BIN_SIZE - 2) s = Some s' \<and> s' = abandoned (set (all_pages ps (2 + (CXL_BIN_SIZE - 2)))) s"
  proof (rule for_range_rule)
    fix j s1 assume j: "2 \<le> j" "j < 2 + (CXL_BIN_SIZE - 2)" and s1: "s1 = abandoned (set (all_pages ps j)) s"
    have jn: "j < CXL_BIN_SIZE" using j by (simp add: layout_simps)
    have "f j s1 = Some (abandoned (set (ps j)) s1)"
      unfolding f_def
    proof (rule exit_obj_pages_spec)
      show "chain (\<lambda>x. pg_next (page s1 x)) (pq_first (get_pq (t, Bin j) s1)) (map desc (ps j))"
        using assms(1) j(1) jn by (simp add: s1 bin_chain_def)
      show "\<forall>p \<in> set (ps j). stays p s1"
        using assms(2) j(1) jn by (auto simp: s1 stays_def set_all_pages)
    qed
    then show "\<exists>s2. f j s1 = Some s2 \<and> s2 = abandoned (set (all_pages ps (Suc j))) s"
      by (simp add: s1 abandoned_union all_pages_Suc[OF j(1)])
  qed (simp add: all_pages_def)
  then show ?thesis by (simp add: f_def layout_simps)
qed

section \<open>The exit\<close>

text \<open>
  A thread with one page of root references, at the head of its queue, pages of objects that have other
  blocks in use, and no message queue. The segment of the root references has another page.
\<close>

definition leaving :: "client \<Rightarrow> page_no \<Rightarrow> nat \<Rightarrow> u64 list \<Rightarrow> u64 list \<Rightarrow> (nat \<Rightarrow> page_no list) \<Rightarrow> u64 list \<Rightarrow> u64 set \<Rightarrow> shm \<Rightarrow> bool" where
  "leaving c p n fs ls ps free Obj s \<longleftrightarrow>
     root_inv p n fs ls s \<and> live_roots p fs ls \<noteq> {} \<and> owned_by c (fst p) s \<and>
     pq_list (cl_tls_offset c, Bin 0) [desc p] s \<and> pq_list (cl_tls_offset c, Free_Page) free s \<and> desc p \<notin> set free \<and>
     sg_used (segment s (seg_at (fst p))) \<noteq> 1 \<and>
     tls_sender_queue (tls s (cl_tls_offset c)) = 0 \<and> tls_receiver_queue (tls s (cl_tls_offset c)) = 0 \<and>
     (\<forall>i. 2 \<le> i \<and> i < CXL_BIN_SIZE \<longrightarrow> bin_chain (cl_tls_offset c) i (ps i) s) \<and>
     (\<forall>q \<in> set (all_pages ps CXL_BIN_SIZE). stays q s \<and> owned_by c (fst q) s \<and> desc q \<noteq> desc p \<and> desc q \<notin> set free) \<and>
     apart Obj \<and> on_pages Obj \<and> off_page Obj p \<and> exit_releasable c Obj (exit_targets p 0 n s) s"

lemma exit_tbr_page:
  assumes id: "valid_id (uint (cl_thread_id c))" and leaving: "leaving c p n fs ls ps free Obj s"
  shows "\<exists>s1 s2. exit_tbr_pages c (get_page_by_offset (pq_first (get_pq (cl_tls_offset c, Bin 0) s))) s = Some s2 \<and>
    cxl_page_free c (desc p) (cl_tls_offset c, Bin 0) s1 = Some s2 \<and>
    exit_gave c Obj (cells_from p 0) (exit_targets p 0 n s) s s1 \<and> same_links (desc p) s s1 \<and>
    pq_list (cl_tls_offset c, Bin 0) [desc p] s1 \<and> pq_list (cl_tls_offset c, Free_Page) free s1 \<and>
    sg_used (segment s1 (seg_at (fst p))) \<noteq> 1 \<and> (\<forall>q. get_pq q s1 = get_pq q s)"
proof -
  have l: "root_inv p n fs ls s" "live_roots p fs ls \<noteq> {}" "owned_by c (fst p) s"
    "pq_list (cl_tls_offset c, Bin 0) [desc p] s" "pq_list (cl_tls_offset c, Free_Page) free s" "desc p \<notin> set free"
    "sg_used (segment s (seg_at (fst p))) \<noteq> 1" "apart Obj" "off_page Obj p" "exit_releasable c Obj (exit_targets p 0 n s) s"
    using leaving by (simp_all add: leaving_def)
  have v: "valid_page p" by (rule root_invD(2)[OF l(1)])
  then have ik: "fst p < MAX_SEGMENT_NUM" "snd p < PAGES_PER_SEGMENT" by (simp_all add: valid_page_def)
  obtain s1 where s1: "exit_tbr_blocks c (desc p) (last_blk (data_area p) 16) (root_blk p 0) s =
      cxl_page_free c (desc p) (cl_tls_offset c, Bin 0) s1"
    "exit_gave c Obj (cells_from p 0) (exit_targets p 0 n s) s s1" "same_links (desc p) s s1"
    using exit_walk[OF id l(8,9) _ l(1,3,2) _ l(10)] by auto
  note g = exit_gaveD[OF s1(2)]
  have queues: "get_pq (a, b) s1 = get_pq (a, b) s" for a b
    using g(7)[of a] by (cases b) (auto simp: forget_redo_def cxl_tls.splits dest: arg_cong[where f = tls_pages] arg_cong[where f = tls_free_page])
  have bin: "pq_list (cl_tls_offset c, Bin 0) [desc p] s1" using l(4) s1(3) queues by (simp add: pq_list_def)
  have list: "pq_list (cl_tls_offset c, Free_Page) free s1"
  proof (rule iffD2[OF pq_list_cong l(5)])
    show "\<forall>x \<in> set free. page s1 x = page s x" using l(6) s1(3) by metis
  qed (rule queues)
  have used: "sg_used (segment s1 (seg_at (fst p))) \<noteq> 1" using l(7) g(6) by simp
  obtain s2 where s2: "cxl_page_free c (desc p) (cl_tls_offset c, Bin 0) s1 = Some s2"
    using cxl_page_free_spec[OF ik bin _ list _ used] l(6) by auto
  have bs: "page_bs (fst p) (snd p) s = 16" using root_invD(1)[OF l(1)] by (simp add: page_bs_def page_inv_def)
  have fl: "page_first (desc p) s = root_blk p 0" "page_last (desc p) s = last_blk (data_area p) 16"
    using page_first_last(2,3)[OF ik, of s] by (simp_all add: bs root_blk_def)
  have first: "pq_first (get_pq (cl_tls_offset c, Bin 0) s) = desc p" "pg_next (page s (desc p)) = 0" "desc p \<noteq> 0"
    using l(4) desc_nonnull[OF v] by (simp_all add: pq_list_def)
  have "pg_block_size (page s (desc p)) \<noteq> 0" using bs by (auto simp: page_bs_def)
  then have "exit_tbr_pages c (get_page_by_offset (pq_first (get_pq (cl_tls_offset c, Bin 0) s))) s = Some s2"
    using first s1(1) s2 fl
    by (simp add: get_page_by_offset_def exit_tbr_pages.simps[of c "Some (desc p)"] exit_tbr_pages.simps[of c None])
  then show ?thesis using s2 s1(2,3) bin list used queues by auto
qed

text \<open>
  C11: A thread leaves while others still hold its objects. The call returns; every object has lost exactly
  the references the thread held, no other cell has changed; the page of root references is given back,
  the segments of its objects are left to the monitor with their objects in place, and its thread state is
  free.
\<close>

lemma exit_releases:
  assumes id: "valid_id (uint (cl_thread_id c))" and leaving: "leaving c p n fs ls ps free Obj s"
  shows "\<exists>s'. normal_garbage_collection c s = Some s' \<and>
    (\<forall>b \<in> Obj. obj_cnt b s' + count_list (exit_targets p 0 n s) b = obj_cnt b s) \<and>
    (\<forall>x. x \<notin> headers Obj \<longrightarrow> x \<notin> cells_from p 0 \<longrightarrow> cell s' x = cell s x) \<and>
    page_body (page s' (desc p)) = zero_page \<and>
    sg_used (segment s' (seg_at (fst p))) = sg_used (segment s (seg_at (fst p))) - 1 \<and>
    (\<forall>q \<in> set (all_pages ps CXL_BIN_SIZE). page s' (desc q) = page s (desc q) \<and>
       sas_state (sas s' (of_nat (fst q))) = ABANDON \<and>
       sas_thread_id (sas s' (of_nat (fst q))) = sas_thread_id (sas s (of_nat (fst q)))) \<and>
    tls_packed_id (tls s' (cl_tls_offset c)) = 0 \<and>
    (\<forall>i < CXL_BIN_SIZE. pq_first (tls_pages (tls s' (cl_tls_offset c)) i) = 0)"
proof -
  let ?t = "cl_tls_offset c" and ?P = "set (all_pages ps CXL_BIN_SIZE)"
  have l: "root_inv p n fs ls s" "pq_list (?t, Bin 0) [desc p] s" "pq_list (?t, Free_Page) free s" "desc p \<notin> set free"
    "sg_used (segment s (seg_at (fst p))) \<noteq> 1" "tls_sender_queue (tls s ?t) = 0" "tls_receiver_queue (tls s ?t) = 0"
    "\<forall>i. 2 \<le> i \<and> i < CXL_BIN_SIZE \<longrightarrow> bin_chain ?t i (ps i) s"
    "\<forall>q \<in> ?P. stays q s \<and> owned_by c (fst q) s \<and> desc q \<noteq> desc p \<and> desc q \<notin> set free" "on_pages Obj"
    using leaving by (simp_all add: leaving_def)
  have v: "valid_page p" by (rule root_invD(2)[OF l(1)])
  then have ik: "fst p < MAX_SEGMENT_NUM" "snd p < PAGES_PER_SEGMENT" by (simp_all add: valid_page_def)
  obtain s1 s2 where walk: "exit_tbr_pages c (get_page_by_offset (pq_first (get_pq (?t, Bin 0) s))) s = Some s2"
    and free: "cxl_page_free c (desc p) (?t, Bin 0) s1 = Some s2"
    and gave: "exit_gave c Obj (cells_from p 0) (exit_targets p 0 n s) s s1" "same_links (desc p) s s1"
    and s1: "pq_list (?t, Bin 0) [desc p] s1" "pq_list (?t, Free_Page) free s1" "sg_used (segment s1 (seg_at (fst p))) \<noteq> 1"
      "\<forall>q. get_pq q s1 = get_pq q s"
    using exit_tbr_page[OF id leaving] by blast
  note g = exit_gaveD[OF gave(1)]
  have ends: "set [desc p] \<inter> set free = {}" "desc p \<in> set [desc p]" using l(4) by simp_all
  obtain s2' where spec: "cxl_page_free c (desc p) (?t, Bin 0) s1 = Some s2'" "page_body (page s2' (desc p)) = zero_page"
    "segment s2' = (segment s1)(seg_at (fst p) := (segment s1 (seg_at (fst p)))
      \<lparr>sg_used := sg_used (segment s1 (seg_at (fst p))) - 1\<rparr>)" "cell s2' = cell s1" "sas s2' = sas s1"
    using cxl_page_free_spec[OF ik s1(1) ends(2) s1(2) ends(1) s1(3)] by blast
  have s2: "s2' = s2" using spec(1) free by simp
  note f = cxl_page_free_frame[OF ik s1(1) ends(2) s1(2) ends(1) free s1(3)]
  have rest: "forget_redo (tls s1 ?t) = forget_redo (tls s ?t)" by (rule g(7))
  have queues: "tls_sender_queue (tls s2 ?t) = 0" "tls_receiver_queue (tls s2 ?t) = 0"
    using f(3,4)[of ?t] l(6,7) rest
    by (auto simp: forget_redo_def dest: arg_cong[where f = tls_sender_queue] arg_cong[where f = tls_receiver_queue])
  have pages: "page s2 (desc q) = page s (desc q)" if "q \<in> ?P" for q
    using f(1)[of "desc q"] gave(2) l(9) that by simp
  have lists: "sas s2 (of_nat (fst q)) = sas s (of_nat (fst q))" if q: "q \<in> ?P" for q
    unfolding s2[symmetric] spec(5)
  proof (rule g(8))
    fix b assume b: "b \<in> Obj" "foreign c b s"
    obtain k where k: "in_page (fst k) (snd k) b" using l(10) b(1) by (auto simp: on_pages_def)
    have i: "fst k < MAX_SEGMENT_NUM" "fst q < MAX_SEGMENT_NUM"
      using k l(9) q by (auto simp: in_page_def stays_def valid_page_def)
    have "cxl_ptr_segment b = seg_at (fst k)" by (rule cxl_ptr_segment_in[OF in_page_segment[OF k]])
    moreover have "fst k \<noteq> fst q" using b(2) l(9) q calculation by (auto simp: foreign_def owned_by_def)
    ultimately show "segment_index (cxl_ptr_segment b) \<noteq> of_nat (fst q)"
      using of_nat_segment_inject[OF i] by (simp add: segment_index_seg_at[OF i(1)])
  qed
  have "bin_chain ?t i (ps i) s2" if i: "2 \<le> i" "i < CXL_BIN_SIZE" for i
  proof -
    have "get_pq (?t, Bin i) s2 = get_pq (?t, Bin i) s" using f(2)[of "(?t, Bin i)"] s1(4) i(1) by simp
    moreover have "chain (\<lambda>x. pg_next (page s2 x)) a (map desc (ps i)) = chain (\<lambda>x. pg_next (page s x)) a (map desc (ps i))" for a
    proof (rule chain_cong, rule ballI)
      fix x assume "x \<in> set (map desc (ps i))"
      then obtain q where q: "q \<in> set (ps i)" "x = desc q" by auto
      have "q \<in> ?P" unfolding set_all_pages using q(1) i by blast
      then show "pg_next (page s2 x) = pg_next (page s x)" using pages q(2) by simp
    qed
    ultimately show ?thesis using l(8) i by (simp add: bin_chain_def)
  qed
  moreover have "stays q s2" if "q \<in> ?P" for q using l(9) that pages[OF that] lists[OF that] by (simp add: stays_def)
  ultimately have bins: "for_range (\<lambda>i s. exit_obj_pages c (get_page_by_offset (pq_first (get_pq (?t, Bin i) s))) s) 2
      (CXL_BIN_SIZE - 2) s2 = Some (abandoned ?P s2)" by (intro exit_bins) auto
  let ?s = "release_tls ?t (abandoned ?P s2)"
  have run: "normal_garbage_collection c s = Some ?s"
    using walk bins queues
    by (simp add: normal_garbage_collection_def cxl_page_queue_def sender_queues.simps[of _ 0] receiver_queues.simps[of _ 0])
  have "sas_state (sas ?s (of_nat (fst q))) = ABANDON" if "q \<in> ?P" for q
    using that by (simp add: release_tls_def state_simps abandoned_def)
  moreover have "sas_thread_id (sas ?s (of_nat (fst q))) = sas_thread_id (sas s (of_nat (fst q)))" if "q \<in> ?P" for q
    using lists[OF that] by (simp add: release_tls_def state_simps)
  moreover have "tls_packed_id (tls ?s ?t) = 0" "\<forall>i < CXL_BIN_SIZE. pq_first (tls_pages (tls ?s ?t) i) = 0"
    by (simp_all add: release_tls_def state_simps reset_queues_def empty_queue_def)
  moreover have "cell ?s = cell s1" "page ?s = page s2" "segment ?s = segment s2"
    using spec(4) by (simp_all add: release_tls_def state_simps s2)
  ultimately show ?thesis
    using run g(1,3,6) pages spec(2,3) by (intro exI[of _ ?s]) (simp add: s2 obj_cnt_def)
qed

end
