(* ===== verification/Exit_Instance.thy ===== *)
theory Exit_Instance
  imports Race_Instance Orderly_Exit
begin

text \<open>
  A thread that leaves: all blocks of its page of root references are in use, the first refers to an
  object that is counted twice. And a page of message queues on memory that is not zero.
\<close>

section \<open>Leaving\<close>

definition exit_cells :: "u64 \<Rightarrow> u64" where
  "exit_cells x = (if x = obj_info obj_area then pack_ref_info 1 2 4 else if x = tbr_area then obj_area
     else if x \<in> (\<lambda>j. root_blk (0, 2) j + 8) ` {..<block_cnt 16} then 1 else 0)"

abbreviation "exit_state \<equiv> demo (demo_page 0 0 16 4096) (demo_page 0 0 1024 64) exit_cells"

lemma exit_cells_at:
  assumes "j < block_cnt 16"
  shows "exit_cells (root_blk (0, 2) j + 8) = 1" "j \<noteq> 0 \<Longrightarrow> exit_cells (root_blk (0, 2) j) = 0"
proof -
  note v = demo_root_page(1)
  have info: "obj_info obj_area \<noteq> root_blk (0, 2) j" "obj_info obj_area \<noteq> root_blk (0, 2) j + 8"
    using root_blk_in[OF v assms] demo_obj_in(2) by auto
  have b0: "0 < block_cnt 16" by (simp add: block_cnt_def)
  have "root_blk (0, 2) j + 8 \<noteq> tbr_area" using root_blk_mark(1)[OF v assms b0] demo_root_page(2) by simp
  then show "exit_cells (root_blk (0, 2) j + 8) = 1" using info assms by (auto simp: exit_cells_def)
  assume j: "j \<noteq> 0"
  have "root_blk (0, 2) j \<noteq> tbr_area" using root_blk_inject[OF v assms b0] j demo_root_page(2) by simp
  moreover have "root_blk (0, 2) j \<notin> (\<lambda>m. root_blk (0, 2) m + 8) ` {..<block_cnt 16}"
  proof
    assume "root_blk (0, 2) j \<in> (\<lambda>m. root_blk (0, 2) m + 8) ` {..<block_cnt 16}"
    then obtain m where "m < block_cnt 16" "root_blk (0, 2) j = root_blk (0, 2) m + 8" by blast
    then show False using root_blk_mark(1)[OF v _ assms, of m] by metis
  qed
  ultimately show "exit_cells (root_blk (0, 2) j) = 0" using info by (simp add: exit_cells_def)
qed

lemma exit_cells_obj: "exit_cells tbr_area = obj_area" "obj_cnt obj_area exit_state = 2"
  by (simp_all add: exit_cells_def obj_cnt_def pack_ref_info_fields) (simp add: demo_addresses obj_info_def)

lemma exit_root_inv: "root_inv (0, 2) (block_cnt 16) [] [] exit_state"
proof -
  have "page_inv 0 2 16 [] [] exit_state" by (simp add: page_inv_def demo_page_def)
  then show ?thesis using exit_cells_at(1) by (simp add: root_inv_def get_in_use_def get_field_def del: demo_counts)
qed

lemma exit_roots: "exit_targets (0, 2) 0 (block_cnt 16) exit_state = [obj_area]"
proof -
  have "exit_target (0, 2) exit_state j = []" if "j \<in> set [1..<block_cnt 16]" for j
    using exit_cells_at(2)[of j] that by (simp add: exit_target_def del: demo_counts)
  then have "exit_targets (0, 2) 1 (block_cnt 16) exit_state = []" by (simp add: exit_targets_def del: demo_counts upt_conv_Cons_Cons)
  moreover have b0: "0 < block_cnt 16" by (simp add: block_cnt_def)
  have "exit_target (0, 2) exit_state 0 = [obj_area]"
    using exit_cells_at(1)[OF b0] by (simp add: exit_target_def demo_root_page(2) exit_cells_obj get_in_use_def get_field_def)
  ultimately show ?thesis using exit_targets_Suc[OF b0, of "(0, 2)" exit_state] by (simp del: demo_counts)
qed

lemma exit_live: "tbr_area \<in> live_roots (0, 2) [] []"
  by (simp add: live_blocks_def area_head)

lemma exit_leaving: "leaving demo_client (0, 2) (block_cnt 16) [] [] dead_pages [] demo_objs exit_state"
proof -
  have "pq_list (THREAD_LOCAL_VEC_START, Bin 0) [tbr_page] exit_state" "pq_list (THREAD_LOCAL_VEC_START, Free_Page) [] exit_state"
    by (simp_all add: pq_list_def demo_tls_def demo_page_def)
  moreover have "\<forall>i. 2 \<le> i \<and> i < CXL_BIN_SIZE \<longrightarrow> bin_chain THREAD_LOCAL_VEC_START i (dead_pages i) exit_state"
    by (simp add: bin_chain_def dead_pages_def demo_tls_def demo_page_def)
  moreover have "stays (0, 3) exit_state" by (simp add: stays_def valid_page_def demo_page_def)
  moreover have "exit_releasable demo_client demo_objs [obj_area] exit_state"
    using demo_obj_member exit_cells_obj(2) by (simp add: exit_releasable_def)
  moreover have "apart demo_objs" by (rule page_blocks_apart) simp_all
  ultimately show ?thesis
    using exit_root_inv exit_live demo_owned demo_on_pages demo_off_page
    by (auto simp: leaving_def exit_roots all_dead_pages demo_tls_def simp del: demo_counts)
qed

lemma exit_releases_witness:
  "\<exists>s'. normal_garbage_collection demo_client exit_state = Some s' \<and> obj_cnt obj_area s' = 1 \<and>
     sas_state (sas s' (of_nat 0)) = ABANDON \<and> tls_packed_id (tls s' THREAD_LOCAL_VEC_START) = 0"
proof -
  obtain s' where s': "normal_garbage_collection demo_client exit_state = Some s'"
    "\<forall>b \<in> demo_objs. obj_cnt b s' + count_list (exit_targets (0, 2) 0 (block_cnt 16) exit_state) b = obj_cnt b exit_state"
    "\<forall>q \<in> set (all_pages dead_pages CXL_BIN_SIZE). page s' (desc q) = page exit_state (desc q) \<and>
       sas_state (sas s' (of_nat (fst q))) = ABANDON \<and>
       sas_thread_id (sas s' (of_nat (fst q))) = sas_thread_id (sas exit_state (of_nat (fst q)))"
    "tls_packed_id (tls s' (cl_tls_offset demo_client)) = 0"
    using exit_releases[OF demo_valid exit_leaving] by blast
  have "obj_cnt obj_area s' + 1 = 2" using bspec[OF s'(2) demo_obj_member] by (simp add: exit_roots exit_cells_obj(2) del: demo_counts)
  then show ?thesis using s'(1,3,4) by (simp add: all_dead_pages)
qed

lemma root_page_kept_witness:
  "\<exists>s'. cxl_free demo_client True tbr_area exit_state = Some s' \<and> root_inv (0, 2) (block_cnt 16) [] [tbr_area] s'"
  using root_page_kept[OF exit_root_inv, of tbr_area "[]" demo_client] exit_live demo_owned
  by (simp add: demo_page_def del: demo_counts)

section \<open>A page on memory that was used before\<close>

abbreviation "stale_at \<equiv> mq_ids (blk (area_at (seg_at 1) 2) sizeof_msg_queue 3)"
abbreviation "stale_state \<equiv> demo zero_page zero_page ((\<lambda>_. 0)(stale_at := 7))"

text \<open>Everybody has left: the thread states are free.\<close>

definition left_alone :: "shm \<Rightarrow> shm" where
  "left_alone s = (upd_page (meta_at (seg_at 1) 2) (\<lambda>p. p\<lparr>pg_is_msg_queue := True\<rparr>) s)\<lparr>tls := \<lambda>_. free_tls\<rparr>"

lemma stale_queue_kept_witness:
  "\<exists>s1 t'. cxl_page_init True (meta_at (seg_at 1) 2) sizeof_msg_queue stale_state = Some s1 \<and>
     recovery_loop 100 (left_alone s1) = Some t' \<and> sas_thread_id (sas t' (of_nat 1)) = 1"
proof -
  let ?p = "meta_at (seg_at 1) 2"
  have i: "1 < MAX_SEGMENT_NUM" "2 < PAGES_PER_SEGMENT" by (simp_all add: layout_simps)
  have zero: "page (demo zero_page zero_page m) x = zero_page" for m x by (simp add: demo_def)
  have ok: "area_ok (area_at (seg_at 1) 2) sizeof_msg_queue" using i by (intro area_ok_area_at) (simp_all add: layout_simps)
  have free: "pg_free (page stale_state ?p) = 0" by (simp only: zero) (simp add: zero_page_def)
  obtain s1 where s1: "cxl_page_init True ?p sizeof_msg_queue stale_state = Some s1"
    "page s1 = (page stale_state)(?p := fresh_page (area_at (seg_at 1) 2) sizeof_msg_queue)" "sas s1 = sas stale_state"
    using cxl_page_init_spec[OF i ok _ free, of True] by blast
  let ?t = "left_alone s1"
  have page_t: "page ?t x = (if x = ?p then (fresh_page (area_at (seg_at 1) 2) sizeof_msg_queue)\<lparr>pg_is_msg_queue := True\<rparr>
      else zero_page)" for x
  proof -
    have "page ?t = (page s1)(?p := page s1 ?p\<lparr>pg_is_msg_queue := True\<rparr>)"
      by (simp add: left_alone_def upd_page_def)
    then show ?thesis by (simp add: s1(2) zero)
  qed
  have sel: "cell ?t = cell s1" "sas ?t = sas stale_state" "tls ?t = (\<lambda>_. free_tls)"
    by (simp_all add: left_alone_def state_simps s1(3))
  have "page_fit i k ?t" for i k
    unfolding page_fit_def page_bs_def page_t
    by (cases "meta_at (seg_at i) k = ?p") (simp_all add: fresh_page_def zero_page_def layout_simps)
  then have idle: "idle_system ?t" by (simp add: idle_system_def segment_fit_def no_thread_def sel(3) free_tls_def)
  have "get_sender_id (cell stale_state stale_at) \<noteq> 0" by (simp add: get_sender_id_def get_field_def)
  moreover have "3 < block_cnt sizeof_msg_queue" by (simp add: block_cnt_def layout_simps)
  moreover have "pg_block_size (page ?t ?p) = pg_block_size (page s1 ?p)" "pg_is_msg_queue (page ?t ?p)"
    by (simp_all add: page_t s1(2))
  moreover have "cell ?t stale_at = cell s1 stale_at" by (simp only: sel(1))
  ultimately obtain t' where "recovery_loop 100 ?t = Some t'" "sas t' (of_nat 1) = sas ?t (of_nat 1)"
    using stale_queue_kept[OF i free s1(1) refl _ _ _ _ _ idle, of 3 100] by blast
  then show ?thesis using s1(1) by (intro exI[of _ s1] exI[of _ t']) (simp add: sel(2))
qed

end
