(* ===== verification/Spec2Isabelle.thy ===== *)
theory Spec2Isabelle
  imports Exit_Instance
begin

text \<open>
  CXL-SHM: a reference-counted shared-memory allocator that survives the crash of its clients.

  \<^bold>\<open>The program.\<close> Threads of several machines map one region of memory. It holds, one after the other,
  the states of the segments (\<open>cxl_segment_allocation_state_t\<close>), the era matrix, the thread states
  (\<open>cxl_thread_local_state_t\<close>: redo log, page queues, message queues), the tables of the hash index and
  the segments. A thread (\<open>class cxl_shm\<close>) claims a thread state, claims segments, splits them into
  pages of blocks of one size, and allocates objects in them. Every object starts with a word that packs
  the id of the last thread that changed its count, the count, and that thread's era at the time. A
  reference is a cell that names an object: in a root reference (\<open>RootRef\<close>, which the handles \<open>CXLRef\<close> of
  a program share), in a slot of a message queue, in a node of the hash index, or embedded in another
  object. \<open>link_reference\<close> and \<open>unlink_reference\<close> change the word by one compare-and-swap, after
  a record in the redo log and before the write of the reference. The monitor (\<open>class monitor\<close>) takes over
  from a dead thread: it completes the operation in its redo log, gives up the references it held, and
  gives back the segments in which nothing is in use.

  \<^bold>\<open>State.\<close> \<open>Shm_Layout\<close> has the records. An address is its offset from the start of the region, as
  the code stores it. The structures that are only accessed by their type are maps from the address (or
  index) to a record: page descriptors, segment headers, segment states, thread states; the era matrix is
  a map from the position in the array, so that an index outside the array is seen. Blocks, hash tables
  and queues are 8-byte cells, since the code reads the same bytes as different structures. Integers have
  the width of the code. The fields a client keeps outside the region are the record \<open>client\<close>.

  \<^bold>\<open>Results.\<close> \<open>None\<close> is a run without a result in C++: a null pointer is dereferenced, a
  division by zero, or a loop that does not end (\<open>partial_function (option)\<close>). No fuel is used. Each
  property of a loop states that it returns. An error that the code reports (\<open>false\<close>, a null handle) is a
  value below \<open>Some\<close>.

  \<^bold>\<open>Theories.\<close>
  \<^item> \<open>Shm_Prelude\<close>: machine integers, rule collections, bit fields, linked chains.
  \<^item> \<open>Shm_Layout\<close> (\<open>include/cxlmalloc-types.h\<close>, \<open>cxlmalloc-internal.h\<close>, \<open>cxlmalloc.h\<close>): constants,
    structures, \<open>cxl_ptr_segment\<close>, \<open>cxl_ptr_page\<close>, \<open>cxl_page_start\<close>, \<open>cxl_page_block_at\<close>, and that they
    invert each other.
  \<^item> \<open>Ref_Info\<close> (\<open>cxlmalloc-internal.h\<close>): the packed words. Packing is by addition; the lemmas say
    when fields stay apart and what an overflow does.
  \<^item> \<open>Page_Queue\<close> (\<open>src/page_queue.cpp\<close>): the doubly linked queues of page descriptors. Locale
    \<open>linked_queues\<close>, interpreted on the code's push and remove, makes them cons and deletion on a list.
  \<^item> \<open>Segment\<close> (\<open>src/segment.cpp\<close>), \<open>Page\<close> (\<open>src/page.cpp\<close>), \<open>Alloc\<close> (\<open>src/alloc.cpp\<close>): claiming and
    splitting a segment, threading and collecting the free lists, finding a page, \<open>cxl_malloc\<close> down to
    the block, \<open>cxl_free\<close> with its local and remote branches.
  \<^item> \<open>Page_Inv\<close>: the invariant of a page (every block is free, locally free or in use, and \<open>used\<close> counts
    the last) and that allocation, release and collection keep it, out of memory included.
  \<^item> \<open>Ref_Count\<close> (\<open>src/cxl_shm.cpp\<close>): \<open>link_reference\<close>, \<open>unlink_reference\<close>, the recursive
    \<open>test_free\<close>, \<open>get_ref\<close>, as undisturbed runs; the wrap-around of a count.
  \<^item> \<open>Cxl_Ref\<close> (\<open>src/cxl_ref.cpp\<close>): handles; that \<open>cxl_malloc\<close> and the destructor cancel out.
  \<^item> \<open>Msg_Transfer\<close> (\<open>src/transfer.cpp\<close>): creating a queue, \<open>sent_to\<close>, \<open>cxl_unwrap\<close>; the ring as a list.
  \<^item> \<open>Hash_Index\<close> (\<open>src/hash_index.cpp\<close>): \<open>put\<close> and \<open>get\<close>; locale \<open>kv_store\<close>, interpreted on a chain of the
    index, gives the laws of a map.
  \<^item> \<open>Thread_Init\<close> (\<open>thread_init\<close> of \<open>src/cxl_shm.cpp\<close>) and \<open>Machine_Id\<close> (\<open>get_mac\<close>): joining.
  \<^item> \<open>Recovery\<close> (\<open>src/recovery.cpp\<close>): the definitions of the orderly exit and of the monitor. \<open>Redo\<close>
    has the lemmas on replaying the log, \<open>Sweep\<close> those on the sweep of the segments, \<open>Dead_Thread\<close> and
    \<open>Dead_Roots\<close> those on what is done for one dead thread whose objects refer to nothing.
  \<^item> \<open>Graph_Release\<close>, \<open>Graph_Roots\<close>, \<open>Graph_Queues\<close>, \<open>Graph_Reach\<close>: the recovery of a dead thread when
    objects refer to objects. A graph gives the objects, the cells that may refer to them and a rank that
    falls along references; the invariant \<open>heap_ok\<close> says that every count is the number of cells that
    name the object. The recursive release, the walk over the root references and the walks over the
    queues (locale \<open>queue_walk\<close>, interpreted on both) keep it, and the objects still counted are those
    that can be reached from the references that are left. \<open>No_Leak\<close> puts this together with the loops
    over pages and segments and the sweep.
  \<^item> \<open>Orderly_Exit\<close> (\<open>normal_garbage_collection\<close> of \<open>src/recovery.cpp\<close>): a thread that leaves while
    others hold its objects; the invariant of a page of root references the walk relies on.
    \<open>Stale_Block\<close>: what the initialisation of a page leaves in its blocks.
  \<^item> \<open>Era_Protocol\<close>: \<open>link_reference\<close> and \<open>unlink_reference\<close> line by line, as a step relation
    of any number of threads, in which a compare-and-swap may fail; its invariant. \<open>Era_Runs\<close>: what
    follows for reachable states.
  \<^item> \<open>Free_Race\<close>: the remote branch of \<open>cxl_free\<close> and \<open>cxl_thread_free_collect\<close> line by line, for any
    number of threads that free and the owner that collects. \<open>Queue_Race\<close>: \<open>sent_to\<close> and \<open>cxl_unwrap\<close>
    line by line, a sender and a receiver on one queue. Both leave the other threads free to change
    everything else. Some stretches are one step: the owner's walk over the list it has detached, which
    nobody else can reach, and the link or unlink inside a transfer, whose steps are in \<open>Era_Protocol\<close>.
    Both have lemmas that the undisturbed run is the sequential definition.
  \<^item> \<open>Numa_Config\<close> (\<open>include/numa-config.h\<close>): the tables of CPU numbers.
  \<^item> \<open>Demo_State\<close>, \<open>Instances\<close>, \<open>Leak_Instance\<close>, \<open>Race_Instance\<close> and \<open>Exit_Instance\<close>: concrete states, and each property applied to one of
    them.

  \<^bold>\<open>What is shown.\<close> Under every interleaving of links and unlinks the count of an object is the number
  of cells that refer to it, up to the operations between exchange and store; the operations run one by one
  and at once, in the order of their exchanges, give the same counts and references; and a thread that
  dies after it has written the record of its operation and before it increments its era is completed by
  the replay if and only if its exchange took place, which is the central claim of the design. It rests
  on the start of the run: no word of an object carries the current era of a thread (\<open>proto_start\<close>).
  \<open>put\<close> of the hash index prepares a node whose word does, and the replay is wrong there
  (\<open>redo_prepared_node\<close>). The undisturbed run of the steps is \<open>link_reference\<close> or \<open>unlink_reference\<close> of \<open>Ref_Count\<close>, so that the
  lemmas on handles, queues and the index, which use these, are about the same code. For the
  allocator: blocks are never handed out twice or lost, a page goes back when its last block does, a
  segment when its pages do; of the blocks that threads free while the owner collects, none is lost or
  collected twice. A queue delivers what was sent, in order, however its two threads interleave. For
  recovery: the loops return, a dead thread's references are given up
  exactly once each, an object loses its count exactly when it can no longer be reached from the
  references of others, and after one round of the monitor with no other thread registered a segment keeps
  its owner exactly when such an object lies in it; if there is none, nothing leaks. A thread
  that leaves in order gives up its references in the same way, and its objects stay with those who hold
  them. The remaining properties are the behaviour at the limits: full and empty queues, no memory left, counts
  and ids out of range, handles that were moved from, pages on memory that was used before (where the
  segment of a page of message queues, unless it is given back when its owner dies, stays claimed through
  all later rounds of the monitor).

  \<^bold>\<open>Bounds.\<close> Counts below 65535 and eras other than the largest, in \<open>Era_Protocol\<close>: beyond them fields
  of the packed word or the order of eras are lost, which \<open>Ref_Count\<close> shows for counts. Thread ids
  from 1 to \<open>MAX_THREAD\<close>; \<open>Thread_Init\<close> shows that the code hands out larger ones. The era matrix and the
  thread states are separate maps in the model, so that the era of an id above \<open>MAX_THREAD\<close>, which the code
  writes behind the matrix and into the thread states, changes no thread state here; the properties of
  \<open>thread_init\<close> that speak of the other thread states are about ids up to \<open>MAX_THREAD\<close>. Block sizes from 16 bytes to a page. A recovery step is taken to run alone,
  as the code does with one monitor process, which takes every registered thread for dead (\<open>check_tls\<close>): the
  properties of a whole round have one registered thread, or none. Objects have no cycles of references, which counting would
  not release, and a queue of a dead thread has no other user in the graph theories; \<open>Dead_Thread\<close> has
  the case of a queue whose sender is still there. \<open>Orderly_Exit\<close> has one page of root references, pages
  of objects that have another block in use, and no message queue.

  \<^bold>\<open>Reading the sequential theories.\<close> A compare-and-swap loop there is its first successful
  iteration; \<open>Era_Protocol\<close> and \<open>Free_Race\<close> have the failed ones of counting and of the lists of freed
  blocks. Such a loop that cannot succeed (an expected value that is not there and that nobody
  restores) is \<open>None\<close>. Flushes and fences have no counterpart: a store is visible at once and survives.

  \<^bold>\<open>Not modelled.\<close> Opening the device, \<open>mmap\<close>, \<open>shmat\<close>, \<open>shmdt\<close> and the calls on the socket in
  \<open>get_mac\<close> are system calls; their results are inputs. \<open>recovery_loop\<close> repeats \<open>single_recovery_loop\<close>
  for ever and is modelled by its first \<open>n\<close> turns. Traces and time measurements have no effect on the state. \<open>change_reference\<close>,
  \<open>change_reference_pure\<close> and \<open>find_msg_queue\<close> are declared in \<open>include/cxlmalloc.h\<close> and have no body. The monitor's copies of \<open>era\<close>,
  \<open>cxl_ptr_page\<close>, \<open>get_block_by_offset\<close> and the like are the same definitions as the client's. Fault
  injection (\<open>POTENTIAL_FAULT_REF\<close>) ends the process at points that are states of \<open>Era_Protocol\<close>. The tests
  and benchmarks are drivers.
\<close>

end
